(* ===== verification/Prelude.thy ===== *)
theory Prelude
  imports Main "HOL-Library.Word" "HOL-Library.Monad_Syntax"
begin

text \<open>
  Shared vocabulary of the development.

  Integers keep the width they have in the kernel: \<open>u8\<close>, \<open>u16\<close>, \<open>u32\<close> and \<open>u64\<close> are
  machine words; \<open>usize\<close> values that are only used as array indices, shift amounts
  or loop counters are \<open>nat\<close>.  The kernel is built with cargo's \<open>dev\<close> profile
  (kernel/GNUmakefile, \<open>RUST_PROFILE := dev\<close>), so \<open>+\<close>, \<open>-\<close> and \<open>*\<close> panic on overflow and
  \<open>debug_assert!\<close> is active.  A computation that may panic has an \<open>option\<close> type and
  \<open>None\<close> is the panic (the panic handler halts the machine, main.rs \<open>rust_panic\<close>);
  the \<open>do\<close> notation of the option monad sequences such computations.
\<close>

unbundle bit_operations_syntax

type_synonym u8 = "8 word"
type_synonym u16 = "16 word"
type_synonym u32 = "32 word"
type_synonym u64 = "64 word"

named_theorems rust_simps \<open>unfolding rules for the checked operations of the source language\<close>

section \<open>Checked operations of the source language\<close>

definition check :: "bool \<Rightarrow> unit option" where
  "check b = (if b then Some () else None)"

definition add64 :: "u64 \<Rightarrow> u64 \<Rightarrow> u64 option" where
  "add64 a b = (if uint a + uint b < 2 ^ 64 then Some (a + b) else None)"

definition sub64 :: "u64 \<Rightarrow> u64 \<Rightarrow> u64 option" where
  "sub64 a b = (if b \<le> a then Some (a - b) else None)"

definition mul64 :: "u64 \<Rightarrow> u64 \<Rightarrow> u64 option" where
  "mul64 a b = (if uint a * uint b < 2 ^ 64 then Some (a * b) else None)"

text \<open>\<open><<\<close> panics only when the shift amount is at least the width; bits shifted out are lost.\<close>

definition shl64 :: "u64 \<Rightarrow> nat \<Rightarrow> u64 option" where
  "shl64 a n = (if n < 64 then Some (push_bit n a) else None)"

definition idx :: "'a list \<Rightarrow> nat \<Rightarrow> 'a option" where
  "idx xs i = (if i < length xs then Some (xs ! i) else None)"

definition idx_set :: "'a list \<Rightarrow> nat \<Rightarrow> 'a \<Rightarrow> 'a list option" where
  "idx_set xs i v = (if i < length xs then Some (xs[i := v]) else None)"

text \<open>\<open>u64::trailing_zeros\<close>, \<open>u64::leading_zeros\<close>, \<open>is_power_of_two\<close>, \<open>is_multiple_of\<close>.\<close>

definition trailing_zeros :: "u64 \<Rightarrow> nat" where
  "trailing_zeros w = length (takeWhile (\<lambda>i. \<not> bit w i) [0..<64])"

definition leading_zeros :: "u64 \<Rightarrow> nat" where
  "leading_zeros w = length (takeWhile (\<lambda>i. \<not> bit w i) (rev [0..<64]))"

definition is_power_of_two :: "u64 \<Rightarrow> bool" where
  "is_power_of_two w = (length (filter (bit w) [0..<64]) = 1)"

definition is_multiple_of :: "u64 \<Rightarrow> u64 \<Rightarrow> bool" where
  "is_multiple_of a b = (if b = 0 then a = 0 else a mod b = 0)"

lemma check_simps [simp]:
  "check True = Some ()" "check False = None"
  "check b = Some u \<longleftrightarrow> b" "check b = None \<longleftrightarrow> \<not> b"
  by (auto simp: check_def)

lemma check_bind [simp]: "Option.bind (check b) f = (if b then f () else None)"
  by (simp add: check_def)

lemma add64_alt: "add64 a b = (if unat a + unat b < 2 ^ 64 then Some (a + b) else None)"
proof -
  have "uint a + uint b < 2 ^ 64 \<longleftrightarrow> int (unat a + unat b) < int (2 ^ 64)" unfolding uint_nat by simp
  then show ?thesis unfolding of_nat_less_iff by (simp add: add64_def)
qed

lemma mul64_alt: "mul64 a b = (if unat a * unat b < 2 ^ 64 then Some (a * b) else None)"
proof -
  have "uint a * uint b < 2 ^ 64 \<longleftrightarrow> int (unat a * unat b) < int (2 ^ 64)" unfolding uint_nat by simp
  then show ?thesis unfolding of_nat_less_iff by (simp add: mul64_def)
qed

lemma add64_Some [simp]:
  "unat a + unat b < 2 ^ 64 \<Longrightarrow> add64 a b = Some (a + b)"
  by (simp add: add64_alt)

lemma add64_None [simp]: "2 ^ 64 \<le> unat a + unat b \<Longrightarrow> add64 a b = None"
  by (simp add: add64_alt)

lemma unat_add64: "add64 a b = Some c \<Longrightarrow> unat c = unat a + unat b"
  by (auto simp: add64_alt unat_word_ariths split: if_splits)

lemma sub64_Some [simp]: "b \<le> a \<Longrightarrow> sub64 a b = Some (a - b)"
  by (simp add: sub64_def)

lemma unat_sub64: "sub64 a b = Some c \<Longrightarrow> unat c = unat a - unat b \<and> unat b \<le> unat a"
  by (auto simp: sub64_def unat_sub word_le_nat_alt split: if_splits)

lemma shl64_Some [simp]: "n < 64 \<Longrightarrow> shl64 a n = Some (push_bit n a)"
  by (simp add: shl64_def)

lemma idx_Some [simp]: "i < length xs \<Longrightarrow> idx xs i = Some (xs ! i)"
  by (simp add: idx_def)

lemma idx_eq_None [simp]: "idx xs i = None \<longleftrightarrow> length xs \<le> i"
  by (auto simp: idx_def)

lemma idx_set_Some [simp]: "i < length xs \<Longrightarrow> idx_set xs i v = Some (xs[i := v])"
  by (simp add: idx_set_def)

declare add64_alt [rust_simps] mul64_alt [rust_simps] sub64_def [rust_simps] shl64_def [rust_simps]
  idx_def [rust_simps] idx_set_def [rust_simps] Let_def [rust_simps]

lemma all_from_Suc:
  fixes a b :: nat
  assumes "a < b"
  shows "(\<forall>j. a \<le> j \<and> j < b \<longrightarrow> P j) \<longleftrightarrow> P a \<and> (\<forall>j. a + 1 \<le> j \<and> j < b \<longrightarrow> P j)"
  using assms by (metis Suc_eq_plus1 Suc_leD Suc_leI le_refl le_neq_implies_less)

section \<open>Words as naturals\<close>

lemma unat_add_lt: "unat a + unat b < 2 ^ 64 \<Longrightarrow> unat (a + b :: u64) = unat a + unat b"
  by (simp add: unat_word_ariths)

lemma unat_lt64: "unat (a :: u64) < 2 ^ 64"
  using unsigned_less[of a] by simp

lemma unat_lt64_numeral [simp]: "unat (a :: u64) < 18446744073709551616"
  using unat_lt64[of a] by simp

lemma unat_push_bit64: "unat a * 2 ^ n < 2 ^ 64 \<Longrightarrow> unat (push_bit n a :: u64) = unat a * 2 ^ n"
  by (simp only: unsigned_push_bit_eq) (simp add: push_bit_eq_mult take_bit_eq_mod)

lemma unat_push_one [simp]: "n < 64 \<Longrightarrow> unat (push_bit n 1 :: u64) = 2 ^ n"
  by (subst unat_push_bit64) (use power_strict_increasing[of n 64 "2 :: nat"] in simp_all)

lemma unat_pow2 [simp]: "n < 64 \<Longrightarrow> unat (2 ^ n :: u64) = 2 ^ n"
  using unat_push_one[of n] by simp

lemma pow2_neq_0 [simp]: "n < 64 \<Longrightarrow> 2 ^ n \<noteq> (0 :: u64)"
  by (metis power_not_zero unat_0 unat_pow2 zero_neq_numeral)

lemma unat_of_nat64: "n < 2 ^ 64 \<Longrightarrow> unat (word_of_nat n :: u64) = n"
  by (simp add: unat_of_nat)

lemma unat_drop_bit64: "unat (drop_bit n a :: u64) = unat a div 2 ^ n"
  by (simp only: unsigned_drop_bit_eq) (simp add: drop_bit_eq_div take_bit_nat_eq_self)

lemma unat_le_iff: "a \<le> b \<longleftrightarrow> unat a \<le> unat (b :: 'a :: len word)"
  by (rule word_le_nat_alt)

lemma unat_eq_iff: "unat a = unat b \<longleftrightarrow> a = (b :: 'a :: len word)"
  by (auto intro: unsigned_word_eqI)

lemma unat_less_iff: "a < b \<longleftrightarrow> unat a < unat (b :: 'a :: len word)"
  by (rule word_less_nat_alt)

lemma is_multiple_of_pow2 [simp]:
  assumes "n < 64"
  shows "is_multiple_of a (2 ^ n) \<longleftrightarrow> 2 ^ n dvd unat a"
proof -
  have "a mod 2 ^ n = 0 \<longleftrightarrow> unat (a mod 2 ^ n) = 0"
    by (simp add: unat_eq_0)
  also have "\<dots> \<longleftrightarrow> 2 ^ n dvd unat a"
    using assms by (simp only: unat_mod unat_pow2 dvd_eq_mod_eq_0)
  finally show ?thesis using assms by (simp add: is_multiple_of_def)
qed

lemma bit_iff_odd_unat: "n < 64 \<Longrightarrow> bit (a :: u64) n \<longleftrightarrow> odd (unat a div 2 ^ n)"
  by (simp add: bit_unsigned_iff flip: bit_iff_odd)

lemma trailing_zeros_dvd: "2 ^ trailing_zeros w dvd unat w"
proof -
  have "\<forall>i<trailing_zeros w. \<not> bit w i"
  proof (intro allI impI)
    fix i assume i: "i < trailing_zeros w"
    let ?t = "takeWhile (\<lambda>i. \<not> bit w i) [0..<64]"
    have "length ?t \<le> 64" using length_takeWhile_le[of "\<lambda>i. \<not> bit w i" "[0..<64]"] by simp
    then have "?t ! i = i" using i by (simp add: trailing_zeros_def takeWhile_nth)
    moreover have "?t ! i \<in> set ?t" using i by (intro nth_mem) (simp add: trailing_zeros_def)
    ultimately have "i \<in> set ?t" by simp
    then show "\<not> bit w i" by (blast dest: set_takeWhileD)
  qed
  then have "take_bit (trailing_zeros w) w = 0" by (intro bit_eqI) (auto simp: bit_simps)
  then have "take_bit (trailing_zeros w) (unat w) = 0"
    by (metis unsigned_0 unsigned_take_bit_eq)
  then show ?thesis by (simp add: take_bit_eq_0_iff)
qed

lemma leading_zeros_le:
  assumes "w \<noteq> 0"
  shows "2 ^ (63 - leading_zeros w) \<le> unat w" "leading_zeros w < 64"
proof -
  let ?P = "\<lambda>i. \<not> bit w i" and ?xs = "rev [0..<64]"
  have "\<exists>n. bit w n"
  proof (rule ccontr)
    assume "\<nexists>n. bit w n"
    then have "w = 0" by (intro bit_eqI) simp
    with assms show False ..
  qed
  then obtain n where n: "bit w n" ..
  then have n64: "n \<in> set ?xs" using bit_imp_le_length[OF n] by simp
  have "takeWhile ?P ?xs \<noteq> ?xs"
    using n n64 by (metis (mono_tags, lifting) takeWhile_eq_all_conv)
  moreover have "length (takeWhile ?P ?xs) \<le> length ?xs" by (rule length_takeWhile_le)
  moreover have "takeWhile ?P ?xs = take (length (takeWhile ?P ?xs)) ?xs" by (rule takeWhile_eq_take)
  ultimately have lt: "leading_zeros w < length ?xs"
    unfolding leading_zeros_def by (metis le_neq_implies_less take_all_iff order_refl)
  then show l: "leading_zeros w < 64" by simp
  have "\<not> ?P (?xs ! leading_zeros w)" using lt unfolding leading_zeros_def by (rule nth_length_takeWhile)
  moreover have "?xs ! leading_zeros w = 63 - leading_zeros w" using l by (simp add: rev_nth)
  ultimately have "bit w (63 - leading_zeros w)" by simp
  then have "odd (unat w div 2 ^ (63 - leading_zeros w))" by (simp add: bit_iff_odd_unat)
  then show "2 ^ (63 - leading_zeros w) \<le> unat w"
    by (cases "unat w < 2 ^ (63 - leading_zeros w)") auto
qed
end
