(* ===== verification/Memory.thy ===== *)
theory Memory
  imports Prelude
begin

text \<open>
  The physical memory the kernel reaches through the higher-half direct map.
  \<open>mem\<close> gives the 64-bit word stored at each 8-byte aligned pointer value (a pointer
  is the virtual address \<open>phys + hhdm\<close> the code computes).  Every in-memory structure
  of the kernel is made of such words: the free-list links the physical allocator
  keeps inside free frames, the 512 entries of a page table and the slab headers and
  free objects of the heap.  An \<open>Option<NonNull<T>>\<close> is the pointer, or 0 for \<open>None\<close>.
\<close>

type_synonym mem = "u64 \<Rightarrow> u64"

definition enc_ptr :: "u64 option \<Rightarrow> u64" where
  "enc_ptr p = (case p of None \<Rightarrow> 0 | Some a \<Rightarrow> a)"

definition dec_ptr :: "u64 \<Rightarrow> u64 option" where
  "dec_ptr w = (if w = 0 then None else Some w)"

lemma dec_enc_ptr [simp]: "p \<noteq> Some 0 \<Longrightarrow> dec_ptr (enc_ptr p) = p"
  by (auto simp: dec_ptr_def enc_ptr_def split: option.splits)

lemma enc_dec_ptr [simp]: "enc_ptr (dec_ptr w) = w"
  by (simp add: dec_ptr_def enc_ptr_def)

lemma enc_ptr_simps [simp]: "enc_ptr None = 0" "enc_ptr (Some a) = a"
  by (simp_all add: enc_ptr_def)

lemma dec_ptr_0 [simp]: "dec_ptr 0 = None" "a \<noteq> 0 \<Longrightarrow> dec_ptr a = Some a"
  by (simp_all add: dec_ptr_def)

lemma dec_ptr_not_null [simp]: "dec_ptr w \<noteq> Some 0"
  by (simp add: dec_ptr_def)

end
