(* ===== verification/Pmm.thy ===== *)
theory Pmm
  imports Memory
begin

text \<open>
  The physical memory manager, kernel/src/mm/pmm.rs: a buddy allocator whose free
  lists are doubly linked through the free frames themselves.  This theory holds the
  data, the methods of \<open>Pmm\<close> and the functions on the global \<open>PMM\<close>.
\<close>

section \<open>Constants and data\<close>

definition FRAME_SHIFT :: nat where [simp]: "FRAME_SHIFT = 12"
definition FRAME_SIZE :: u64 where [simp]: "FRAME_SIZE = push_bit FRAME_SHIFT 1"
definition MAX_ORDER :: nat where [simp]: "MAX_ORDER = 11"
definition NUM_ORDERS :: nat where [simp]: "NUM_ORDERS = MAX_ORDER + 1"
definition ORDER_NONE :: u8 where [simp]: "ORDER_NONE = 0xFF"

text \<open>
  The two link words at the start of a free block, in the order of declaration.
\<close>

record FreeBlock =
  prev :: "u64 option"
  nxt :: "u64 option"

definition free_block :: "mem \<Rightarrow> u64 \<Rightarrow> FreeBlock" where
  "free_block m b = \<lparr>prev = dec_ptr (m b), nxt = dec_ptr (m (b + 8))\<rparr>"

definition set_prev :: "mem \<Rightarrow> u64 \<Rightarrow> u64 option \<Rightarrow> mem" where
  "set_prev m b p = m(b := enc_ptr p)"

definition set_next :: "mem \<Rightarrow> u64 \<Rightarrow> u64 option \<Rightarrow> mem" where
  "set_next m b p = m(b + 8 := enc_ptr p)"

record Pmm =
  free_lists :: "u64 option list"
  frame_order :: "u8 list"
  total_frames :: u64
  free_frames :: u64
  hhdm_offset :: u64

section \<open>Methods of Pmm\<close>

definition frame_index :: "u64 \<Rightarrow> u64 option" where
  "frame_index raw = do {
     check (is_multiple_of raw FRAME_SIZE);
     Some (drop_bit FRAME_SHIFT raw) }"

definition Pmm_new :: "u8 list \<Rightarrow> u64 \<Rightarrow> u64 \<Rightarrow> Pmm option" where
  "Pmm_new fo total_fr hhdm = do {
     check (unat total_fr = length fo);
     Some \<lparr>free_lists = replicate NUM_ORDERS None,
           frame_order = replicate (length fo) ORDER_NONE,
           total_frames = total_fr, free_frames = 0, hhdm_offset = hhdm\<rparr> }"

definition frame_to_block :: "Pmm \<Rightarrow> u64 \<Rightarrow> u64 option" where
  "frame_to_block p frame = add64 (push_bit FRAME_SHIFT frame) (hhdm_offset p)"

definition block_to_frame :: "Pmm \<Rightarrow> u64 \<Rightarrow> u64 option" where
  "block_to_frame p block = do {
     off \<leftarrow> sub64 block (hhdm_offset p);
     Some (drop_bit FRAME_SHIFT off) }"

text \<open>
  \<open>set_block_order\<close> and \<open>assert_block_unused\<close> loop over \<open>i in 0..pages\<close>; the helper
  takes the loop variable and the number of iterations left.
\<close>

primrec set_block_order_loop :: "u8 list \<Rightarrow> u64 \<Rightarrow> u8 \<Rightarrow> u64 \<Rightarrow> nat \<Rightarrow> u8 list option" where
  "set_block_order_loop fo frame value i 0 = Some fo"
| "set_block_order_loop fo frame value i (Suc n) = do {
     k \<leftarrow> add64 frame i;
     fo' \<leftarrow> idx_set fo (unat k) value;
     set_block_order_loop fo' frame value (i + 1) n }"

definition set_block_order :: "Pmm \<Rightarrow> u64 \<Rightarrow> nat \<Rightarrow> u8 \<Rightarrow> Pmm option" where
  "set_block_order p frame order value = do {
     pages \<leftarrow> shl64 1 order;
     fo \<leftarrow> set_block_order_loop (frame_order p) frame value 0 (unat pages);
     Some (p\<lparr>frame_order := fo\<rparr>) }"

primrec assert_block_unused_loop :: "u8 list \<Rightarrow> u64 \<Rightarrow> u64 \<Rightarrow> nat \<Rightarrow> unit option" where
  "assert_block_unused_loop fo frame i 0 = Some ()"
| "assert_block_unused_loop fo frame i (Suc n) = do {
     k \<leftarrow> add64 frame i;
     v \<leftarrow> idx fo (unat k);
     check (v = ORDER_NONE);
     assert_block_unused_loop fo frame (i + 1) n }"

definition assert_block_unused :: "Pmm \<Rightarrow> u64 \<Rightarrow> nat \<Rightarrow> unit option" where
  "assert_block_unused p frame order = do {
     pages \<leftarrow> shl64 1 order;
     assert_block_unused_loop (frame_order p) frame 0 (unat pages) }"

definition list_push :: "mem \<Rightarrow> Pmm \<Rightarrow> u64 \<Rightarrow> nat \<Rightarrow> (mem \<times> Pmm) option" where
  "list_push m p frame order = do {
     check (frame < total_frames p);
     pages \<leftarrow> shl64 1 order;
     e \<leftarrow> add64 frame pages;
     check (e \<le> total_frames p);
     assert_block_unused p frame order;
     block \<leftarrow> frame_to_block p frame;
     head \<leftarrow> idx (free_lists p) order;
     let m = set_prev m block None;
     let m = set_next m block head;
     let m = (case head of Some h \<Rightarrow> set_prev m h (Some block) | None \<Rightarrow> m);
     fl \<leftarrow> idx_set (free_lists p) order (Some block);
     p \<leftarrow> set_block_order (p\<lparr>free_lists := fl\<rparr>) frame order (of_nat order);
     Some (m, p) }"

definition list_remove :: "mem \<Rightarrow> Pmm \<Rightarrow> u64 \<Rightarrow> nat \<Rightarrow> (mem \<times> Pmm) option" where
  "list_remove m p frame order = do {
     check (frame < total_frames p);
     fo \<leftarrow> idx (frame_order p) (unat frame);
     check (fo = of_nat order);
     block \<leftarrow> frame_to_block p frame;
     let pr = prev (free_block m block);
     let nx = nxt (free_block m block);
     (m, p) \<leftarrow> (case pr of
        Some q \<Rightarrow> Some (set_next m q nx, p)
      | None \<Rightarrow> do { fl \<leftarrow> idx_set (free_lists p) order nx; Some (m, p\<lparr>free_lists := fl\<rparr>) });
     let m = (case nx of Some n \<Rightarrow> set_prev m n pr | None \<Rightarrow> m);
     p \<leftarrow> set_block_order p frame order ORDER_NONE;
     Some (m, p) }"

definition free_frames_count :: "Pmm \<Rightarrow> u64" where
  "free_frames_count p = free_frames p"

text \<open>The inner loop of \<open>alloc_pages\<close>: split surplus halves down to the requested order.\<close>

primrec alloc_split :: "mem \<Rightarrow> Pmm \<Rightarrow> u64 \<Rightarrow> nat \<Rightarrow> nat \<Rightarrow> (mem \<times> Pmm) option" where
  "alloc_split m p frame order 0 = Some (m, p)"
| "alloc_split m p frame order (Suc o') =
     (if Suc o' > order then do {
        half \<leftarrow> shl64 1 o';
        buddy \<leftarrow> add64 frame half;
        (m, p) \<leftarrow> list_push m p buddy o';
        alloc_split m p frame order o' }
      else Some (m, p))"

text \<open>The outer loop of \<open>alloc_pages\<close>: the first non-empty list from \<open>current\<close> upwards.\<close>

function alloc_search :: "mem \<Rightarrow> Pmm \<Rightarrow> nat \<Rightarrow> nat \<Rightarrow> (u64 option \<times> mem \<times> Pmm) option" where
  "alloc_search m p order current =
     (if current \<le> MAX_ORDER then do {
        entry \<leftarrow> idx (free_lists p) current;
        (case entry of
          Some head \<Rightarrow> do {
            frame \<leftarrow> block_to_frame p head;
            (m, p) \<leftarrow> list_remove m p frame current;
            (m, p) \<leftarrow> alloc_split m p frame order current;
            pages \<leftarrow> shl64 1 order;
            ff \<leftarrow> sub64 (free_frames p) pages;
            Some (Some (push_bit FRAME_SHIFT frame), m, p\<lparr>free_frames := ff\<rparr>) }
        | None \<Rightarrow> alloc_search m p order (current + 1)) }
      else Some (None, m, p))"
  by pat_completeness auto
termination
  by (relation "measure (\<lambda>(m, p, order, current). 12 - current)") auto

definition alloc_pages :: "mem \<Rightarrow> Pmm \<Rightarrow> nat \<Rightarrow> (u64 option \<times> mem \<times> Pmm) option" where
  "alloc_pages m p order = do {
     check (order \<le> MAX_ORDER);
     alloc_search m p order order }"

text \<open>The merge loop of \<open>free_pages\<close>; it ends with the block to push and its order.\<close>

function free_merge :: "mem \<Rightarrow> Pmm \<Rightarrow> u64 \<Rightarrow> nat \<Rightarrow> (mem \<times> Pmm \<times> u64 \<times> nat) option" where
  "free_merge m p frame ord =
     (if ord < MAX_ORDER then do {
        half \<leftarrow> shl64 1 ord;
        let buddy = frame XOR half;
        stop \<leftarrow> (if buddy \<ge> total_frames p then Some True
                 else do { v \<leftarrow> idx (frame_order p) (unat buddy); Some (v \<noteq> of_nat ord) });
        (if stop then Some (m, p, frame, ord)
         else do {
           (m, p) \<leftarrow> list_remove m p buddy ord;
           free_merge m p (frame AND NOT half) (ord + 1) }) }
      else Some (m, p, frame, ord))"
  by pat_completeness auto
termination
  by (relation "measure (\<lambda>(m, p, frame, ord). 11 - ord)") auto

definition free_pages :: "mem \<Rightarrow> Pmm \<Rightarrow> u64 \<Rightarrow> nat \<Rightarrow> (mem \<times> Pmm) option" where
  "free_pages m p addr order = do {
     check (order \<le> MAX_ORDER);
     frame \<leftarrow> frame_index addr;
     pages \<leftarrow> shl64 1 order;
     e \<leftarrow> add64 frame pages;
     check (e \<le> total_frames p);
     check (is_multiple_of frame pages);
     v \<leftarrow> idx (frame_order p) (unat frame);
     check (v = ORDER_NONE);
     assert_block_unused p frame order;
     ff \<leftarrow> add64 (free_frames p) pages;
     (m, p, frame, ord) \<leftarrow> free_merge m (p\<lparr>free_frames := ff\<rparr>) frame order;
     list_push m p frame ord }"

definition range_order :: "u64 \<Rightarrow> u64 \<Rightarrow> nat" where
  "range_order start count =
     (let align_order = (if start = 0 then MAX_ORDER else trailing_zeros start);
          size_order = 63 - leading_zeros count
      in min (min align_order size_order) MAX_ORDER)"

function add_range :: "mem \<Rightarrow> Pmm \<Rightarrow> u64 \<Rightarrow> u64 \<Rightarrow> (mem \<times> Pmm) option" where
  "add_range m p start count =
     (if count > 0 then do {
        let order = range_order start count;
        (m, p) \<leftarrow> free_pages m p (push_bit FRAME_SHIFT start) order;
        block \<leftarrow> shl64 1 order;
        start \<leftarrow> add64 start block;
        count \<leftarrow> sub64 count block;
        add_range m p start count }
      else Some (m, p))"
  by pat_completeness auto
termination
proof (relation "measure (\<lambda>(m, p, start, count). unat count)", goal_cases)
  case (2 m p start count order mp m' p' block start' count')
  then have "order < 64" by (auto simp: range_order_def Let_def)
  with 2 have "unat block \<noteq> 0" by auto
  moreover from 2 have "unat count' = unat count - unat block" "unat block \<le> unat count"
    using unat_sub64 by blast+
  ultimately show ?case by simp
qed simp

declare alloc_search.simps [simp del] free_merge.simps [simp del] add_range.simps [simp del]

section \<open>The global allocator\<close>

text \<open>
  The part of the kernel state these functions touch: the memory and \<open>static PMM\<close>.
  The other components extend the record.  \<open>PMM.lock()\<close> serialises the calls.
\<close>

record kernel =
  kmem :: mem
  PMM :: "Pmm option"

definition pmm_install :: "Pmm \<Rightarrow> 'a kernel_scheme \<Rightarrow> 'a kernel_scheme option" where
  "pmm_install p s = do { check (PMM s = None); Some (s\<lparr>PMM := Some p\<rparr>) }"

definition pmm_alloc_pages :: "nat \<Rightarrow> 'a kernel_scheme \<Rightarrow> (u64 option \<times> 'a kernel_scheme) option" where
  "pmm_alloc_pages order s = do {
     p \<leftarrow> PMM s;
     (r, m, p) \<leftarrow> alloc_pages (kmem s) p order;
     Some (r, s\<lparr>kmem := m, PMM := Some p\<rparr>) }"

definition pmm_free_pages :: "u64 \<Rightarrow> nat \<Rightarrow> 'a kernel_scheme \<Rightarrow> 'a kernel_scheme option" where
  "pmm_free_pages addr order s = do {
     p \<leftarrow> PMM s;
     (m, p) \<leftarrow> free_pages (kmem s) p addr order;
     Some (s\<lparr>kmem := m, PMM := Some p\<rparr>) }"

definition pmm_alloc_frame :: "'a kernel_scheme \<Rightarrow> (u64 option \<times> 'a kernel_scheme) option" where
  "pmm_alloc_frame s = do {
     p \<leftarrow> PMM s;
     (r, m, p) \<leftarrow> alloc_pages (kmem s) p 0;
     Some (r, s\<lparr>kmem := m, PMM := Some p\<rparr>) }"

definition pmm_free_frame :: "u64 \<Rightarrow> 'a kernel_scheme \<Rightarrow> 'a kernel_scheme option" where
  "pmm_free_frame addr s = do {
     p \<leftarrow> PMM s;
     (m, p) \<leftarrow> free_pages (kmem s) p addr 0;
     Some (s\<lparr>kmem := m, PMM := Some p\<rparr>) }"

definition pmm_stats :: "'a kernel_scheme \<Rightarrow> (u64 \<times> u64) option" where
  "pmm_stats s = do { p \<leftarrow> PMM s; Some (free_frames p, total_frames p) }"

text \<open>
  An entry of the boot loader's memory map (the \<open>limine\<close> crate): \<open>base\<close>, \<open>length\<close> and
  \<open>type_\<close>.  The type codes the crate defines are parameters of the functions that compare
  against them.
\<close>

record Entry =
  entry_base :: u64
  entry_length :: u64
  entry_type :: u64

primrec reclaim_loop ::
    "u64 \<Rightarrow> mem \<Rightarrow> Pmm \<Rightarrow> u64 \<Rightarrow> Entry list \<Rightarrow> (mem \<times> Pmm \<times> u64) option" where
  "reclaim_loop reclaimable m p reclaimed [] = Some (m, p, reclaimed)"
| "reclaim_loop reclaimable m p reclaimed (e # es) =
     (if entry_type e \<noteq> reclaimable then reclaim_loop reclaimable m p reclaimed es
      else do {
        let first = drop_bit FRAME_SHIFT (entry_base e);
        let count = drop_bit FRAME_SHIFT (entry_length e);
        (m, p) \<leftarrow> add_range m p first count;
        reclaimed \<leftarrow> add64 reclaimed count;
        reclaim_loop reclaimable m p reclaimed es })"

definition reclaim_bootloader :: "u64 \<Rightarrow> Entry list \<Rightarrow> 'a kernel_scheme \<Rightarrow> 'a kernel_scheme option" where
  "reclaim_bootloader reclaimable memmap s = do {
     p \<leftarrow> PMM s;
     (m, p, reclaimed) \<leftarrow> reclaim_loop reclaimable (kmem s) p 0 memmap;
     mul64 reclaimed FRAME_SIZE;
     Some (s\<lparr>kmem := m, PMM := Some p\<rparr>) }"

end
