(* ===== verification/X86.thy ===== *)
theory X86
  imports Prelude
begin

text \<open>
  The items of the \<open>x86\<close> crate the kernel's paging code uses.  The crate is not part of
  the repository, so its constants and functions are a parameter of the model: a record
  \<open>x86\<close> that the definitions take as an argument.  \<open>x86_ok\<close> collects what the code relies
  on, the documented paging format of the architecture; \<open>amd64\<close> is an instance.
\<close>

definition ADDRESS_MASK :: u64 where "ADDRESS_MASK = 0x000FFFFFFFFFF000"

record x86 =
  BASE_PAGE_SIZE :: u64
  LARGE_PAGE_SIZE :: u64
  HUGE_PAGE_SIZE :: u64
  PAGE_SIZE_ENTRIES :: nat
  pml4_index :: "u64 \<Rightarrow> nat"
  pdpt_index :: "u64 \<Rightarrow> nat"
  pd_index :: "u64 \<Rightarrow> nat"
  pt_index :: "u64 \<Rightarrow> nat"
  PML4Entry_new :: "u64 \<Rightarrow> u64 \<Rightarrow> u64 option"
  PDPTEntry_new :: "u64 \<Rightarrow> u64 \<Rightarrow> u64 option"
  PDEntry_new :: "u64 \<Rightarrow> u64 \<Rightarrow> u64 option"
  PTEntry_new :: "u64 \<Rightarrow> u64 \<Rightarrow> u64 option"
  PML4Entry_address :: "u64 \<Rightarrow> u64"
  PDPTEntry_address :: "u64 \<Rightarrow> u64"
  PDEntry_address :: "u64 \<Rightarrow> u64"
  PTEntry_address :: "u64 \<Rightarrow> u64"
  PML4Entry_is_present :: "u64 \<Rightarrow> bool"
  PDPTEntry_is_present :: "u64 \<Rightarrow> bool"
  PDEntry_is_present :: "u64 \<Rightarrow> bool"
  PTEntry_is_present :: "u64 \<Rightarrow> bool"
  PDPTEntry_is_page :: "u64 \<Rightarrow> bool"
  PDEntry_is_page :: "u64 \<Rightarrow> bool"
  PTEntry_flags :: "u64 \<Rightarrow> u64"
  PTFlags_from_bits_truncate :: "u64 \<Rightarrow> u64"
  PDPTFlags_from_bits_truncate :: "u64 \<Rightarrow> u64"
  PDFlags_from_bits_truncate :: "u64 \<Rightarrow> u64"
  FLAG_P :: u64
  FLAG_RW :: u64
  FLAG_US :: u64
  FLAG_PWT :: u64
  FLAG_PCD :: u64
  FLAG_PS :: u64
  FLAG_G :: u64
  FLAG_XD :: u64

text \<open>
  The nine index bits of each level; sizes of the three kinds of page; an entry is the
  address of a frame and flag bits outside the address field; bit 0 is the present bit
  and bit 7 the page bit.  The constructors \<open>new\<close> assert that the address is the address
  of a frame, a multiple of 4096 below \<open>2^52\<close>, and panic on any other.  \<open>from_bits_truncate\<close> drops
  bits that are no flags and keeps those the kernel names; the flags of the last level lie
  outside the address field (those of larger pages need not: their PAT flag is bit 12).
\<close>

definition x86_sizes :: "x86 \<Rightarrow> bool" where
  "x86_sizes X \<longleftrightarrow> BASE_PAGE_SIZE X = 2 ^ 12 \<and> LARGE_PAGE_SIZE X = 2 ^ 21 \<and> HUGE_PAGE_SIZE X = 2 ^ 30 \<and>
     PAGE_SIZE_ENTRIES X = 512"

definition level_index :: "nat \<Rightarrow> u64 \<Rightarrow> nat" where
  "level_index l v = unat (drop_bit (12 + 9 * l) v) mod 512"

definition x86_indices :: "x86 \<Rightarrow> bool" where
  "x86_indices X \<longleftrightarrow> pt_index X = level_index 0 \<and> pd_index X = level_index 1 \<and>
     pdpt_index X = level_index 2 \<and> pml4_index X = level_index 3"

definition entry_new_ok :: "(u64 \<Rightarrow> u64 \<Rightarrow> u64 option) \<Rightarrow> bool" where
  "entry_new_ok new \<longleftrightarrow> (\<forall>pa fl. fl AND ADDRESS_MASK = 0 \<longrightarrow>
     new pa fl = (if pa AND ADDRESS_MASK = pa then Some (pa OR fl) else None))"

definition x86_entries :: "x86 \<Rightarrow> bool" where
  "x86_entries X \<longleftrightarrow>
     (\<forall>new \<in> {PML4Entry_new X, PDPTEntry_new X, PDEntry_new X, PTEntry_new X}. entry_new_ok new) \<and>
     (\<forall>addr \<in> {PML4Entry_address X, PDPTEntry_address X, PDEntry_address X, PTEntry_address X}.
        addr = (\<lambda>e. e AND ADDRESS_MASK)) \<and>
     (\<forall>pres \<in> {PML4Entry_is_present X, PDPTEntry_is_present X, PDEntry_is_present X, PTEntry_is_present X}.
        pres = (\<lambda>e. bit e 0)) \<and>
     (\<forall>page \<in> {PDPTEntry_is_page X, PDEntry_is_page X}. page = (\<lambda>e. bit e 7)) \<and>
     PTEntry_flags X = PTFlags_from_bits_truncate X"

definition NAMED_FLAGS :: u64 where "NAMED_FLAGS = 0x800000000000011F"

definition trunc_ok :: "(u64 \<Rightarrow> u64) \<Rightarrow> bool" where
  "trunc_ok trunc \<longleftrightarrow> (\<exists>all. trunc = (\<lambda>w. w AND all) \<and> NAMED_FLAGS AND all = NAMED_FLAGS)"

definition x86_flags :: "x86 \<Rightarrow> bool" where
  "x86_flags X \<longleftrightarrow> FLAG_P X = 1 \<and> FLAG_RW X = 2 \<and> FLAG_US X = 4 \<and> FLAG_PWT X = 8 \<and> FLAG_PCD X = 16 \<and>
     FLAG_PS X = 128 \<and> FLAG_G X = 256 \<and> FLAG_XD X = 2 ^ 63 \<and>
     trunc_ok (PTFlags_from_bits_truncate X) \<and> trunc_ok (PDPTFlags_from_bits_truncate X) \<and>
     trunc_ok (PDFlags_from_bits_truncate X) \<and> PTFlags_from_bits_truncate X ADDRESS_MASK = 0"

definition x86_ok :: "x86 \<Rightarrow> bool" where
  "x86_ok X \<longleftrightarrow> x86_sizes X \<and> x86_indices X \<and> x86_entries X \<and> x86_flags X"

lemma x86_simps:
  assumes "x86_ok X"
  shows "BASE_PAGE_SIZE X = 2 ^ 12" "LARGE_PAGE_SIZE X = 2 ^ 21" "HUGE_PAGE_SIZE X = 2 ^ 30"
    "PAGE_SIZE_ENTRIES X = 512"
    "pt_index X = level_index 0" "pd_index X = level_index 1" "pdpt_index X = level_index 2"
    "pml4_index X = level_index 3"
    "PML4Entry_address X = (\<lambda>e. e AND ADDRESS_MASK)" "PDPTEntry_address X = (\<lambda>e. e AND ADDRESS_MASK)"
    "PDEntry_address X = (\<lambda>e. e AND ADDRESS_MASK)" "PTEntry_address X = (\<lambda>e. e AND ADDRESS_MASK)"
    "PML4Entry_is_present X = (\<lambda>e. bit e 0)" "PDPTEntry_is_present X = (\<lambda>e. bit e 0)"
    "PDEntry_is_present X = (\<lambda>e. bit e 0)" "PTEntry_is_present X = (\<lambda>e. bit e 0)"
    "PDPTEntry_is_page X = (\<lambda>e. bit e 7)" "PDEntry_is_page X = (\<lambda>e. bit e 7)"
    "FLAG_P X = 1" "FLAG_RW X = 2" "FLAG_US X = 4" "FLAG_PWT X = 8" "FLAG_PCD X = 16"
    "FLAG_PS X = 128" "FLAG_G X = 256" "FLAG_XD X = 2 ^ 63"
    "PTEntry_flags X = PTFlags_from_bits_truncate X"
  using assms by (simp_all add: x86_ok_def x86_sizes_def x86_indices_def x86_entries_def x86_flags_def)

lemma x86_new:
  assumes "x86_ok X" "pa AND ADDRESS_MASK = pa" "fl AND ADDRESS_MASK = 0"
  shows "PML4Entry_new X pa fl = Some (pa OR fl)" "PDPTEntry_new X pa fl = Some (pa OR fl)"
    "PDEntry_new X pa fl = Some (pa OR fl)" "PTEntry_new X pa fl = Some (pa OR fl)"
  using assms by (simp_all add: x86_ok_def x86_entries_def entry_new_ok_def)

lemma x86_new_panics:
  assumes "x86_ok X" "pa AND ADDRESS_MASK \<noteq> pa" "fl AND ADDRESS_MASK = 0"
  shows "PML4Entry_new X pa fl = None" "PDPTEntry_new X pa fl = None" "PDEntry_new X pa fl = None" "PTEntry_new X pa fl = None"
  using assms by (simp_all add: x86_ok_def x86_entries_def entry_new_ok_def)

lemma level_index_less [simp]: "level_index l v < 512"
  by (simp add: level_index_def)

section \<open>An instance\<close>

definition amd64_new :: "u64 \<Rightarrow> u64 \<Rightarrow> u64 option" where
  "amd64_new pa fl = (if pa AND ADDRESS_MASK = pa then Some (pa OR fl) else None)"

definition amd64_flags :: u64 where
  "amd64_flags = 0x800000000000017F"

definition amd64 :: x86 where
  "amd64 = \<lparr>BASE_PAGE_SIZE = 0x1000, LARGE_PAGE_SIZE = 0x200000, HUGE_PAGE_SIZE = 0x40000000,
     PAGE_SIZE_ENTRIES = 512,
     pml4_index = level_index 3, pdpt_index = level_index 2, pd_index = level_index 1, pt_index = level_index 0,
     PML4Entry_new = amd64_new, PDPTEntry_new = amd64_new, PDEntry_new = amd64_new, PTEntry_new = amd64_new,
     PML4Entry_address = (\<lambda>e. e AND ADDRESS_MASK), PDPTEntry_address = (\<lambda>e. e AND ADDRESS_MASK),
     PDEntry_address = (\<lambda>e. e AND ADDRESS_MASK), PTEntry_address = (\<lambda>e. e AND ADDRESS_MASK),
     PML4Entry_is_present = (\<lambda>e. bit e 0), PDPTEntry_is_present = (\<lambda>e. bit e 0),
     PDEntry_is_present = (\<lambda>e. bit e 0), PTEntry_is_present = (\<lambda>e. bit e 0),
     PDPTEntry_is_page = (\<lambda>e. bit e 7), PDEntry_is_page = (\<lambda>e. bit e 7),
     PTEntry_flags = (\<lambda>e. e AND amd64_flags),
     PTFlags_from_bits_truncate = (\<lambda>e. e AND amd64_flags),
     PDPTFlags_from_bits_truncate = (\<lambda>e. e AND (amd64_flags OR 0x1080)),
     PDFlags_from_bits_truncate = (\<lambda>e. e AND (amd64_flags OR 0x1080)),
     FLAG_P = 1, FLAG_RW = 2, FLAG_US = 4, FLAG_PWT = 8, FLAG_PCD = 16, FLAG_PS = 128, FLAG_G = 256,
     FLAG_XD = 0x8000000000000000\<rparr>"

lemma amd64_trunc_ok:
  "trunc_ok (\<lambda>w. w AND amd64_flags)" "trunc_ok (\<lambda>w. w AND (amd64_flags OR 0x1080))"
  "ADDRESS_MASK AND amd64_flags = 0"
proof -
  have "NAMED_FLAGS AND amd64_flags = NAMED_FLAGS" "NAMED_FLAGS AND (amd64_flags OR 0x1080) = NAMED_FLAGS"
    by (simp_all add: amd64_flags_def NAMED_FLAGS_def)
  then show "trunc_ok (\<lambda>w. w AND amd64_flags)" "trunc_ok (\<lambda>w. w AND (amd64_flags OR 0x1080))"
    unfolding trunc_ok_def by blast+
  show "ADDRESS_MASK AND amd64_flags = 0" by (simp add: amd64_flags_def ADDRESS_MASK_def)
qed

lemma amd64_ok: "x86_ok amd64"
proof -
  have "x86_entries amd64"
    by (simp add: x86_entries_def amd64_def entry_new_ok_def amd64_new_def)
  moreover have "x86_flags amd64"
    using amd64_trunc_ok by (simp add: x86_flags_def amd64_def)
  ultimately show ?thesis by (simp add: x86_ok_def x86_sizes_def x86_indices_def amd64_def)
qed

end
