(* ===== verification/Vmm.thy ===== *)
theory Vmm
  imports Pmm X86
begin

text \<open>
  The virtual memory manager, kernel/src/mm/vmm.rs: translation, mapping and unmapping
  in the four-level page tables, reclaiming of empty tables, and the copy of the boot
  loader's tables.  Tables live in \<open>kmem\<close> and their frames come from the physical
  allocator, so every operation passes the whole kernel state on.
\<close>

section \<open>Data\<close>

datatype PageSize = Base | Large | Huge

fun PageSize_bytes :: "x86 \<Rightarrow> PageSize \<Rightarrow> u64" where
  "PageSize_bytes X Base = BASE_PAGE_SIZE X"
| "PageSize_bytes X Large = LARGE_PAGE_SIZE X"
| "PageSize_bytes X Huge = HUGE_PAGE_SIZE X"

datatype MapError = AlreadyMapped | OutOfMemory | NonCanonical | Misaligned

datatype UnmapError = NotMapped | UnmapNonCanonical | UnmapMisaligned

datatype VmmError = OutOfFrames

record Vmm =
  top_level :: u64

text \<open>
  The statics \<open>HHDM_OFFSET\<close> and \<open>VMM\<close>, the control register \<open>CR3\<close>, and the invalidations
  issued to the translation look-aside buffer, the oldest first.
\<close>

datatype tlb_op = Flush u64 | FlushAll

record vkernel = kernel +
  HHDM_OFFSET :: u64
  VMM :: "Vmm option"
  CR3 :: u64
  tlb :: "tlb_op list"

section \<open>Memory access\<close>

definition store :: "u64 \<Rightarrow> u64 \<Rightarrow> 'a kernel_scheme \<Rightarrow> 'a kernel_scheme" where
  "store a w s = s\<lparr>kmem := (kmem s)(a := w)\<rparr>"

definition tlb_flush :: "u64 \<Rightarrow> 'a vkernel_scheme \<Rightarrow> 'a vkernel_scheme" where
  "tlb_flush v s = s\<lparr>tlb := tlb s @ [Flush v]\<rparr>"

definition tlb_flush_all :: "'a vkernel_scheme \<Rightarrow> 'a vkernel_scheme" where
  "tlb_flush_all s = s\<lparr>tlb := tlb s @ [FlushAll]\<rparr>"

definition is_canonical :: "u64 \<Rightarrow> bool" where
  "is_canonical virt = (let hi = drop_bit 47 virt in hi = 0 \<or> hi = 0x1ffff)"

definition table_mut :: "u64 \<Rightarrow> u64 \<Rightarrow> u64 option" where
  "table_mut phys hhdm = add64 phys hhdm"

text \<open>The address of entry \<open>i\<close> of a table, with the bounds check of the array type.\<close>

definition entry_slot :: "x86 \<Rightarrow> u64 \<Rightarrow> nat \<Rightarrow> u64 option" where
  "entry_slot X table i = do { check (i < PAGE_SIZE_ENTRIES X); Some (table + 8 * word_of_nat i) }"

definition zero_frame :: "x86 \<Rightarrow> u64 \<Rightarrow> u64 \<Rightarrow> 'a kernel_scheme \<Rightarrow> 'a kernel_scheme option" where
  "zero_frame X phys hhdm s = do {
     ptr \<leftarrow> add64 phys hhdm;
     Some (s\<lparr>kmem := (\<lambda>a. if a - ptr < BASE_PAGE_SIZE X then 0 else kmem s a)\<rparr>) }"

definition pml4_parent :: "x86 \<Rightarrow> u64" where
  "pml4_parent X = FLAG_P X OR FLAG_RW X OR FLAG_US X"

definition pdpt_parent :: "x86 \<Rightarrow> u64" where
  "pdpt_parent X = FLAG_P X OR FLAG_RW X OR FLAG_US X"

definition pd_parent :: "x86 \<Rightarrow> u64" where
  "pd_parent X = FLAG_P X OR FLAG_RW X OR FLAG_US X"

definition pdpt_leaf :: "x86 \<Rightarrow> u64 \<Rightarrow> u64" where
  "pdpt_leaf X leaf =
     (let common = leaf AND (FLAG_RW X OR FLAG_US X OR FLAG_PWT X OR FLAG_PCD X OR FLAG_G X OR FLAG_XD X)
      in PDPTFlags_from_bits_truncate X common OR FLAG_P X OR FLAG_PS X)"

definition pd_leaf :: "x86 \<Rightarrow> u64 \<Rightarrow> u64" where
  "pd_leaf X leaf =
     (let common = leaf AND (FLAG_RW X OR FLAG_US X OR FLAG_PWT X OR FLAG_PCD X OR FLAG_G X OR FLAG_XD X)
      in PDFlags_from_bits_truncate X common OR FLAG_P X OR FLAG_PS X)"

definition is_empty :: "x86 \<Rightarrow> u64 \<Rightarrow> u64 \<Rightarrow> mem \<Rightarrow> bool option" where
  "is_empty X phys hhdm m = do {
     entries \<leftarrow> table_mut phys hhdm;
     Some (\<forall>i \<in> set [0..<PAGE_SIZE_ENTRIES X]. m (entries + 8 * word_of_nat i) AND 1 = 0) }"

section \<open>Translation\<close>

definition Vmm_new :: "u64 \<Rightarrow> Vmm" where
  "Vmm_new t = \<lparr>top_level = t\<rparr>"

definition Vmm_translate :: "x86 \<Rightarrow> Vmm \<Rightarrow> u64 \<Rightarrow> 'a vkernel_scheme \<Rightarrow> (u64 \<times> u64) option option" where
  "Vmm_translate X v virt s =
     (if \<not> is_canonical virt then Some None
      else do {
        let hhdm = HHDM_OFFSET s;
        pml4 \<leftarrow> table_mut (top_level v) hhdm;
        a \<leftarrow> entry_slot X pml4 (pml4_index X virt);
        let pml4e = kmem s a;
        if \<not> PML4Entry_is_present X pml4e then Some None
        else do {
          let pdpt_phys = PML4Entry_address X pml4e;
          pdpt \<leftarrow> table_mut pdpt_phys hhdm;
          a \<leftarrow> entry_slot X pdpt (pdpt_index X virt);
          let pdpte = kmem s a;
          if \<not> PDPTEntry_is_present X pdpte then Some None
          else if PDPTEntry_is_page X pdpte then do {
            mask \<leftarrow> sub64 (HUGE_PAGE_SIZE X) 1;
            phys \<leftarrow> add64 (PDPTEntry_address X pdpte) (virt AND mask);
            Some (Some (phys, PTFlags_from_bits_truncate X pdpte)) }
          else do {
            let pd_phys = PDPTEntry_address X pdpte;
            pd \<leftarrow> table_mut pd_phys hhdm;
            a \<leftarrow> entry_slot X pd (pd_index X virt);
            let pde = kmem s a;
            if \<not> PDEntry_is_present X pde then Some None
            else if PDEntry_is_page X pde then do {
              mask \<leftarrow> sub64 (LARGE_PAGE_SIZE X) 1;
              phys \<leftarrow> add64 (PDEntry_address X pde) (virt AND mask);
              Some (Some (phys, PTFlags_from_bits_truncate X pde)) }
            else do {
              let pt_phys = PDEntry_address X pde;
              pt \<leftarrow> table_mut pt_phys hhdm;
              a \<leftarrow> entry_slot X pt (pt_index X virt);
              let pte = kmem s a;
              if \<not> PTEntry_is_present X pte then Some None
              else do {
                mask \<leftarrow> sub64 (BASE_PAGE_SIZE X) 1;
                phys \<leftarrow> add64 (PTEntry_address X pte) (virt AND mask);
                Some (Some (phys, PTEntry_flags X pte)) } } } } })"

section \<open>Mapping\<close>

text \<open>
  \<open>map\<close> in three pieces, one per table level below the top: each piece receives the
  table found or created so far and, for the rollback, the slots above it and whether
  their tables are new.
\<close>

definition map_in_pt ::
    "x86 \<Rightarrow> u64 \<Rightarrow> u64 \<Rightarrow> u64 \<Rightarrow> u64 \<Rightarrow> u64 \<Rightarrow> 'a vkernel_scheme \<Rightarrow>
     ((MapError + unit) \<times> 'a vkernel_scheme) option" where
  "map_in_pt X hhdm virt phys flags pt_phys s = do {
     pt \<leftarrow> table_mut pt_phys hhdm;
     pt_slot \<leftarrow> entry_slot X pt (pt_index X virt);
     if PTEntry_is_present X (kmem s pt_slot) then Some (Inl AlreadyMapped, s)
     else do {
       e \<leftarrow> PTEntry_new X phys (flags OR FLAG_P X);
       Some (Inr (), tlb_flush virt (store pt_slot e s)) } }"

definition map_in_pd ::
    "x86 \<Rightarrow> u64 \<Rightarrow> u64 \<Rightarrow> u64 \<Rightarrow> u64 \<Rightarrow> PageSize \<Rightarrow> u64 \<Rightarrow> bool \<Rightarrow> u64 \<Rightarrow> u64 \<Rightarrow> bool \<Rightarrow> u64 \<Rightarrow>
     'a vkernel_scheme \<Rightarrow> ((MapError + unit) \<times> 'a vkernel_scheme) option" where
  "map_in_pd X hhdm virt phys flags sz pml4_slot new_pdpt pdpt_phys pdpt_slot new_pd pd_phys s = do {
     pd \<leftarrow> table_mut pd_phys hhdm;
     pd_slot \<leftarrow> entry_slot X pd (pd_index X virt);
     if sz = Large then
       (if PDEntry_is_present X (kmem s pd_slot) then Some (Inl AlreadyMapped, s)
        else do {
          e \<leftarrow> PDEntry_new X phys (pd_leaf X flags);
          Some (Inr (), tlb_flush virt (store pd_slot e s)) })
     else if PDEntry_is_present X (kmem s pd_slot) \<and> PDEntry_is_page X (kmem s pd_slot)
       then Some (Inl AlreadyMapped, s)
     else if PDEntry_is_present X (kmem s pd_slot)
       then map_in_pt X hhdm virt phys flags (PDEntry_address X (kmem s pd_slot)) s
     else do {
       (r, s) \<leftarrow> pmm_alloc_frame s;
       (case r of
         None \<Rightarrow> do {
           s \<leftarrow> (if new_pd then pmm_free_frame pd_phys (store pdpt_slot 0 s) else Some s);
           s \<leftarrow> (if new_pdpt then pmm_free_frame pdpt_phys (store pml4_slot 0 s) else Some s);
           Some (Inl OutOfMemory, s) }
       | Some frame \<Rightarrow> do {
           s \<leftarrow> zero_frame X frame hhdm s;
           e \<leftarrow> PDEntry_new X frame (pd_parent X);
           map_in_pt X hhdm virt phys flags frame (store pd_slot e s) }) } }"

definition map_in_pdpt ::
    "x86 \<Rightarrow> u64 \<Rightarrow> u64 \<Rightarrow> u64 \<Rightarrow> u64 \<Rightarrow> PageSize \<Rightarrow> u64 \<Rightarrow> bool \<Rightarrow> u64 \<Rightarrow>
     'a vkernel_scheme \<Rightarrow> ((MapError + unit) \<times> 'a vkernel_scheme) option" where
  "map_in_pdpt X hhdm virt phys flags sz pml4_slot new_pdpt pdpt_phys s = do {
     pdpt \<leftarrow> table_mut pdpt_phys hhdm;
     pdpt_slot \<leftarrow> entry_slot X pdpt (pdpt_index X virt);
     if sz = Huge then
       (if PDPTEntry_is_present X (kmem s pdpt_slot) then Some (Inl AlreadyMapped, s)
        else do {
          e \<leftarrow> PDPTEntry_new X phys (pdpt_leaf X flags);
          Some (Inr (), tlb_flush virt (store pdpt_slot e s)) })
     else if PDPTEntry_is_present X (kmem s pdpt_slot) \<and> PDPTEntry_is_page X (kmem s pdpt_slot)
       then Some (Inl AlreadyMapped, s)
     else if PDPTEntry_is_present X (kmem s pdpt_slot)
       then map_in_pd X hhdm virt phys flags sz pml4_slot new_pdpt pdpt_phys pdpt_slot False
              (PDPTEntry_address X (kmem s pdpt_slot)) s
     else do {
       (r, s) \<leftarrow> pmm_alloc_frame s;
       (case r of
         None \<Rightarrow> do {
           s \<leftarrow> (if new_pdpt then pmm_free_frame pdpt_phys (store pml4_slot 0 s) else Some s);
           Some (Inl OutOfMemory, s) }
       | Some frame \<Rightarrow> do {
           s \<leftarrow> zero_frame X frame hhdm s;
           e \<leftarrow> PDPTEntry_new X frame (pdpt_parent X);
           map_in_pd X hhdm virt phys flags sz pml4_slot new_pdpt pdpt_phys pdpt_slot True frame
             (store pdpt_slot e s) }) } }"

definition Vmm_map ::
    "x86 \<Rightarrow> Vmm \<Rightarrow> u64 \<Rightarrow> u64 \<Rightarrow> u64 \<Rightarrow> PageSize \<Rightarrow> 'a vkernel_scheme \<Rightarrow>
     ((MapError + unit) \<times> 'a vkernel_scheme) option" where
  "Vmm_map X v virt phys flags sz s =
     (if \<not> is_canonical virt then Some (Inl NonCanonical, s)
      else let align = PageSize_bytes X sz in
      if \<not> is_multiple_of virt align \<or> \<not> is_multiple_of phys align then Some (Inl Misaligned, s)
      else do {
        let hhdm = HHDM_OFFSET s;
        pml4 \<leftarrow> table_mut (top_level v) hhdm;
        pml4_slot \<leftarrow> entry_slot X pml4 (pml4_index X virt);
        if PML4Entry_is_present X (kmem s pml4_slot)
        then map_in_pdpt X hhdm virt phys flags sz pml4_slot False (PML4Entry_address X (kmem s pml4_slot)) s
        else do {
          (r, s) \<leftarrow> pmm_alloc_frame s;
          (case r of
            None \<Rightarrow> Some (Inl OutOfMemory, s)
          | Some frame \<Rightarrow> do {
              s \<leftarrow> zero_frame X frame hhdm s;
              e \<leftarrow> PML4Entry_new X frame (pml4_parent X);
              map_in_pdpt X hhdm virt phys flags sz pml4_slot True frame (store pml4_slot e s) }) } })"

section \<open>Unmapping\<close>

definition reclaim_pt :: "x86 \<Rightarrow> u64 \<Rightarrow> u64 \<Rightarrow> u64 \<Rightarrow> 'a vkernel_scheme \<Rightarrow> 'a vkernel_scheme option" where
  "reclaim_pt X parent pt_phys hhdm s =
     (if PDEntry_is_page X (kmem s parent) then Some s
      else do {
        em \<leftarrow> is_empty X pt_phys hhdm (kmem s);
        if em then do {
          s \<leftarrow> pmm_free_frame pt_phys (store parent 0 s);
          Some (tlb_flush_all s) }
        else Some s })"

definition reclaim_pd :: "x86 \<Rightarrow> u64 \<Rightarrow> u64 \<Rightarrow> u64 \<Rightarrow> 'a vkernel_scheme \<Rightarrow> 'a vkernel_scheme option" where
  "reclaim_pd X parent pd_phys hhdm s =
     (if PDPTEntry_is_page X (kmem s parent) then Some s
      else do {
        em \<leftarrow> is_empty X pd_phys hhdm (kmem s);
        if em then do {
          s \<leftarrow> pmm_free_frame pd_phys (store parent 0 s);
          Some (tlb_flush_all s) }
        else Some s })"

definition reclaim_pdpt :: "x86 \<Rightarrow> u64 \<Rightarrow> u64 \<Rightarrow> u64 \<Rightarrow> 'a vkernel_scheme \<Rightarrow> 'a vkernel_scheme option" where
  "reclaim_pdpt X parent pdpt_phys hhdm s = do {
     em \<leftarrow> is_empty X pdpt_phys hhdm (kmem s);
     if em then do {
       s \<leftarrow> pmm_free_frame pdpt_phys (store parent 0 s);
       Some (tlb_flush_all s) }
     else Some s }"

text \<open>\<open>unmap\<close> in pieces, one per level; each receives the slots and tables above it.\<close>

definition unmap_in_pt ::
    "x86 \<Rightarrow> u64 \<Rightarrow> u64 \<Rightarrow> u64 \<Rightarrow> u64 \<Rightarrow> u64 \<Rightarrow> u64 \<Rightarrow> u64 \<Rightarrow> u64 \<Rightarrow> 'a vkernel_scheme \<Rightarrow>
     ((UnmapError + unit) \<times> 'a vkernel_scheme) option" where
  "unmap_in_pt X hhdm virt pml4_slot pdpt_phys pdpt_slot pd_phys pd_slot pt_phys s = do {
     pt \<leftarrow> table_mut pt_phys hhdm;
     pt_slot \<leftarrow> entry_slot X pt (pt_index X virt);
     if \<not> PTEntry_is_present X (kmem s pt_slot) then Some (Inl NotMapped, s)
     else do {
       let s = tlb_flush virt (store pt_slot 0 s);
       s \<leftarrow> reclaim_pt X pd_slot pt_phys hhdm s;
       s \<leftarrow> reclaim_pd X pdpt_slot pd_phys hhdm s;
       s \<leftarrow> reclaim_pdpt X pml4_slot pdpt_phys hhdm s;
       Some (Inr (), s) } }"

definition unmap_in_pd ::
    "x86 \<Rightarrow> u64 \<Rightarrow> u64 \<Rightarrow> PageSize \<Rightarrow> u64 \<Rightarrow> u64 \<Rightarrow> u64 \<Rightarrow> u64 \<Rightarrow> 'a vkernel_scheme \<Rightarrow>
     ((UnmapError + unit) \<times> 'a vkernel_scheme) option" where
  "unmap_in_pd X hhdm virt sz pml4_slot pdpt_phys pdpt_slot pd_phys s = do {
     pd \<leftarrow> table_mut pd_phys hhdm;
     pd_slot \<leftarrow> entry_slot X pd (pd_index X virt);
     if sz = Large then
       (if \<not> PDEntry_is_present X (kmem s pd_slot) \<or> \<not> PDEntry_is_page X (kmem s pd_slot)
        then Some (Inl NotMapped, s)
        else do {
          let s = tlb_flush virt (store pd_slot 0 s);
          s \<leftarrow> reclaim_pd X pdpt_slot pd_phys hhdm s;
          s \<leftarrow> reclaim_pdpt X pml4_slot pdpt_phys hhdm s;
          Some (Inr (), s) })
     else if \<not> PDEntry_is_present X (kmem s pd_slot) \<or> PDEntry_is_page X (kmem s pd_slot)
       then Some (Inl NotMapped, s)
     else unmap_in_pt X hhdm virt pml4_slot pdpt_phys pdpt_slot pd_phys pd_slot
            (PDEntry_address X (kmem s pd_slot)) s }"

definition unmap_in_pdpt ::
    "x86 \<Rightarrow> u64 \<Rightarrow> u64 \<Rightarrow> PageSize \<Rightarrow> u64 \<Rightarrow> u64 \<Rightarrow> 'a vkernel_scheme \<Rightarrow>
     ((UnmapError + unit) \<times> 'a vkernel_scheme) option" where
  "unmap_in_pdpt X hhdm virt sz pml4_slot pdpt_phys s = do {
     pdpt \<leftarrow> table_mut pdpt_phys hhdm;
     pdpt_slot \<leftarrow> entry_slot X pdpt (pdpt_index X virt);
     if sz = Huge then
       (if \<not> PDPTEntry_is_present X (kmem s pdpt_slot) \<or> \<not> PDPTEntry_is_page X (kmem s pdpt_slot)
        then Some (Inl NotMapped, s)
        else do {
          let s = tlb_flush virt (store pdpt_slot 0 s);
          s \<leftarrow> reclaim_pdpt X pml4_slot pdpt_phys hhdm s;
          Some (Inr (), s) })
     else if \<not> PDPTEntry_is_present X (kmem s pdpt_slot) \<or> PDPTEntry_is_page X (kmem s pdpt_slot)
       then Some (Inl NotMapped, s)
     else unmap_in_pd X hhdm virt sz pml4_slot pdpt_phys pdpt_slot
            (PDPTEntry_address X (kmem s pdpt_slot)) s }"

definition Vmm_unmap ::
    "x86 \<Rightarrow> Vmm \<Rightarrow> u64 \<Rightarrow> PageSize \<Rightarrow> 'a vkernel_scheme \<Rightarrow>
     ((UnmapError + unit) \<times> 'a vkernel_scheme) option" where
  "Vmm_unmap X v virt sz s =
     (if \<not> is_canonical virt then Some (Inl UnmapNonCanonical, s)
      else if \<not> is_multiple_of virt (PageSize_bytes X sz) then Some (Inl UnmapMisaligned, s)
      else do {
        let hhdm = HHDM_OFFSET s;
        pml4 \<leftarrow> table_mut (top_level v) hhdm;
        pml4_slot \<leftarrow> entry_slot X pml4 (pml4_index X virt);
        if \<not> PML4Entry_is_present X (kmem s pml4_slot) then Some (Inl NotMapped, s)
        else unmap_in_pdpt X hhdm virt sz pml4_slot (PML4Entry_address X (kmem s pml4_slot)) s })"

section \<open>Ranges\<close>

text \<open>
  \<open>for j in 0..i\<close> of the rollback in \<open>map_range\<close>, with the result of each \<open>unmap\<close> dropped; the
  helpers take the loop variable and the number of iterations left.
\<close>

primrec map_range_undo ::
    "x86 \<Rightarrow> Vmm \<Rightarrow> u64 \<Rightarrow> PageSize \<Rightarrow> u64 \<Rightarrow> nat \<Rightarrow> 'a vkernel_scheme \<Rightarrow> 'a vkernel_scheme option" where
  "map_range_undo X v virt sz j 0 s = Some s"
| "map_range_undo X v virt sz j (Suc n) s = do {
     back \<leftarrow> mul64 j (PageSize_bytes X sz);
     a \<leftarrow> add64 virt back;
     (_, s) \<leftarrow> Vmm_unmap X v a sz s;
     map_range_undo X v virt sz (j + 1) n s }"

primrec map_range_loop ::
    "x86 \<Rightarrow> Vmm \<Rightarrow> u64 \<Rightarrow> u64 \<Rightarrow> u64 \<Rightarrow> PageSize \<Rightarrow> u64 \<Rightarrow> nat \<Rightarrow> 'a vkernel_scheme \<Rightarrow>
     ((MapError + unit) \<times> 'a vkernel_scheme) option" where
  "map_range_loop X v virt phys flags sz i 0 s = Some (Inr (), s)"
| "map_range_loop X v virt phys flags sz i (Suc n) s = do {
     step \<leftarrow> mul64 i (PageSize_bytes X sz);
     va \<leftarrow> add64 virt step;
     pa \<leftarrow> add64 phys step;
     (r, s) \<leftarrow> Vmm_map X v va pa flags sz s;
     (case r of
       Inl e \<Rightarrow> do { s \<leftarrow> map_range_undo X v virt sz 0 (unat i) s; Some (Inl e, s) }
     | Inr _ \<Rightarrow> map_range_loop X v virt phys flags sz (i + 1) n s) }"

definition Vmm_map_range ::
    "x86 \<Rightarrow> Vmm \<Rightarrow> u64 \<Rightarrow> u64 \<Rightarrow> u64 \<Rightarrow> u64 \<Rightarrow> PageSize \<Rightarrow> 'a vkernel_scheme \<Rightarrow>
     ((MapError + unit) \<times> 'a vkernel_scheme) option" where
  "Vmm_map_range X v virt phys pages flags sz s = map_range_loop X v virt phys flags sz 0 (unat pages) s"

primrec unmap_range_loop ::
    "x86 \<Rightarrow> Vmm \<Rightarrow> u64 \<Rightarrow> PageSize \<Rightarrow> u64 \<Rightarrow> nat \<Rightarrow> 'a vkernel_scheme \<Rightarrow>
     ((UnmapError + unit) \<times> 'a vkernel_scheme) option" where
  "unmap_range_loop X v virt sz i 0 s = Some (Inr (), s)"
| "unmap_range_loop X v virt sz i (Suc n) s = do {
     step \<leftarrow> mul64 i (PageSize_bytes X sz);
     va \<leftarrow> add64 virt step;
     (r, s) \<leftarrow> Vmm_unmap X v va sz s;
     (case r of Inl e \<Rightarrow> Some (Inl e, s) | Inr _ \<Rightarrow> unmap_range_loop X v virt sz (i + 1) n s) }"

definition Vmm_unmap_range ::
    "x86 \<Rightarrow> Vmm \<Rightarrow> u64 \<Rightarrow> u64 \<Rightarrow> PageSize \<Rightarrow> 'a vkernel_scheme \<Rightarrow>
     ((UnmapError + unit) \<times> 'a vkernel_scheme) option" where
  "Vmm_unmap_range X v virt pages sz s = unmap_range_loop X v virt sz 0 (unat pages) s"

section \<open>The global manager\<close>

text \<open>\<open>VMM.with\<close> panics when no manager is installed; the manager itself never changes.\<close>

definition vmm_translate :: "x86 \<Rightarrow> u64 \<Rightarrow> 'a vkernel_scheme \<Rightarrow> (u64 \<times> u64) option option" where
  "vmm_translate X virt s = do { v \<leftarrow> VMM s; Vmm_translate X v virt s }"

definition vmm_map ::
    "x86 \<Rightarrow> u64 \<Rightarrow> u64 \<Rightarrow> u64 \<Rightarrow> PageSize \<Rightarrow> 'a vkernel_scheme \<Rightarrow> ((MapError + unit) \<times> 'a vkernel_scheme) option" where
  "vmm_map X virt phys flags sz s = do { v \<leftarrow> VMM s; Vmm_map X v virt phys flags sz s }"

definition vmm_map_hhdm ::
    "x86 \<Rightarrow> u64 \<Rightarrow> u64 \<Rightarrow> PageSize \<Rightarrow> 'a vkernel_scheme \<Rightarrow> ((MapError + u64) \<times> 'a vkernel_scheme) option" where
  "vmm_map_hhdm X phys flags sz s = do {
     virt \<leftarrow> add64 phys (HHDM_OFFSET s);
     (r, s) \<leftarrow> vmm_map X virt phys flags sz s;
     (case r of Inl e \<Rightarrow> Some (Inl e, s) | Inr _ \<Rightarrow> Some (Inr virt, s)) }"

definition vmm_unmap ::
    "x86 \<Rightarrow> u64 \<Rightarrow> PageSize \<Rightarrow> 'a vkernel_scheme \<Rightarrow> ((UnmapError + unit) \<times> 'a vkernel_scheme) option" where
  "vmm_unmap X virt sz s = do { v \<leftarrow> VMM s; Vmm_unmap X v virt sz s }"

definition vmm_map_range ::
    "x86 \<Rightarrow> u64 \<Rightarrow> u64 \<Rightarrow> u64 \<Rightarrow> u64 \<Rightarrow> PageSize \<Rightarrow> 'a vkernel_scheme \<Rightarrow>
     ((MapError + unit) \<times> 'a vkernel_scheme) option" where
  "vmm_map_range X virt phys pages flags sz s = do { v \<leftarrow> VMM s; Vmm_map_range X v virt phys pages flags sz s }"

definition vmm_unmap_range ::
    "x86 \<Rightarrow> u64 \<Rightarrow> u64 \<Rightarrow> PageSize \<Rightarrow> 'a vkernel_scheme \<Rightarrow> ((UnmapError + unit) \<times> 'a vkernel_scheme) option" where
  "vmm_unmap_range X virt pages sz s = do { v \<leftarrow> VMM s; Vmm_unmap_range X v virt pages sz s }"

section \<open>The boot loader's tables\<close>

definition ENTRY_ADDR_MASK :: u64 where "ENTRY_ADDR_MASK = 0x000FFFFFFFFFF000"

definition is_leaf :: "nat \<Rightarrow> u64 \<Rightarrow> bool" where
  "is_leaf level entry \<longleftrightarrow> level = 0 \<or> level \<le> 2 \<and> entry AND push_bit 7 1 \<noteq> 0"

text \<open>
  \<open>free_cloned_table\<close> and \<open>clone_table\<close> recurse on the level and loop over the entries; the
  loops take the index of the next entry.
\<close>

function (sequential) free_cloned_table :: "x86 \<Rightarrow> u64 \<Rightarrow> u64 \<Rightarrow> nat \<Rightarrow> 'a kernel_scheme \<Rightarrow> 'a kernel_scheme option"
  and free_cloned_loop :: "x86 \<Rightarrow> u64 \<Rightarrow> u64 \<Rightarrow> nat \<Rightarrow> nat \<Rightarrow> 'a kernel_scheme \<Rightarrow> 'a kernel_scheme option" where
  "free_cloned_table X phys hhdm level s = do {
     table \<leftarrow> add64 phys hhdm;
     s \<leftarrow> free_cloned_loop X table hhdm level 0 s;
     pmm_free_frame phys s }"
| "free_cloned_loop X table hhdm level i s =
     (if i < PAGE_SIZE_ENTRIES X then do {
        let entry = kmem s (table + 8 * word_of_nat i);
        s \<leftarrow> (if entry AND 1 = 0 then Some s
             else if \<not> is_leaf level entry
             then free_cloned_table X (entry AND ENTRY_ADDR_MASK) hhdm (level - 1) s
             else Some s);
        free_cloned_loop X table hhdm level (i + 1) s }
      else Some s)"
  by pat_completeness auto
termination
  by (relation "measures [\<lambda>x. case x of Inl (X, phys, hhdm, level, s) \<Rightarrow> level | Inr (X, t, hhdm, level, i, s) \<Rightarrow> level,
       \<lambda>x. case x of Inl (X, phys, hhdm, level, s) \<Rightarrow> PAGE_SIZE_ENTRIES X + 1
           | Inr (X, t, hhdm, level, i, s) \<Rightarrow> PAGE_SIZE_ENTRIES X - i]")
     (auto simp: is_leaf_def)

function (sequential) clone_table ::
    "x86 \<Rightarrow> u64 \<Rightarrow> u64 \<Rightarrow> nat \<Rightarrow> 'a kernel_scheme \<Rightarrow> (u64 option \<times> 'a kernel_scheme) option"
  and clone_loop ::
    "x86 \<Rightarrow> u64 \<Rightarrow> u64 \<Rightarrow> u64 \<Rightarrow> u64 \<Rightarrow> nat \<Rightarrow> nat \<Rightarrow> 'a kernel_scheme \<Rightarrow> (u64 option \<times> 'a kernel_scheme) option" where
  "clone_table X src_phys hhdm level s = do {
     (r, s) \<leftarrow> pmm_alloc_frame s;
     (case r of
       None \<Rightarrow> Some (None, s)
     | Some dst_frame \<Rightarrow> do {
         s \<leftarrow> zero_frame X dst_frame hhdm s;
         src \<leftarrow> add64 src_phys hhdm;
         dst \<leftarrow> add64 dst_frame hhdm;
         clone_loop X dst_frame src dst hhdm level 0 s }) }"
| "clone_loop X dst_frame src dst hhdm level i s =
     (if i < PAGE_SIZE_ENTRIES X then do {
        let entry = kmem s (src + 8 * word_of_nat i);
        let slot = dst + 8 * word_of_nat i;
        if entry AND 1 = 0 then clone_loop X dst_frame src dst hhdm level (i + 1) s
        else if is_leaf level entry
        then clone_loop X dst_frame src dst hhdm level (i + 1) (store slot entry s)
        else do {
          let child_phys = entry AND ENTRY_ADDR_MASK;
          (r, s) \<leftarrow> clone_table X child_phys hhdm (level - 1) s;
          (case r of
            None \<Rightarrow> do { s \<leftarrow> free_cloned_table X dst_frame hhdm level s; Some (None, s) }
          | Some new_child \<Rightarrow> do {
              let flags = entry AND NOT ENTRY_ADDR_MASK;
              clone_loop X dst_frame src dst hhdm level (i + 1)
                (store slot ((new_child AND ENTRY_ADDR_MASK) OR flags) s) }) } }
      else Some (Some dst_frame, s))"
  by pat_completeness auto
termination
  by (relation "measures [\<lambda>x. case x of Inl (X, src, hhdm, level, s) \<Rightarrow> level | Inr (X, f, t, d, hhdm, level, i, s) \<Rightarrow> level,
       \<lambda>x. case x of Inl (X, src, hhdm, level, s) \<Rightarrow> PAGE_SIZE_ENTRIES X + 1
           | Inr (X, f, t, d, hhdm, level, i, s) \<Rightarrow> PAGE_SIZE_ENTRIES X - i]")
     (auto simp: is_leaf_def)

declare free_cloned_table.simps [simp del] free_cloned_loop.simps [simp del]
declare clone_table.simps [simp del] clone_loop.simps [simp del]

definition take_ownership :: "x86 \<Rightarrow> u64 \<Rightarrow> 'a vkernel_scheme \<Rightarrow> ((VmmError + u64) \<times> 'a vkernel_scheme) option" where
  "take_ownership X hhdm s = do {
     let old_cr3 = CR3 s;
     let old_pml4 = old_cr3 AND ENTRY_ADDR_MASK;
     (r, s) \<leftarrow> clone_table X old_pml4 hhdm 3 s;
     (case r of
       None \<Rightarrow> Some (Inl OutOfFrames, s)
     | Some new_pml4 \<Rightarrow>
         Some (Inr new_pml4,
           s\<lparr>CR3 := (new_pml4 AND ENTRY_ADDR_MASK) OR (old_cr3 AND NOT ENTRY_ADDR_MASK)\<rparr>)) }"

end
