(* ===== verification/Heap.thy ===== *)
theory Heap
  imports Vmm
begin

text \<open>
  The kernel heap, kernel/src/mm/heap.rs: the global allocator.  Requests of at most 1024
  bytes come from slabs, single frames cut into objects of one power-of-two size whose
  free objects are chained through their first word; larger requests are whole blocks of the
  physical allocator.  Pointers, sizes and alignments are 64-bit words, a null pointer is 0.
  Dereferences that the code does not guard are reads of \<open>kmem\<close>; \<open>unwrap_unchecked\<close> of
  \<open>None\<close>, which is undefined behaviour, is treated like a panic.
\<close>

section \<open>Arithmetic of usize\<close>

text \<open>\<open>usize::next_power_of_two\<close>, \<open>div_ceil\<close> and \<open>next_multiple_of\<close> of the core library.\<close>

definition next_power_of_two :: "u64 \<Rightarrow> u64 option" where
  "next_power_of_two w =
     (let m = (if w \<le> 1 then 0 else drop_bit (leading_zeros (w - 1)) (NOT 0)) in add64 m 1)"

definition div_ceil :: "u64 \<Rightarrow> u64 \<Rightarrow> u64 option" where
  "div_ceil a b = do { check (b \<noteq> 0); if a mod b > 0 then add64 (a div b) 1 else Some (a div b) }"

definition next_multiple_of :: "u64 \<Rightarrow> u64 \<Rightarrow> u64 option" where
  "next_multiple_of a b = do { check (b \<noteq> 0); if a mod b = 0 then Some a else add64 a (b - a mod b) }"

section \<open>Constants and data\<close>

definition MIN_BUCKET_SHIFT :: nat where [simp]: "MIN_BUCKET_SHIFT = 4"
definition MAX_BUCKET_SHIFT :: nat where [simp]: "MAX_BUCKET_SHIFT = 10"
definition NUM_BUCKETS :: nat where [simp]: "NUM_BUCKETS = MAX_BUCKET_SHIFT - MIN_BUCKET_SHIFT + 1"
definition SLAB_FRAME_SIZE :: u64 where [simp]: "SLAB_FRAME_SIZE = FRAME_SIZE"
definition SLAB_MASK :: u64 where "SLAB_MASK = NOT (SLAB_FRAME_SIZE - 1)"

definition make_obj_sizes :: "u32 list" where
  "make_obj_sizes = map (\<lambda>i. push_bit (MIN_BUCKET_SHIFT + i) 1) [0..<NUM_BUCKETS]"

definition OBJ_SIZE :: "u32 list" where "OBJ_SIZE = make_obj_sizes"

record Layout =
  lsize :: u64
  lalign :: u64

text \<open>
  \<open>FreeObj\<close> is one word, its \<open>next\<close> pointer; \<open>Slab\<close>, at the start of its frame, is two words.
\<close>

definition FreeObj_next :: "mem \<Rightarrow> u64 \<Rightarrow> u64 option" where
  "FreeObj_next m p = dec_ptr (m p)"

definition set_FreeObj_next :: "mem \<Rightarrow> u64 \<Rightarrow> u64 option \<Rightarrow> mem" where
  "set_FreeObj_next m p v = m(p := enc_ptr v)"

record Slab =
  slab_next :: "u64 option"
  slab_free :: "u64 option"

definition slab_at :: "mem \<Rightarrow> u64 \<Rightarrow> Slab" where
  "slab_at m p = \<lparr>slab_next = dec_ptr (m p), slab_free = dec_ptr (m (p + 8))\<rparr>"

definition set_slab_next :: "mem \<Rightarrow> u64 \<Rightarrow> u64 option \<Rightarrow> mem" where
  "set_slab_next m p v = m(p := enc_ptr v)"

definition set_slab_free :: "mem \<Rightarrow> u64 \<Rightarrow> u64 option \<Rightarrow> mem" where
  "set_slab_free m p v = m(p + 8 := enc_ptr v)"

definition size_of_Slab :: u64 where [simp]: "size_of_Slab = 16"

record HeapInner =
  active_slab :: "u64 option list"
  partial_slabs :: "u64 option list"

record hkernel = vkernel +
  ALLOCATOR :: HeapInner

definition Heap_new :: HeapInner where
  "Heap_new = \<lparr>active_slab = replicate NUM_BUCKETS None, partial_slabs = replicate NUM_BUCKETS None\<rparr>"

definition heap_init :: "'a hkernel_scheme \<Rightarrow> unit option" where
  "heap_init s = check (HHDM_OFFSET s \<noteq> 0)"

section \<open>Size classes\<close>

definition bucket_for :: "Layout \<Rightarrow> nat option option" where
  "bucket_for layout =
     (let need = max (max (lsize layout) (lalign layout)) (push_bit MIN_BUCKET_SHIFT 1) in
      if need > push_bit MAX_BUCKET_SHIFT 1 then Some None
      else do {
        pow \<leftarrow> next_power_of_two need;
        check (MIN_BUCKET_SHIFT \<le> trailing_zeros pow);
        Some (Some (trailing_zeros pow - MIN_BUCKET_SHIFT)) })"

definition order_for_large :: "Layout \<Rightarrow> nat option option" where
  "order_for_large layout = do {
     let need = max (lsize layout) (lalign layout);
     n \<leftarrow> div_ceil need SLAB_FRAME_SIZE;
     frames \<leftarrow> next_power_of_two n;
     let order = trailing_zeros frames;
     Some (if order > MAX_ORDER then None else Some order) }"

definition phys_to_virt :: "u64 \<Rightarrow> 'a hkernel_scheme \<Rightarrow> u64 option" where
  "phys_to_virt p s = add64 p (HHDM_OFFSET s)"

definition virt_to_phys :: "u64 \<Rightarrow> 'a hkernel_scheme \<Rightarrow> u64 option" where
  "virt_to_phys v s = sub64 v (HHDM_OFFSET s)"

section \<open>Small objects\<close>

text \<open>\<open>for i in (0..count).rev()\<close> of \<open>refill\<close>: the argument is the number of objects left.\<close>

primrec refill_loop :: "u64 \<Rightarrow> u64 \<Rightarrow> u64 \<Rightarrow> nat \<Rightarrow> u64 option \<Rightarrow> mem \<Rightarrow> (u64 option \<times> mem) option" where
  "refill_loop base data_off obj_size 0 head m = Some (head, m)"
| "refill_loop base data_off obj_size (Suc i) head m = do {
     step \<leftarrow> mul64 (word_of_nat i) obj_size;
     off \<leftarrow> add64 data_off step;
     let obj_ptr = base + off;
     refill_loop base data_off obj_size i (Some obj_ptr) (set_FreeObj_next m obj_ptr head) }"

definition refill :: "nat \<Rightarrow> 'a hkernel_scheme \<Rightarrow> (u64 option \<times> 'a hkernel_scheme) option" where
  "refill bucket s = do {
     sz \<leftarrow> idx OBJ_SIZE bucket;
     let obj_size = ucast sz;
     (r, s) \<leftarrow> pmm_alloc_pages 0 s;
     (case r of
       None \<Rightarrow> Some (None, s)
     | Some phys \<Rightarrow> do {
         base \<leftarrow> phys_to_virt phys s;
         data_off \<leftarrow> next_multiple_of size_of_Slab obj_size;
         room \<leftarrow> sub64 SLAB_FRAME_SIZE data_off;
         let count = room div obj_size;
         check (count > 0);
         (head, m) \<leftarrow> refill_loop base data_off obj_size (unat count) None (kmem s);
         let m = set_slab_next m base None;
         let m = set_slab_free m base head;
         Some (Some base, s\<lparr>kmem := m\<rparr>) }) }"

definition take_partial :: "nat \<Rightarrow> 'a hkernel_scheme \<Rightarrow> (u64 option \<times> 'a hkernel_scheme) option" where
  "take_partial bucket s = do {
     p \<leftarrow> idx (partial_slabs (ALLOCATOR s)) bucket;
     (case p of
       None \<Rightarrow> Some (None, s)
     | Some slab \<Rightarrow> do {
         ps \<leftarrow> idx_set (partial_slabs (ALLOCATOR s)) bucket (slab_next (slab_at (kmem s) slab));
         Some (Some slab, s\<lparr>ALLOCATOR := (ALLOCATOR s)\<lparr>partial_slabs := ps\<rparr>,
                           kmem := set_slab_next (kmem s) slab None\<rparr>) }) }"

text \<open>Taking the first free object off a slab.\<close>

definition pop_obj :: "u64 \<Rightarrow> u64 \<Rightarrow> 'a hkernel_scheme \<Rightarrow> 'a hkernel_scheme" where
  "pop_obj slab obj s = s\<lparr>kmem := set_slab_free (kmem s) slab (FreeObj_next (kmem s) obj)\<rparr>"

definition alloc_small :: "nat \<Rightarrow> 'a hkernel_scheme \<Rightarrow> (u64 \<times> 'a hkernel_scheme) option" where
  "alloc_small bucket s = do {
     act \<leftarrow> idx (active_slab (ALLOCATOR s)) bucket;
     (case Option.bind act (\<lambda>a. map_option (Pair a) (slab_free (slab_at (kmem s) a))) of
       Some (a, obj) \<Rightarrow> Some (obj, pop_obj a obj s)
     | None \<Rightarrow> do {
         as \<leftarrow> idx_set (active_slab (ALLOCATOR s)) bucket None;
         let s = s\<lparr>ALLOCATOR := (ALLOCATOR s)\<lparr>active_slab := as\<rparr>\<rparr>;
         (r, s) \<leftarrow> take_partial bucket s;
         (slab_nn, s) \<leftarrow> (case r of Some sl \<Rightarrow> Some (Some sl, s) | None \<Rightarrow> refill bucket s);
         (case slab_nn of
           Some slab \<Rightarrow> do {
             as \<leftarrow> idx_set (active_slab (ALLOCATOR s)) bucket (Some slab);
             let s = s\<lparr>ALLOCATOR := (ALLOCATOR s)\<lparr>active_slab := as\<rparr>\<rparr>;
             obj \<leftarrow> slab_free (slab_at (kmem s) slab);
             Some (obj, pop_obj slab obj s) }
         | None \<Rightarrow> Some (0, s)) }) }"

definition dealloc_small :: "nat \<Rightarrow> u64 \<Rightarrow> u64 \<Rightarrow> 'a hkernel_scheme \<Rightarrow> 'a hkernel_scheme option" where
  "dealloc_small bucket slab_ptr ptr s = do {
     let was_full = (slab_free (slab_at (kmem s) slab_ptr) = None);
     let m = set_FreeObj_next (kmem s) ptr (slab_free (slab_at (kmem s) slab_ptr));
     let s = s\<lparr>kmem := set_slab_free m slab_ptr (Some ptr)\<rparr>;
     act \<leftarrow> idx (active_slab (ALLOCATOR s)) bucket;
     if act = Some slab_ptr then Some s
     else if was_full then do {
       p \<leftarrow> idx (partial_slabs (ALLOCATOR s)) bucket;
       let s = s\<lparr>kmem := set_slab_next (kmem s) slab_ptr p\<rparr>;
       ps \<leftarrow> idx_set (partial_slabs (ALLOCATOR s)) bucket (Some slab_ptr);
       Some (s\<lparr>ALLOCATOR := (ALLOCATOR s)\<lparr>partial_slabs := ps\<rparr>\<rparr>) }
     else Some s }"

section \<open>Large blocks\<close>

definition alloc_large :: "Layout \<Rightarrow> 'a hkernel_scheme \<Rightarrow> (u64 \<times> 'a hkernel_scheme) option" where
  "alloc_large layout s = do {
     ord \<leftarrow> order_for_large layout;
     (case ord of
       None \<Rightarrow> Some (0, s)
     | Some order \<Rightarrow> do {
         (r, s) \<leftarrow> pmm_alloc_pages order s;
         (case r of
           Some phys \<Rightarrow> do { v \<leftarrow> phys_to_virt phys s; Some (v, s) }
         | None \<Rightarrow> Some (0, s)) }) }"

definition dealloc_large :: "u64 \<Rightarrow> Layout \<Rightarrow> 'a hkernel_scheme \<Rightarrow> 'a hkernel_scheme option" where
  "dealloc_large ptr layout s = do {
     ord \<leftarrow> order_for_large layout;
     (case ord of
       None \<Rightarrow> Some s
     | Some order \<Rightarrow> do {
         phys \<leftarrow> virt_to_phys ptr s;
         pmm_free_pages phys order s }) }"

section \<open>The global allocator\<close>

definition heap_alloc :: "Layout \<Rightarrow> 'a hkernel_scheme \<Rightarrow> (u64 \<times> 'a hkernel_scheme) option" where
  "heap_alloc layout s = do {
     b \<leftarrow> bucket_for layout;
     (case b of None \<Rightarrow> alloc_large layout s | Some bucket \<Rightarrow> alloc_small bucket s) }"

definition heap_dealloc :: "u64 \<Rightarrow> Layout \<Rightarrow> 'a hkernel_scheme \<Rightarrow> 'a hkernel_scheme option" where
  "heap_dealloc ptr layout s =
     (if ptr = 0 then Some s
      else do {
        b \<leftarrow> bucket_for layout;
        (case b of
          None \<Rightarrow> dealloc_large ptr layout s
        | Some bucket \<Rightarrow> dealloc_small bucket (ptr AND SLAB_MASK) ptr s) })"

end
