(* ===== verification/Free_List.thy ===== *)
theory Free_List
  imports Pmm
begin

text \<open>
  The free lists of the physical allocator as doubly linked lists in memory.
  \<open>fptr h f\<close> is the pointer to frame \<open>f\<close> through the direct map at \<open>h\<close>; \<open>dll\<close> says that
  the link words of a sequence of frames form a doubly linked segment.
\<close>

section \<open>Frame pointers\<close>

definition fptr :: "u64 \<Rightarrow> nat \<Rightarrow> u64" where
  "fptr h f = h + word_of_nat (f * 4096)"

text \<open>\<open>n\<close> frames are reachable through the direct map without wrapping round.\<close>

definition fits :: "u64 \<Rightarrow> nat \<Rightarrow> bool" where
  "fits h n \<longleftrightarrow> h \<noteq> 0 \<and> unat h + n * 4096 \<le> 2 ^ 64"

lemma unat_fptr_off:
  assumes "fits h n" "f < n" "k < 4096"
  shows "unat (fptr h f + word_of_nat k) = unat h + f * 4096 + k"
proof -
  have "(f + 1) * 4096 \<le> n * 4096" using assms(2) by (intro mult_le_mono1) simp
  then have b: "unat h + (f * 4096 + k) < 2 ^ 64" using assms unfolding fits_def by simp
  have "fptr h f + word_of_nat k = h + word_of_nat (f * 4096 + k)"
    by (simp add: fptr_def)
  also have "unat \<dots> = unat h + unat (word_of_nat (f * 4096 + k) :: u64)"
    by (rule unat_add_lt) (use b in \<open>simp add: unat_of_nat64 del: of_nat_add of_nat_mult\<close>)
  finally show ?thesis using b by (simp add: unat_of_nat64 del: of_nat_add of_nat_mult)
qed

lemma unat_fptr: "fits h n \<Longrightarrow> f < n \<Longrightarrow> unat (fptr h f) = unat h + f * 4096"
  using unat_fptr_off[of h n f 0] by simp

lemma fptr_off_inj:
  assumes "fits h n" "f < n" "g < n" "j < 4096" "k < 4096"
  shows "fptr h f + word_of_nat j = fptr h g + word_of_nat k \<longleftrightarrow> f = g \<and> j = k"
proof
  assume "fptr h f + word_of_nat j = fptr h g + word_of_nat k"
  then have e: "f * 4096 + j = g * 4096 + k"
    using unat_fptr_off[OF assms(1,2,4)] unat_fptr_off[OF assms(1,3,5)] by simp
  have "f = (f * 4096 + j) div 4096" "g = (g * 4096 + k) div 4096" using assms(4,5) by simp_all
  with e show "f = g \<and> j = k" by simp
qed simp

lemma fptr_inj [simp]:
  assumes "fits h n" "f < n" "g < n"
  shows "fptr h f = fptr h g \<longleftrightarrow> f = g"
  using fptr_off_inj[OF assms, of 0 0] by simp

lemma fptr_next_neq [simp]:
  assumes "fits h n" "f < n" "g < n"
  shows "fptr h f + 8 \<noteq> fptr h g"
  using fptr_off_inj[OF assms, of 8 0] by simp

lemma fptr_next_neq' [simp]:
  assumes "fits h n" "f < n" "g < n"
  shows "fptr h f \<noteq> fptr h g + 8"
  using fptr_next_neq[OF assms(1,3,2)] by metis

lemma fptr_not_null [simp]: "fits h n \<Longrightarrow> f < n \<Longrightarrow> fptr h f \<noteq> 0"
  using unat_fptr[of h n f] unat_gt_0[of h] by (auto simp: fits_def)

lemma fits_mono: "fits h n \<Longrightarrow> k \<le> n \<Longrightarrow> fits h k"
  by (auto simp: fits_def)

section \<open>Doubly linked segments\<close>

definition first_link :: "u64 \<Rightarrow> u64 option \<Rightarrow> nat list \<Rightarrow> u64 option" where
  "first_link h nx fs = (case fs of [] \<Rightarrow> nx | f # _ \<Rightarrow> Some (fptr h f))"

definition last_link :: "u64 \<Rightarrow> u64 option \<Rightarrow> nat list \<Rightarrow> u64 option" where
  "last_link h pv fs = (if fs = [] then pv else Some (fptr h (last fs)))"

lemma first_link_simps [simp]:
  "first_link h nx [] = nx" "first_link h nx (f # fs) = Some (fptr h f)"
  by (simp_all add: first_link_def)

lemma last_link_simps [simp]:
  "last_link h pv [] = pv" "last_link h pv (f # fs) = last_link h (Some (fptr h f)) fs"
  by (simp_all add: last_link_def)

lemma first_link_append [simp]: "first_link h nx (xs @ ys) = first_link h (first_link h nx ys) xs"
  by (cases xs) simp_all

primrec dll :: "mem \<Rightarrow> u64 \<Rightarrow> u64 option \<Rightarrow> nat list \<Rightarrow> u64 option \<Rightarrow> bool" where
  "dll m h pv [] nx = True"
| "dll m h pv (f # fs) nx =
     (prev (free_block m (fptr h f)) = pv \<and> nxt (free_block m (fptr h f)) = first_link h nx fs
      \<and> dll m h (Some (fptr h f)) fs nx)"

lemma dll_append [simp]:
  "dll m h pv (xs @ ys) nx \<longleftrightarrow> dll m h pv xs (first_link h nx ys) \<and> dll m h (last_link h pv xs) ys nx"
  by (induction xs arbitrary: pv) auto

text \<open>The words that hold the links of a set of frames, and memories that agree elsewhere.\<close>

definition link_words :: "u64 \<Rightarrow> nat set \<Rightarrow> u64 set" where
  "link_words h S = (\<Union>f\<in>S. {fptr h f, fptr h f + 8})"

definition agree_off :: "u64 set \<Rightarrow> mem \<Rightarrow> mem \<Rightarrow> bool" where
  "agree_off A m m' \<longleftrightarrow> (\<forall>a. a \<notin> A \<longrightarrow> m' a = m a)"

lemma agree_off_refl [simp, intro]: "agree_off A m m"
  by (simp add: agree_off_def)

lemma agree_off_trans:
  "agree_off A m m' \<Longrightarrow> agree_off B m' m'' \<Longrightarrow> A \<subseteq> C \<Longrightarrow> B \<subseteq> C \<Longrightarrow> agree_off C m m''"
  by (force simp: agree_off_def)

lemma agree_off_mono: "agree_off A m m' \<Longrightarrow> A \<subseteq> B \<Longrightarrow> agree_off B m m'"
  by (auto simp: agree_off_def)

lemma agree_off_set_prev: "a \<in> A \<Longrightarrow> agree_off A m m' \<Longrightarrow> agree_off A m (set_prev m' a v)"
  by (auto simp: agree_off_def set_prev_def)

lemma agree_off_set_next: "a + 8 \<in> A \<Longrightarrow> agree_off A m m' \<Longrightarrow> agree_off A m (set_next m' a v)"
  by (auto simp: agree_off_def set_next_def)

lemma link_words_mono: "S \<subseteq> T \<Longrightarrow> link_words h S \<subseteq> link_words h T"
  by (auto simp: link_words_def)

lemma link_words_mem [simp]:
  "f \<in> S \<Longrightarrow> fptr h f \<in> link_words h S" "f \<in> S \<Longrightarrow> fptr h f + 8 \<in> link_words h S"
  by (auto simp: link_words_def)

lemma free_block_set_prev:
  assumes "fits h n" "f < n" "g < n"
  shows "free_block (set_prev m (fptr h g) v) (fptr h f) =
           (if f = g then (free_block m (fptr h f))\<lparr>prev := dec_ptr (enc_ptr v)\<rparr>
            else free_block m (fptr h f))"
  using fptr_next_neq[OF assms] fptr_inj[OF assms] by (simp add: free_block_def set_prev_def)

lemma free_block_set_next:
  assumes "fits h n" "f < n" "g < n"
  shows "free_block (set_next m (fptr h g) v) (fptr h f) =
           (if f = g then (free_block m (fptr h f))\<lparr>nxt := dec_ptr (enc_ptr v)\<rparr>
            else free_block m (fptr h f))"
  using fptr_next_neq'[OF assms] fptr_inj[OF assms] by (simp add: free_block_def set_next_def)

lemma dll_set_prev_other:
  assumes "fits h n" "set fs \<subseteq> {..<n}" "g < n" "g \<notin> set fs"
  shows "dll (set_prev m (fptr h g) v) h pv fs nx = dll m h pv fs nx"
  using assms(2,4) by (induction fs arbitrary: pv) (auto simp: free_block_set_prev[OF assms(1) _ assms(3)])

lemma dll_set_next_other:
  assumes "fits h n" "set fs \<subseteq> {..<n}" "g < n" "g \<notin> set fs"
  shows "dll (set_next m (fptr h g) v) h pv fs nx = dll m h pv fs nx"
  using assms(2,4) by (induction fs arbitrary: pv) (auto simp: free_block_set_next[OF assms(1) _ assms(3)])

text \<open>Relinking the first and the last node of a segment.\<close>

lemma dll_set_prev_first:
  assumes "fits h n" "set (g # fs) \<subseteq> {..<n}" "distinct (g # fs)" "pv' \<noteq> Some 0"
    and "dll m h pv (g # fs) nx"
  shows "dll (set_prev m (fptr h g) pv') h pv' (g # fs) nx"
  using assms by (simp add: dll_set_prev_other[OF assms(1)] free_block_set_prev[OF assms(1)])

lemma dll_set_next_last:
  assumes "fits h n" "set (fs @ [g]) \<subseteq> {..<n}" "distinct (fs @ [g])" "nx' \<noteq> Some 0"
    and "dll m h pv (fs @ [g]) nx"
  shows "dll (set_next m (fptr h g) nx') h pv (fs @ [g]) nx'"
  using assms by (simp add: dll_set_next_other[OF assms(1)] free_block_set_next[OF assms(1)])

lemma first_link_not_null:
  "fits h n \<Longrightarrow> set fs \<subseteq> {..<n} \<Longrightarrow> nx \<noteq> Some 0 \<Longrightarrow> first_link h nx fs \<noteq> Some 0"
  by (cases fs) auto

lemma last_link_not_null:
  "fits h n \<Longrightarrow> set fs \<subseteq> {..<n} \<Longrightarrow> pv \<noteq> Some 0 \<Longrightarrow> last_link h pv fs \<noteq> Some 0"
  by (auto simp: last_link_def dest: last_in_set)

section \<open>The two list operations on memory\<close>

text \<open>What \<open>list_push\<close> and \<open>list_remove\<close> do to the memory, as functions of the list heads.\<close>

definition push_mem :: "mem \<Rightarrow> u64 \<Rightarrow> u64 option \<Rightarrow> mem" where
  "push_mem m block head =
     (let m = set_next (set_prev m block None) block head
      in case head of Some a \<Rightarrow> set_prev m a (Some block) | None \<Rightarrow> m)"

definition unlink_mem :: "mem \<Rightarrow> u64 option \<Rightarrow> u64 option \<Rightarrow> mem" where
  "unlink_mem m pr nx =
     (let m = (case pr of Some q \<Rightarrow> set_next m q nx | None \<Rightarrow> m)
      in case nx of Some a \<Rightarrow> set_prev m a pr | None \<Rightarrow> m)"

lemma dll_push:
  assumes "fits h n" "set (g # fs) \<subseteq> {..<n}" "distinct (g # fs)" "dll m h None fs None"
  shows "dll (push_mem m (fptr h g) (first_link h None fs)) h None (g # fs) None"
proof -
  let ?m = "set_next (set_prev m (fptr h g) None) (fptr h g) (first_link h None fs)"
  have g: "g < n" "set fs \<subseteq> {..<n}" "g \<notin> set fs" using assms(2,3) by auto
  have keep: "dll ?m h None fs None"
    using assms(4) g by (simp add: dll_set_prev_other[OF assms(1)] dll_set_next_other[OF assms(1)])
  show ?thesis
  proof (cases fs)
    case Nil
    then show ?thesis using g(1)
      by (simp add: push_mem_def free_block_set_next[OF assms(1)] free_block_set_prev[OF assms(1)])
  next
    case (Cons f rest)
    have "dll (set_prev ?m (fptr h f) (Some (fptr h g))) h (Some (fptr h g)) fs None"
      using dll_set_prev_first[OF assms(1), of f rest "Some (fptr h g)" ?m None None] keep assms g
      by (simp add: Cons)
    then show ?thesis using g assms(1)
      by (simp add: push_mem_def Cons free_block_set_next[OF assms(1)] free_block_set_prev[OF assms(1)])
  qed
qed

lemma dll_unlink:
  assumes "fits h n" "set (xs @ g # ys) \<subseteq> {..<n}" "distinct (xs @ g # ys)"
    and "dll m h None (xs @ g # ys) None"
  shows "dll (unlink_mem m (last_link h None xs) (first_link h None ys)) h None (xs @ ys) None"
proof -
  define nx where "nx = first_link h None ys"
  define pr where "pr = last_link h None xs"
  define m1 where "m1 = (case pr of Some q \<Rightarrow> set_next m q nx | None \<Rightarrow> m)"
  have s: "set xs \<subseteq> {..<n}" "set ys \<subseteq> {..<n}" using assms(2) by auto
  have nz: "nx \<noteq> Some 0" "pr \<noteq> Some 0"
    using first_link_not_null[OF assms(1) s(2)] last_link_not_null[OF assms(1) s(1)]
    by (auto simp: nx_def pr_def)
  have dxs: "dll m h None xs (Some (fptr h g))" and dys: "dll m h (Some (fptr h g)) ys None"
    using assms(4) by auto
  have one: "dll m1 h None xs nx \<and> dll m1 h (Some (fptr h g)) ys None"
  proof (cases xs rule: rev_cases)
    case Nil
    then show ?thesis using dys by (simp add: m1_def pr_def)
  next
    case (snoc zs z)
    then have m: "m1 = set_next m (fptr h z) nx" by (simp add: m1_def pr_def last_link_def)
    have "dll m1 h None (zs @ [z]) nx" unfolding m
      by (rule dll_set_next_last[OF assms(1) _ _ nz(1) dxs[unfolded snoc]])
        (use assms(3) s(1) snoc in auto)
    moreover have "dll m1 h (Some (fptr h g)) ys None"
      unfolding m using dys assms(2,3) s(2) snoc by (subst dll_set_next_other[OF assms(1)]) auto
    ultimately show ?thesis by (simp only: snoc)
  qed
  have u: "unlink_mem m pr nx = (case nx of Some a \<Rightarrow> set_prev m1 a pr | None \<Rightarrow> m1)"
    unfolding unlink_mem_def m1_def Let_def ..
  have "dll (unlink_mem m pr nx) h None (xs @ ys) None"
  proof (cases ys)
    case Nil
    then show ?thesis using one unfolding u by (simp add: nx_def)
  next
    case (Cons y zs)
    then have u': "unlink_mem m pr nx = set_prev m1 (fptr h y) pr" unfolding u by (simp add: nx_def)
    have "dll (set_prev m1 (fptr h y) pr) h pr (y # zs) None"
      by (rule dll_set_prev_first[OF assms(1) _ _ nz(2) conjunct2[OF one, unfolded Cons]])
        (use assms(3) s(2) Cons in auto)
    moreover have "dll (set_prev m1 (fptr h y) pr) h None xs nx"
      using one assms(2,3) s(1) Cons by (subst dll_set_prev_other[OF assms(1)]) auto
    ultimately show ?thesis unfolding u' dll_append by (simp only: Cons nx_def pr_def)
  qed
  then show ?thesis by (simp only: nx_def pr_def)
qed

lemma dll_same:
  "\<forall>a\<in>link_words h (set fs). m' a = m a \<Longrightarrow> dll m' h pv fs nx = dll m h pv fs nx"
  by (induction fs arbitrary: pv) (auto simp: link_words_def free_block_def)

lemma dll_agree:
  assumes "agree_off (link_words h S) m m'" "S \<inter> set fs = {}" "fits h n" "S \<subseteq> {..<n}" "set fs \<subseteq> {..<n}"
  shows "dll m' h pv fs nx = dll m h pv fs nx"
  using assms(2,5)
proof (induction fs arbitrary: pv)
  case (Cons f fs)
  have f: "f < n" "f \<notin> S" using Cons.prems by auto
  have "\<forall>g\<in>S. fptr h f \<noteq> fptr h g \<and> fptr h f \<noteq> fptr h g + 8 \<and> fptr h f + 8 \<noteq> fptr h g"
  proof
    fix g assume "g \<in> S"
    then have "g < n" "f \<noteq> g" using assms(4) f(2) by auto
    then show "fptr h f \<noteq> fptr h g \<and> fptr h f \<noteq> fptr h g + 8 \<and> fptr h f + 8 \<noteq> fptr h g"
      using fptr_inj[OF assms(3) f(1)] fptr_next_neq[OF assms(3) f(1)] fptr_next_neq'[OF assms(3) f(1)]
      by blast
  qed
  then have "fptr h f \<notin> link_words h S" "fptr h f + 8 \<notin> link_words h S"
    by (auto simp: link_words_def)
  then have "free_block m' (fptr h f) = free_block m (fptr h f)"
    using assms(1) by (simp add: free_block_def agree_off_def)
  with Cons show ?case by simp
qed simp

lemma push_mem_agree:
  "g \<in> S \<Longrightarrow> set fs \<subseteq> S \<Longrightarrow> agree_off (link_words h S) m (push_mem m (fptr h g) (first_link h None fs))"
  by (cases fs) (auto simp: push_mem_def intro!: agree_off_set_prev agree_off_set_next)

lemma unlink_mem_agree:
  "set xs \<subseteq> S \<Longrightarrow> set ys \<subseteq> S \<Longrightarrow>
   agree_off (link_words h S) m (unlink_mem m (last_link h None xs) (first_link h None ys))"
  by (cases xs rule: rev_cases; cases ys)
     (auto simp: unlink_mem_def last_link_def intro!: agree_off_set_prev agree_off_set_next)

end
