(* ===== verification/Heap_Sizes.thy ===== *)
theory Heap_Sizes
  imports Heap Free_List
begin

text \<open>
  The arithmetic of the heap: the power of two that covers a request, the size class and the
  block order it selects, and the layout of the objects in a slab.
\<close>

section \<open>Powers of two\<close>

lemma unat_less_leading: "unat w < 2 ^ (64 - leading_zeros w)"
proof -
  let ?P = "\<lambda>i. \<not> bit w i" and ?xs = "rev [0..<64]"
  have l: "leading_zeros w \<le> 64"
    using length_takeWhile_le[of ?P ?xs] by (simp add: leading_zeros_def)
  have "\<not> bit w n" if n: "64 - leading_zeros w \<le> n" for n
  proof (cases "n < 64")
    case True
    let ?j = "63 - n"
    have j: "?j < length (takeWhile ?P ?xs)" using n True l by (simp add: leading_zeros_def)
    then have "takeWhile ?P ?xs ! ?j = n" using True by (simp add: takeWhile_nth rev_nth)
    with nth_mem[OF j] have "n \<in> set (takeWhile ?P ?xs)" by simp
    then show ?thesis by (blast dest: set_takeWhileD)
  next
    case False
    then show ?thesis using bit_imp_le_length[of w n] by auto
  qed
  then have "take_bit (64 - leading_zeros w) w = w" by (intro bit_eqI) (metis bit_take_bit_iff linorder_not_less)
  then have "take_bit (64 - leading_zeros w) (unat w) = unat w" by (metis unsigned_take_bit_eq)
  then show ?thesis by (simp add: take_bit_nat_eq_self_iff)
qed

lemma trailing_zeros_pow2:
  assumes "k < 64"
  shows "trailing_zeros (2 ^ k) = k"
proof -
  have e: "[0..<64] = [0..<k] @ k # [Suc k..<64]"
    using assms upt_add_eq_append[of 0 k "64 - k"] upt_conv_Cons[of k 64] by simp
  have "takeWhile (\<lambda>i. \<not> bit (2 ^ k :: u64) i) [0..<64] = takeWhile (\<lambda>i. i \<noteq> k) [0..<64]"
    by (rule takeWhile_cong) (use assms in \<open>auto simp: bit_exp_iff\<close>)
  also have "\<dots> = [0..<k]" unfolding e by (subst takeWhile_append2) auto
  finally show ?thesis by (simp add: trailing_zeros_def)
qed

text \<open>The exponent of the power of two that covers \<open>n\<close>.\<close>

definition log2_ceil :: "nat \<Rightarrow> nat" where
  "log2_ceil n = (LEAST k. n \<le> 2 ^ k)"

lemma log2_ceil_le: "log2_ceil n \<le> k \<longleftrightarrow> n \<le> 2 ^ k"
proof
  have "n \<le> 2 ^ n" by (simp add: less_imp_le)
  then have "n \<le> 2 ^ log2_ceil n" unfolding log2_ceil_def by (rule LeastI)
  also assume "log2_ceil n \<le> k"
  then have "(2 :: nat) ^ log2_ceil n \<le> 2 ^ k" by simp
  finally show "n \<le> 2 ^ k" .
qed (simp add: log2_ceil_def Least_le)

lemma log2_ceil_eqI: "n \<le> 2 ^ k \<Longrightarrow> (\<And>j. j < k \<Longrightarrow> 2 ^ j < n) \<Longrightarrow> log2_ceil n = k"
  by (metis leD le_neq_implies_less log2_ceil_le order_refl)

lemma next_power_of_two_eq:
  assumes "unat w \<le> 2 ^ 63"
  shows "next_power_of_two w = Some (2 ^ log2_ceil (unat w))" "log2_ceil (unat w) \<le> 63"
proof -
  show l63: "log2_ceil (unat w) \<le> 63" using assms log2_ceil_le by blast
  show "next_power_of_two w = Some (2 ^ log2_ceil (unat w))"
  proof (cases "unat w \<le> 1")
    case True
    then have "log2_ceil (unat w) = 0" by (intro log2_ceil_eqI) simp_all
    with True show ?thesis by (simp add: next_power_of_two_def word_le_nat_alt add64_alt)
  next
    case False
    define k where "k = 64 - leading_zeros (w - 1)"
    have u: "unat (w - 1) = unat w - 1" using False by (intro unat_minus_one) auto
    then have nz: "w - 1 \<noteq> 0" using False by (metis One_nat_def diff_is_0_eq unat_0)
    note lz = leading_zeros_le[OF nz] unat_less_leading[of "w - 1"]
    have k: "0 < k" "63 - leading_zeros (w - 1) = k - 1" using lz(2) by (simp_all add: k_def)
    have "2 ^ j < unat w" if "j < k" for j
    proof -
      have "(2 :: nat) ^ j \<le> 2 ^ (k - 1)" using that by simp
      also have "\<dots> \<le> unat w - 1" using lz(1) by (simp add: k u)
      finally show ?thesis using False by simp
    qed
    then have c: "log2_ceil (unat w) = k"
      using lz(3) False by (intro log2_ceil_eqI) (simp_all add: u k_def[symmetric])
    then have kk: "k \<le> 63" using l63 by simp
    have d: "leading_zeros (w - 1) = 64 - k" using lz(2) by (simp add: k_def)
    have m: "drop_bit (64 - k) (NOT 0) = (2 ^ k - 1 :: u64)" using kk by (simp add: mask_eq_exp_minus_1)
    have "(2 :: nat) ^ k \<le> 2 ^ 63" by (rule power_increasing[OF kk]) simp
    moreover have "unat (2 ^ k - 1 :: u64) = 2 ^ k - 1" using kk by (simp add: unat_minus_one)
    ultimately have "add64 (2 ^ k - 1) 1 = Some (2 ^ k)" by (subst add64_Some) simp_all
    then show ?thesis using False by (simp add: next_power_of_two_def word_le_nat_alt d c Let_def m del: bit.compl_zero)
  qed
qed


section \<open>Size classes\<close>

lemma unat_max: "unat (max a b :: 'a :: len word) = max (unat a) (unat b)"
  by (simp add: max_def word_le_nat_alt)

definition need_of :: "Layout \<Rightarrow> nat" where
  "need_of l = max (unat (lsize l)) (unat (lalign l))"

lemma bucket_for_eq:
  "bucket_for l = Some (if need_of l \<le> 1024 then Some (log2_ceil (max (need_of l) 16) - 4) else None)"
proof -
  define need where "need = max (max (lsize l) (lalign l)) 16"
  have u: "unat need = max (need_of l) 16" by (simp add: need_def need_of_def unat_max)
  have gt: "need > 1024 \<longleftrightarrow> \<not> need_of l \<le> 1024" by (auto simp: word_less_nat_alt u)
  show ?thesis
  proof (cases "need_of l \<le> 1024")
    case True
    then have p: "next_power_of_two need = Some (2 ^ log2_ceil (unat need))" "log2_ceil (unat need) \<le> 63"
      by (intro next_power_of_two_eq; simp add: u)+
    have "4 \<le> log2_ceil (unat need)" using log2_ceil_le[of "unat need" 3] by (simp add: u)
    then show ?thesis
      using True gt p(1) trailing_zeros_pow2[of "log2_ceil (unat need)"] p(2)
      by (simp add: bucket_for_def need_def[symmetric] Let_def u)
  next
    case False
    then show ?thesis using gt by (simp add: bucket_for_def need_def[symmetric] Let_def)
  qed
qed

lemma div_ceil_frames:
  obtains n where "div_ceil w SLAB_FRAME_SIZE = Some n" "unat n \<le> 2 ^ 52" "\<And>k. unat n \<le> 2 ^ k \<longleftrightarrow> unat w \<le> 2 ^ (k + 12)"
proof -
  have u: "unat (w div 4096) = unat w div 4096" "unat (w mod 4096) = unat w mod 4096"
    by (simp_all add: unat_div unat_mod)
  have lt: "unat w div 4096 < 2 ^ 52" using unat_lt64[of w] by (simp add: div_less_iff_less_mult)
  have c: "(if 0 < a mod 4096 then a div 4096 + 1 else a div 4096) \<le> b \<longleftrightarrow> a \<le> b * 4096" for a b :: nat
  proof -
    have "(if 0 < r then q + 1 else q) \<le> b \<longleftrightarrow> q * 4096 + r \<le> b * 4096" if "r < 4096" for q r :: nat
      using that by auto
    from this[of "a mod 4096" "a div 4096"] show ?thesis by simp
  qed
  define n where "n = (if 0 < w mod 4096 then w div 4096 + 1 else w div 4096)"
  have n: "unat n = (if 0 < unat w mod 4096 then unat w div 4096 + 1 else unat w div 4096)"
    using lt by (simp add: n_def word_less_nat_alt u unat_word_ariths)
  have "div_ceil w SLAB_FRAME_SIZE = Some n"
    using lt by (simp add: div_ceil_def n_def u)
  then show thesis
    using lt c[of "unat w"] by (intro that[of n]) (auto simp: n power_add)
qed

lemma order_for_large_eq:
  "order_for_large l = Some (if need_of l \<le> 2 ^ 23 then Some (log2_ceil (need_of l) - 12) else None)"
proof -
  let ?need = "max (lsize l) (lalign l)"
  have u: "unat ?need = need_of l" by (simp add: need_of_def unat_max)
  obtain n where n: "div_ceil ?need SLAB_FRAME_SIZE = Some n" "unat n \<le> 2 ^ 52"
    and nk: "\<And>k. unat n \<le> 2 ^ k \<longleftrightarrow> need_of l \<le> 2 ^ (k + 12)" using div_ceil_frames[of ?need] unfolding u by metis
  have "log2_ceil (unat n) \<le> k \<longleftrightarrow> log2_ceil (need_of l) - 12 \<le> k" for k
    unfolding log2_ceil_le nk using log2_ceil_le[of "need_of l" "k + 12"] by (simp add: le_diff_conv)
  then have e: "log2_ceil (unat n) = log2_ceil (need_of l) - 12" by (metis order_antisym order_refl)
  have p: "next_power_of_two n = Some (2 ^ log2_ceil (unat n))" "log2_ceil (unat n) \<le> 63"
    using n(2) by (intro next_power_of_two_eq; simp)+
  have "log2_ceil (need_of l) - 12 > MAX_ORDER \<longleftrightarrow> \<not> need_of l \<le> 2 ^ 23"
    using log2_ceil_le[of "need_of l" 23] by auto
  then show ?thesis
    using n(1) p trailing_zeros_pow2[of "log2_ceil (unat n)"]
    by (simp add: order_for_large_def Let_def e)
qed

section \<open>The objects of a slab\<close>

definition slots :: "nat \<Rightarrow> nat" where
  "slots b = 2 ^ (8 - b) - 1"

definition obj :: "u64 \<Rightarrow> nat \<Rightarrow> nat \<Rightarrow> nat \<Rightarrow> u64" where
  "obj h b f i = fptr h f + word_of_nat (Suc i * 2 ^ (4 + b))"

definition objects :: "u64 \<Rightarrow> nat \<Rightarrow> nat \<Rightarrow> u64 set" where
  "objects h b f = obj h b f ` {..<slots b}"

lemma bucket_cases:
  assumes "b < (7 :: nat)"
  obtains "b = 0" | "b = 1" | "b = 2" | "b = 3" | "b = 4" | "b = 5" | "b = 6"
  using assms by linarith

lemma slots_eq: "b < 7 \<Longrightarrow> Suc (slots b) * 2 ^ (4 + b) = 4096"
  by (erule bucket_cases) (simp_all add: slots_def)

lemma obj_offset:
  assumes "b < 7" "i < slots b"
  shows "Suc i * 2 ^ (4 + b) + 2 ^ (4 + b) \<le> 4096" "16 \<le> Suc i * 2 ^ (4 + b)" "Suc i * 2 ^ (4 + b) < 4096"
proof -
  have "Suc (Suc i) * 2 ^ (4 + b) \<le> Suc (slots b) * 2 ^ (4 + b)" using assms(2) by (intro mult_le_mono1) simp
  then show "Suc i * 2 ^ (4 + b) + 2 ^ (4 + b) \<le> 4096" unfolding slots_eq[OF assms(1)] by simp
  moreover have "(0 :: nat) < 2 ^ (4 + b)" by simp
  ultimately show "Suc i * 2 ^ (4 + b) < 4096" by linarith
  have "(2 :: nat) ^ 4 \<le> 2 ^ (4 + b)" by (rule power_increasing) simp_all
  then show "16 \<le> Suc i * 2 ^ (4 + b)" by (simp add: trans_le_add1)
qed

lemma refill_sizes:
  assumes "b < 7"
  shows "idx OBJ_SIZE b = Some (2 ^ (4 + b))" "next_multiple_of size_of_Slab (ucast (2 ^ (4 + b) :: u32)) = Some (2 ^ (4 + b))"
    "sub64 SLAB_FRAME_SIZE (2 ^ (4 + b)) = Some (4096 - 2 ^ (4 + b))"
    "(4096 - 2 ^ (4 + b)) div (ucast (2 ^ (4 + b) :: u32)) = (word_of_nat (slots b) :: u64)"
  by (rule bucket_cases[OF assms]; simp add: OBJ_SIZE_def make_obj_sizes_def next_multiple_of_def
      slots_def idx_def word_le_nat_alt)+

end
