(* ===== verification/Buddy.thy ===== *)
theory Buddy
  imports Main
begin

text \<open>
  The combinatorics of a binary buddy system, on plain naturals.  A labelling
  \<open>L :: nat \<Rightarrow> nat option\<close> gives each frame the order of the free block it lies in, or
  \<open>None\<close> when it is in use; the kernel keeps it in \<open>Pmm.frame_order\<close>.  The theory
  shows that a fully merged labelling is determined by its set of free frames
  (\<open>coalesced_unique\<close>) and that it has a block of order \<open>k\<close> wherever there is a free
  aligned run of \<open>2 ^ k\<close> frames (\<open>coalesced_complete\<close>).
\<close>

section \<open>Aligned runs\<close>

definition run :: "nat \<Rightarrow> nat \<Rightarrow> nat set" where
  "run f k = {f..<f + 2 ^ k}"

definition buddy_of :: "nat \<Rightarrow> nat \<Rightarrow> nat" where
  "buddy_of f k = (if even (f div 2 ^ k) then f + 2 ^ k else f - 2 ^ k)"

definition align_to :: "nat \<Rightarrow> nat \<Rightarrow> nat" where
  "align_to i k = i - i mod 2 ^ k"

lemma dvd_less_add_le:
  fixes d :: nat
  assumes "d dvd x" "d dvd y" "x < y + d"
  shows "x \<le> y"
proof -
  obtain a b where "x = d * a" "y = d * b" using assms(1,2) by (auto elim!: dvdE)
  moreover from this assms(3) have "d * a < d * (b + 1)" by simp
  then have "a \<le> b" by (metis Suc_eq_plus1 less_Suc_eq_le mult_less_cancel1)
  ultimately show ?thesis by simp
qed

lemma mem_run: "i \<in> run f k \<longleftrightarrow> f \<le> i \<and> i < f + 2 ^ k"
  by (simp add: run_def)

lemma run_start [simp]: "f \<in> run f k"
  by (simp add: run_def)

lemma finite_run [simp]: "finite (run f k)"
  by (simp add: run_def)

lemma card_run [simp]: "card (run f k) = 2 ^ k"
  by (simp add: run_def)

lemma run_nested:
  assumes "2 ^ a dvd f" "2 ^ b dvd g" "a \<le> b" "i \<in> run f a" "i \<in> run g b"
  shows "run f a \<subseteq> run g b"
proof -
  have d: "(2::nat) ^ a dvd 2 ^ b" using assms(3) by (rule le_imp_power_dvd)
  then have dg: "2 ^ a dvd g" using assms(2) by (rule dvd_trans)
  then have dge: "2 ^ a dvd g + 2 ^ b" using d by (rule dvd_add)
  have "g \<le> f"
    by (rule dvd_less_add_le[OF dg assms(1)]) (use assms(4,5) in \<open>auto simp: mem_run\<close>)
  moreover have "f + 2 ^ a \<le> g + 2 ^ b"
    by (rule dvd_less_add_le[OF _ dge]) (use assms in \<open>auto simp: mem_run\<close>)
  ultimately show ?thesis by (auto simp: run_def)
qed

lemma run_same_order:
  assumes "2 ^ k dvd f" "2 ^ k dvd g" "i \<in> run f k" "i \<in> run g k"
  shows "f = g"
  using run_nested[OF assms(1,2) order_refl assms(3,4)]
    run_nested[OF assms(2,1) order_refl assms(4,3)]
  by (auto simp: run_def)

lemma align_to_dvd [simp]: "2 ^ k dvd align_to i k"
  by (simp add: align_to_def)

lemma align_to_run [simp]: "i \<in> run (align_to i k) k"
proof -
  have "i mod 2 ^ k < 2 ^ k" "i mod 2 ^ k \<le> i" by simp_all
  then have "i < i - i mod 2 ^ k + 2 ^ k" by linarith
  then show ?thesis by (simp add: align_to_def mem_run)
qed

lemma align_to_eq: "2 ^ k dvd f \<Longrightarrow> i \<in> run f k \<Longrightarrow> align_to i k = f"
  by (rule run_same_order[of k _ _ i]) auto

section \<open>Buddies\<close>

lemma buddy_dvd:
  assumes "2 ^ k dvd f" shows "2 ^ k dvd buddy_of f k"
  using assms by (auto simp: buddy_of_def dvd_diff_nat)

lemma buddy_neq: "2 ^ k dvd f \<Longrightarrow> buddy_of f k \<noteq> f"
proof -
  have "(0::nat) < 2 ^ k" by simp
  then show ?thesis by (cases "f = 0") (auto simp: buddy_of_def intro!: diff_less less_imp_neq)
qed

lemma buddy_cases:
  assumes "2 ^ k dvd f"
  obtains (low) "2 ^ Suc k dvd f" "buddy_of f k = f + 2 ^ k" "align_to f (Suc k) = f"
  | (high) g where "f = g + 2 ^ k" "2 ^ Suc k dvd g" "buddy_of f k = g" "align_to f (Suc k) = g"
proof -
  from assms obtain q where q: "f = 2 ^ k * q" ..
  show thesis
  proof (cases "even q")
    case True
    then have "2 ^ Suc k dvd f" by (auto simp: q elim!: evenE)
    moreover from this have "align_to f (Suc k) = f"
      by (intro align_to_eq) auto
    ultimately show thesis using True by (intro low) (auto simp: buddy_of_def q)
  next
    case False
    then obtain r where r: "q = 2 * r + 1" by (elim oddE)
    have "2 ^ Suc k dvd 2 ^ Suc k * r" by simp
    moreover have "f = 2 ^ Suc k * r + 2 ^ k" by (simp add: q r algebra_simps)
    moreover from this have "align_to f (Suc k) = 2 ^ Suc k * r"
      by (intro align_to_eq) (auto simp: mem_run)
    ultimately show thesis using False by (intro high) (auto simp: buddy_of_def q)
  qed
qed

lemma buddy_of_low: "2 ^ Suc k dvd f \<Longrightarrow> buddy_of (f + 2 ^ k) k = f"
proof -
  assume a: "2 ^ Suc k dvd f"
  then obtain q where "f = 2 ^ Suc k * q" ..
  then have "(f + 2 ^ k) div 2 ^ k = 2 * q + 1" by simp
  then show ?thesis by (simp add: buddy_of_def)
qed

lemma run_split: "run f (Suc k) = run f k \<union> run (f + 2 ^ k) k"
  by (auto simp: run_def)

lemma run_split_disjoint: "run f k \<inter> run (f + 2 ^ k) k = {}"
  by (auto simp: run_def)

lemma run_buddy:
  assumes "2 ^ k dvd f"
  shows "run (align_to f (Suc k)) (Suc k) = run f k \<union> run (buddy_of f k) k"
    and "run f k \<inter> run (buddy_of f k) k = {}"
proof -
  show "run (align_to f (Suc k)) (Suc k) = run f k \<union> run (buddy_of f k) k"
    using assms by (cases rule: buddy_cases) (simp_all add: run_split Un_commute)
  show "run f k \<inter> run (buddy_of f k) k = {}"
    using assms by (cases rule: buddy_cases) (auto simp: run_def)
qed

section \<open>Labellings\<close>

type_synonym labelling = "nat \<Rightarrow> nat option"

definition is_block :: "labelling \<Rightarrow> nat \<Rightarrow> nat \<Rightarrow> bool" where
  "is_block L f k \<longleftrightarrow> 2 ^ k dvd f \<and> (\<forall>i\<in>run f k. L i = Some k)"

definition buddy_wf :: "nat \<Rightarrow> labelling \<Rightarrow> bool" where
  "buddy_wf K L \<longleftrightarrow> (\<forall>i k. L i = Some k \<longrightarrow> k \<le> K \<and> is_block L (align_to i k) k)"

definition coalesced :: "nat \<Rightarrow> labelling \<Rightarrow> bool" where
  "coalesced K L \<longleftrightarrow> (\<forall>f k. k < K \<longrightarrow> is_block L f k \<longrightarrow> \<not> is_block L (buddy_of f k) k)"

definition put_block :: "labelling \<Rightarrow> nat \<Rightarrow> nat \<Rightarrow> labelling" where
  "put_block L f k = (\<lambda>i. if i \<in> run f k then Some k else L i)"

definition take_block :: "labelling \<Rightarrow> nat \<Rightarrow> nat \<Rightarrow> labelling" where
  "take_block L f k = (\<lambda>i. if i \<in> run f k then None else L i)"

lemma is_block_dom: "is_block L f k \<Longrightarrow> run f k \<subseteq> dom L"
  by (auto simp: is_block_def)

lemma is_block_start: "is_block L f k \<Longrightarrow> L f = Some k"
  by (simp add: is_block_def)

lemma wf_block: "buddy_wf K L \<Longrightarrow> L i = Some k \<Longrightarrow> is_block L (align_to i k) k"
  by (simp add: buddy_wf_def)

lemma wf_le: "buddy_wf K L \<Longrightarrow> L i = Some k \<Longrightarrow> k \<le> K"
  by (simp add: buddy_wf_def)

lemma wf_block_start:
  assumes "buddy_wf K L" "2 ^ k dvd f" "L f = Some k"
  shows "is_block L f k"
  using wf_block[OF assms(1,3)] align_to_eq[OF assms(2), of f] by simp

lemma is_block_inter:
  assumes "is_block L f k" "is_block L g j" "run f k \<inter> run g j \<noteq> {}"
  shows "f = g \<and> k = j"
proof -
  from assms(3) obtain i where i: "i \<in> run f k" "i \<in> run g j" by auto
  with assms(1,2) have "k = j" by (auto simp: is_block_def)
  with i assms(1,2) run_same_order[of k f g i] show ?thesis by (auto simp: is_block_def)
qed

lemma dom_put_block [simp]: "dom (put_block L f k) = dom L \<union> run f k"
  by (auto simp: put_block_def dom_def)

lemma dom_take_block [simp]: "dom (take_block L f k) = dom L - run f k"
  by (auto simp: take_block_def dom_def)

lemma is_block_put:
  assumes "2 ^ k dvd f" "run f k \<inter> dom L = {}"
  shows "is_block (put_block L f k) g j \<longleftrightarrow> (g = f \<and> j = k) \<or> is_block L g j"
proof
  assume b: "is_block (put_block L f k) g j"
  show "(g = f \<and> j = k) \<or> is_block L g j"
  proof (cases "run g j \<inter> run f k = {}")
    case True
    then have "\<forall>i\<in>run g j. put_block L f k i = L i" by (auto simp: put_block_def)
    with b show ?thesis by (simp add: is_block_def)
  next
    case False
    have "is_block (put_block L f k) f k" using assms(1) by (simp add: is_block_def put_block_def)
    from is_block_inter[OF b this False] show ?thesis by simp
  qed
next
  assume "(g = f \<and> j = k) \<or> is_block L g j"
  then show "is_block (put_block L f k) g j"
  proof
    assume "g = f \<and> j = k"
    with assms(1) show ?thesis by (simp add: is_block_def put_block_def)
  next
    assume "is_block L g j"
    with assms(2) show ?thesis by (fastforce simp: is_block_def put_block_def)
  qed
qed

lemma is_block_take:
  assumes "is_block L f k"
  shows "is_block (take_block L f k) g j \<longleftrightarrow> is_block L g j \<and> (g, j) \<noteq> (f, k)"
proof
  assume b: "is_block (take_block L f k) g j"
  then have "run g j \<inter> run f k = {}" by (auto simp: is_block_def take_block_def)
  moreover from this have "\<forall>i\<in>run g j. take_block L f k i = L i" by (auto simp: take_block_def)
  with b have "is_block L g j" by (simp add: is_block_def)
  ultimately show "is_block L g j \<and> (g, j) \<noteq> (f, k)" by (metis Int_absorb emptyE prod.inject run_start)
next
  assume b: "is_block L g j \<and> (g, j) \<noteq> (f, k)"
  then have "run g j \<inter> run f k = {}" using is_block_inter[OF _ assms, of g j] by auto
  with b show "is_block (take_block L f k) g j" by (auto simp: is_block_def take_block_def)
qed

lemma wf_put:
  assumes "buddy_wf K L" "2 ^ k dvd f" "k \<le> K" "run f k \<inter> dom L = {}"
  shows "buddy_wf K (put_block L f k)"
  unfolding buddy_wf_def
proof (intro allI impI)
  fix i j assume ij: "put_block L f k i = Some j"
  show "j \<le> K \<and> is_block (put_block L f k) (align_to i j) j"
  proof (cases "i \<in> run f k")
    case True
    with ij have "j = k" by (simp add: put_block_def)
    moreover from True have "align_to i k = f" by (intro align_to_eq assms)
    ultimately show ?thesis using assms by (simp add: is_block_put)
  next
    case False
    with ij have "L i = Some j" by (simp add: put_block_def)
    with assms show ?thesis by (auto simp: is_block_put wf_le wf_block)
  qed
qed

lemma wf_take:
  assumes "buddy_wf K L" "is_block L f k"
  shows "buddy_wf K (take_block L f k)"
  unfolding buddy_wf_def
proof (intro allI impI)
  fix i j assume ij: "take_block L f k i = Some j"
  then have i: "i \<notin> run f k" "L i = Some j" by (auto simp: take_block_def split: if_splits)
  then have "(align_to i j, j) \<noteq> (f, k)" using align_to_run[of i j] by auto
  then show "j \<le> K \<and> is_block (take_block L f k) (align_to i j) j"
    using assms i by (auto simp: is_block_take wf_le wf_block)
qed

lemma coalesced_take: "coalesced K L \<Longrightarrow> is_block L f k \<Longrightarrow> coalesced K (take_block L f k)"
  by (auto simp: coalesced_def is_block_take)

lemma buddy_of_involution: "2 ^ k dvd f \<Longrightarrow> buddy_of (buddy_of f k) k = f"
proof (erule buddy_cases)
  assume "2 ^ Suc k dvd f" "buddy_of f k = f + 2 ^ k"
  then show "buddy_of (buddy_of f k) k = f" by (simp add: buddy_of_low del: power_Suc)
next
  fix g assume g: "f = g + 2 ^ k" "2 ^ Suc k dvd g" "buddy_of f k = g"
  then have "even (g div 2 ^ k)" by (auto elim!: dvdE)
  with g show "buddy_of (buddy_of f k) k = f" by (simp add: buddy_of_def)
qed

lemma coalesced_put:
  assumes "coalesced K L" "2 ^ k dvd f" "run f k \<inter> dom L = {}"
    and "k < K \<Longrightarrow> \<not> is_block L (buddy_of f k) k"
  shows "coalesced K (put_block L f k)"
  unfolding coalesced_def
proof (intro allI impI)
  fix g j assume j: "j < K" and g: "is_block (put_block L f k) g j"
  have "2 ^ j dvd g" using g by (simp add: is_block_def)
  show "\<not> is_block (put_block L f k) (buddy_of g j) j"
  proof
    assume b: "is_block (put_block L f k) (buddy_of g j) j"
    have "is_block L g j \<or> is_block L (buddy_of g j) j"
      using g b buddy_neq[OF \<open>2 ^ j dvd g\<close>] assms(2,3) by (auto simp: is_block_put)
    with g b j assms buddy_of_involution[OF \<open>2 ^ j dvd g\<close>] show False
      by (auto simp: is_block_put coalesced_def)
  qed
qed

section \<open>A fully merged labelling is complete and unique\<close>

theorem coalesced_complete:
  assumes "buddy_wf K L" "coalesced K L" "k \<le> K" "2 ^ k dvd f" "run f k \<subseteq> dom L"
  shows "\<exists>i\<in>run f k. \<exists>j\<ge>k. L i = Some j"
  using assms(3-)
proof (induction k arbitrary: f)
  case 0
  then have "f \<in> dom L" by (auto simp: run_def)
  then show ?case by (auto simp: run_def)
next
  case (Suc k)
  have lo: "2 ^ k dvd f" and hi: "2 ^ k dvd f + 2 ^ k"
    using Suc.prems(2) by (auto intro: dvd_trans[OF le_imp_power_dvd])
  have "k \<le> K" using Suc.prems(1) by simp
  obtain i j where i: "i \<in> run f k" "k \<le> j" "L i = Some j"
    using Suc.IH[OF \<open>k \<le> K\<close> lo] Suc.prems(3) by (auto simp: run_split)
  obtain i' j' where i': "i' \<in> run (f + 2 ^ k) k" "k \<le> j'" "L i' = Some j'"
    using Suc.IH[OF \<open>k \<le> K\<close> hi] Suc.prems(3) by (auto simp: run_split)
  show ?case
  proof (cases "j = k \<and> j' = k")
    case True
    then have "is_block L f k" "is_block L (f + 2 ^ k) k"
      using wf_block[OF assms(1) i(3)] wf_block[OF assms(1) i'(3)]
        align_to_eq[OF lo i(1)] align_to_eq[OF hi i'(1)] by auto
    moreover have "buddy_of (f + 2 ^ k) k = f" using Suc.prems(2) by (rule buddy_of_low)
    ultimately have False
      using assms(2) Suc.prems(1) unfolding coalesced_def by (metis Suc_le_eq)
    then show ?thesis ..
  next
    case False
    then have "Suc k \<le> j \<or> Suc k \<le> j'" using i(2) i'(2) by auto
    then show ?thesis using i i' by (auto simp: run_split)
  qed
qed

lemma coalesced_label_le:
  assumes "buddy_wf K L" "coalesced K L" "buddy_wf K L'" "dom L' \<subseteq> dom L" "L' i = Some k"
  shows "\<exists>j\<ge>k. L i = Some j"
proof -
  have b: "is_block L' (align_to i k) k" "k \<le> K" using assms by (auto simp: wf_block wf_le)
  then have "run (align_to i k) k \<subseteq> dom L" using is_block_dom assms(4) by blast
  then obtain n j where n: "n \<in> run (align_to i k) k" "k \<le> j" "L n = Some j"
    using coalesced_complete[OF assms(1,2) b(2) align_to_dvd] by blast
  then have bn: "is_block L (align_to n j) j" using assms(1) by (simp add: wf_block)
  have "run (align_to i k) k \<subseteq> run (align_to n j) j"
    by (rule run_nested[OF align_to_dvd align_to_dvd n(2,1) align_to_run])
  then have "i \<in> run (align_to n j) j" using align_to_run by blast
  with bn n(2) show ?thesis by (auto simp: is_block_def)
qed

theorem coalesced_unique:
  assumes "buddy_wf K L" "coalesced K L" "buddy_wf K L'" "coalesced K L'" "dom L = dom L'"
  shows "L = L'"
proof
  fix i
  show "L i = L' i"
  proof (cases "i \<in> dom L")
    case True
    with assms(5) obtain k k' where k: "L i = Some k" "L' i = Some k'" by blast
    have "k' \<le> k" using coalesced_label_le[OF assms(1,2,3) _ k(2)] k(1) assms(5) by auto
    moreover have "k \<le> k'" using coalesced_label_le[OF assms(3,4,1) _ k(1)] k(2) assms(5) by auto
    ultimately show ?thesis using k by simp
  next
    case False
    with assms(5) show ?thesis by (metis domIff)
  qed
qed

end
