(* ===== verification/Frame_Interface.thy ===== *)
theory Frame_Interface
  imports Free_List Buddy
begin

text \<open>
  The contract between the physical allocator and its clients (the page-table code and
  the heap): a locale with the two operations, the invariant, the frames that exist and
  the frames that are free.  Inside it, the ownership theorem for any sequence of calls
  a client makes: the blocks it holds never overlap each other or a free frame, no frame
  is lost, and every block it holds can be released.  The locale \<open>page_memory\<close> adds what a
  client that keeps data in its frames relies on: the allocator never writes to a frame
  that is in use, and it does not care what its clients write there.
\<close>

definition frame_of :: "u64 \<Rightarrow> nat" where
  "frame_of a = unat a div 4096"

definition block_frames :: "u64 \<times> nat \<Rightarrow> nat set" where
  "block_frames b = run (frame_of (fst b)) (snd b)"

text \<open>
  The runs of a client: it allocates, is refused, or releases a block it holds.  The set
  collects the blocks (address and order) the client holds.
\<close>

inductive client_run ::
    "('s \<Rightarrow> nat \<Rightarrow> (u64 option \<times> 's) option) \<Rightarrow> ('s \<Rightarrow> u64 \<Rightarrow> nat \<Rightarrow> 's option) \<Rightarrow> nat \<Rightarrow>
     's \<Rightarrow> 's \<Rightarrow> (u64 \<times> nat) set \<Rightarrow> bool"
  for alloc and release and K and s0 where
  start: "client_run alloc release K s0 s0 {}"
| allocate: "client_run alloc release K s0 s H \<Longrightarrow> k \<le> K \<Longrightarrow> alloc s k = Some (Some a, s') \<Longrightarrow>
     client_run alloc release K s0 s' (insert (a, k) H)"
| refuse: "client_run alloc release K s0 s H \<Longrightarrow> k \<le> K \<Longrightarrow> alloc s k = Some (None, s') \<Longrightarrow>
     client_run alloc release K s0 s' H"
| give_back: "client_run alloc release K s0 s H \<Longrightarrow> (a, k) \<in> H \<Longrightarrow> release s a k = Some s' \<Longrightarrow>
     client_run alloc release K s0 s' (H - {(a, k)})"

definition separate :: "(u64 \<times> nat) set \<Rightarrow> bool" where
  "separate H \<longleftrightarrow> (\<forall>b\<in>H. \<forall>c\<in>H. b \<noteq> c \<longrightarrow> block_frames b \<inter> block_frames c = {})"

locale page_allocator =
  fixes alloc :: "'s \<Rightarrow> nat \<Rightarrow> (u64 option \<times> 's) option"
    and release :: "'s \<Rightarrow> u64 \<Rightarrow> nat \<Rightarrow> 's option"
    and inv :: "'s \<Rightarrow> bool"
    and frames :: "'s \<Rightarrow> nat set"
    and avail :: "'s \<Rightarrow> nat set"
    and K :: nat
  assumes alloc_total: "inv s \<Longrightarrow> k \<le> K \<Longrightarrow> \<exists>r s'. alloc s k = Some (r, s')"
    and alloc_refused: "inv s \<Longrightarrow> k \<le> K \<Longrightarrow> alloc s k = Some (None, s') \<Longrightarrow>
      s' = s \<and> (\<forall>f. 2 ^ k dvd f \<longrightarrow> \<not> run f k \<subseteq> avail s)"
    and alloc_granted: "inv s \<Longrightarrow> k \<le> K \<Longrightarrow> alloc s k = Some (Some a, s') \<Longrightarrow>
      inv s' \<and> frames s' = frames s \<and> 4096 dvd unat a \<and> 2 ^ k dvd frame_of a \<and>
      run (frame_of a) k \<subseteq> avail s \<and> avail s' = avail s - run (frame_of a) k"
    and release_ok: "inv s \<Longrightarrow> k \<le> K \<Longrightarrow> 4096 dvd unat a \<Longrightarrow> 2 ^ k dvd frame_of a \<Longrightarrow>
      run (frame_of a) k \<subseteq> frames s - avail s \<Longrightarrow>
      \<exists>s'. release s a k = Some s' \<and> inv s' \<and> frames s' = frames s \<and>
           avail s' = avail s \<union> run (frame_of a) k"
    and avail_frames: "inv s \<Longrightarrow> avail s \<subseteq> frames s"
begin

definition holds :: "'s \<Rightarrow> 's \<Rightarrow> (u64 \<times> nat) set \<Rightarrow> bool" where
  "holds s0 s H \<longleftrightarrow> inv s \<and> frames s = frames s0 \<and> separate H \<and>
     (\<forall>(a, k)\<in>H. k \<le> K \<and> 4096 dvd unat a \<and> 2 ^ k dvd frame_of a) \<and>
     (\<Union>b\<in>H. block_frames b) \<inter> avail s = {} \<and>
     avail s \<union> (\<Union>b\<in>H. block_frames b) = avail s0"

lemma holds_alloc:
  assumes h: "holds s0 s H" and k: "k \<le> K" and al: "alloc s k = Some (Some a, s')"
  shows "holds s0 s' (insert (a, k) H)"
proof -
  have i: "inv s" using h by (simp add: holds_def)
  note g = alloc_granted[OF i k al]
  have new: "block_frames (a, k) \<subseteq> avail s" using g by (simp add: block_frames_def)
  have old: "\<forall>b\<in>H. block_frames b \<inter> block_frames (a, k) = {}" using h new by (auto simp: holds_def)
  have "separate (insert (a, k) H)" using h old by (auto simp: holds_def separate_def)
  moreover have "avail s' = avail s - block_frames (a, k)" using g by (simp add: block_frames_def)
  ultimately show ?thesis using h g k new by (auto simp: holds_def)
qed

lemma holds_releasable:
  assumes h: "holds s0 s H" and b: "(a, k) \<in> H" and i0: "inv s0"
  shows "\<exists>s'. release s a k = Some s' \<and> holds s0 s' (H - {(a, k)})"
proof -
  define B where "B = block_frames (a, k)"
  define U where "U = (\<Union>b\<in>H - {(a, k)}. block_frames b)"
  have hb: "inv s" "frames s = frames s0" "separate H" "k \<le> K" "4096 dvd unat a" "2 ^ k dvd frame_of a"
    and wf: "\<forall>(a, k)\<in>H. k \<le> K \<and> 4096 dvd unat a \<and> 2 ^ k dvd frame_of a"
    using h b by (auto simp: holds_def)
  have HU: "(\<Union>b\<in>H. block_frames b) = B \<union> U" using b unfolding B_def U_def by blast
  have U: "(B \<union> U) \<inter> avail s = {}" "avail s \<union> (B \<union> U) = avail s0"
    using h unfolding holds_def HU by blast+
  have "\<forall>c\<in>H - {(a, k)}. block_frames c \<inter> B = {}"
    using hb(3) b unfolding separate_def B_def by blast
  then have BU: "U \<inter> B = {}" unfolding U_def by blast
  have "B \<subseteq> frames s - avail s" using U avail_frames[OF i0] unfolding hb(2) by blast
  then have own: "run (frame_of a) k \<subseteq> frames s - avail s" by (simp add: B_def block_frames_def)
  from release_ok[OF hb(1,4,5,6) own] obtain s' where
    s': "release s a k = Some s'" "inv s'" "frames s' = frames s" "avail s' = avail s \<union> B"
    unfolding B_def block_frames_def fst_conv snd_conv by blast
  have "U \<inter> avail s' = {}" "avail s' \<union> U = avail s0" using U BU unfolding s'(4) by blast+
  moreover have "separate (H - {(a, k)})" using hb(3) unfolding separate_def by blast
  moreover have "\<forall>(a, k)\<in>H - {(a, k)}. k \<le> K \<and> 4096 dvd unat a \<and> 2 ^ k dvd frame_of a"
    using wf by blast
  ultimately have "holds s0 s' (H - {(a, k)})"
    unfolding holds_def U_def[symmetric] using s'(2,3) hb(2) by simp
  with s'(1) show ?thesis by blast
qed

theorem client_holds:
  assumes "client_run alloc release K s0 s H" "inv s0"
  shows "holds s0 s H"
  using assms
proof (induction rule: client_run.induct)
  case start
  then show ?case by (simp add: holds_def separate_def)
next
  case (allocate s H k a s')
  then show ?case by (blast intro: holds_alloc)
next
  case (refuse s H k s')
  then have "s' = s" using alloc_refused by (auto simp: holds_def)
  with refuse show ?case by simp
next
  case (give_back s H a k s')
  then show ?case using holds_releasable by fastforce
qed

theorem client_owns:
  assumes "client_run alloc release K s0 s H" "inv s0"
  shows "separate H \<and> (\<forall>b\<in>H. block_frames b \<inter> avail s = {}) \<and>
    avail s \<union> (\<Union>b\<in>H. block_frames b) = avail s0 \<and>
    (\<forall>(a, k)\<in>H. \<exists>s'. release s a k = Some s')"
proof (intro conjI)
  note h = client_holds[OF assms]
  show "\<forall>(a, k)\<in>H. \<exists>s'. release s a k = Some s'"
    using holds_releasable[OF h _ assms(2)] by blast
qed (use client_holds[OF assms] in \<open>auto simp: holds_def\<close>)

end

section \<open>Memory of the frames\<close>

definition frame_words :: "u64 \<Rightarrow> nat set \<Rightarrow> u64 set" where
  "frame_words h S = {fptr h f + word_of_nat j | f j. f \<in> S \<and> j < 4096}"

lemma frame_words_mem: "f \<in> S \<Longrightarrow> j < 4096 \<Longrightarrow> fptr h f + word_of_nat j \<in> frame_words h S"
  by (auto simp: frame_words_def)

lemma frame_words_mono: "S \<subseteq> T \<Longrightarrow> frame_words h S \<subseteq> frame_words h T"
  by (auto simp: frame_words_def)

lemma frame_words_Un: "frame_words h (S \<union> T) = frame_words h S \<union> frame_words h T"
  by (auto simp: frame_words_def)

lemma link_words_frame_words: "link_words h S \<subseteq> frame_words h S"
  using frame_words_mem[of _ S 0 h] frame_words_mem[of _ S 8 h] by (auto simp: link_words_def)

lemma frame_word_iff:
  assumes "fits h n" "S \<subseteq> {..<n}" "f < n" "j < 4096"
  shows "fptr h f + word_of_nat j \<in> frame_words h S \<longleftrightarrow> f \<in> S"
proof
  assume "fptr h f + word_of_nat j \<in> frame_words h S"
  then obtain g k where g: "fptr h f + word_of_nat j = fptr h g + word_of_nat k" "g \<in> S" "k < 4096"
    unfolding frame_words_def by blast
  then have "g < n" using assms(2) by blast
  with g fptr_off_inj[OF assms(1,3) _ assms(4), of g k] show "f \<in> S" by simp
qed (use assms in \<open>simp add: frame_words_mem\<close>)

lemma frame_words_disjoint:
  assumes "fits h n" "S \<subseteq> {..<n}" "T \<subseteq> {..<n}" "S \<inter> T = {}"
  shows "frame_words h S \<inter> frame_words h T = {}"
proof -
  have "a \<notin> frame_words h T" if a: "a \<in> frame_words h S" for a
  proof -
    obtain f j where "a = fptr h f + word_of_nat j" "f \<in> S" "j < 4096"
      using a unfolding frame_words_def by blast
    with assms frame_word_iff[OF assms(1,3), of f j] show ?thesis by blast
  qed
  then show ?thesis by blast
qed

locale page_memory = page_allocator alloc release ok frames avail K
  for alloc :: "'a kernel_scheme \<Rightarrow> nat \<Rightarrow> (u64 option \<times> 'a kernel_scheme) option"
    and release :: "'a kernel_scheme \<Rightarrow> u64 \<Rightarrow> nat \<Rightarrow> 'a kernel_scheme option"
    and ok frames avail K +
  fixes total :: "'a kernel_scheme \<Rightarrow> nat" and hhdm :: "'a kernel_scheme \<Rightarrow> u64"
  assumes frames_fit: "ok s \<Longrightarrow> frames s = {..<total s} \<and> fits (hhdm s) (total s)"
    and alloc_mem: "ok s \<Longrightarrow> k \<le> K \<Longrightarrow> alloc s k = Some (Some a, s') \<Longrightarrow>
      hhdm s' = hhdm s \<and> total s' = total s \<and> kernel.more s' = kernel.more s \<and>
      agree_off (frame_words (hhdm s) (avail s)) (kmem s) (kmem s')"
    and release_mem: "ok s \<Longrightarrow> release s a k = Some s' \<Longrightarrow>
      hhdm s' = hhdm s \<and> total s' = total s \<and> kernel.more s' = kernel.more s \<and>
      agree_off (frame_words (hhdm s) (avail s')) (kmem s) (kmem s')"
    and ok_write: "ok s \<Longrightarrow> PMM s' = PMM s \<Longrightarrow>
      (\<forall>a\<in>frame_words (hhdm s) (avail s). kmem s' a = kmem s a) \<Longrightarrow>
      ok s' \<and> avail s' = avail s \<and> total s' = total s \<and> hhdm s' = hhdm s"
begin

text \<open>A single frame: granted as soon as any frame is free.\<close>

lemma avail_total: "ok s \<Longrightarrow> avail s \<subseteq> {..<total s}"
  using avail_frames frames_fit by blast

lemma finite_avail: "ok s \<Longrightarrow> finite (avail s)"
  using avail_total finite_subset by blast

lemma alloc_one_cases:
  assumes "ok s"
  obtains (none) "alloc s 0 = Some (None, s)" "avail s = {}"
  | (one) a s' where "alloc s 0 = Some (Some a, s')" "ok s'" "4096 dvd unat a" "frame_of a \<in> avail s"
      "avail s' = avail s - {frame_of a}" "total s' = total s" "hhdm s' = hhdm s"
      "kernel.more s' = kernel.more s" "agree_off (frame_words (hhdm s) (avail s)) (kmem s) (kmem s')"
proof -
  have r0: "run f 0 = {f}" for f by (auto simp: run_def)
  obtain r s' where r: "alloc s 0 = Some (r, s')" using alloc_total[OF assms] by blast
  show thesis
  proof (cases r)
    case None
    then have "s' = s" "avail s = {}" using alloc_refused[OF assms, of 0 s'] r by (auto simp: r0)
    with None r show thesis by (intro none) simp_all
  next
    case (Some a)
    then show thesis using alloc_granted[OF assms, of 0 a s'] alloc_mem[OF assms, of 0 a s'] r
      by (intro one[of a s']) (auto simp: r0)
  qed
qed

lemma release_one:
  assumes "ok s" "4096 dvd unat a" "frame_of a < total s" "frame_of a \<notin> avail s"
  obtains s' where "release s a 0 = Some s'" "ok s'" "avail s' = insert (frame_of a) (avail s)"
    "total s' = total s" "hhdm s' = hhdm s" "kernel.more s' = kernel.more s"
    "agree_off (frame_words (hhdm s) (insert (frame_of a) (avail s))) (kmem s) (kmem s')"
proof -
  have r0: "run f 0 = {f}" for f by (auto simp: run_def)
  obtain s' where s': "release s a 0 = Some s'" "ok s'" "avail s' = insert (frame_of a) (avail s)"
    using release_ok[OF assms(1), of 0 a] assms frames_fit[OF assms(1)] by (auto simp: r0)
  with release_mem[OF assms(1) s'(1)] show thesis by (intro that[of s']) auto
qed

end

end
