(* ===== verification/Heap_Lists.thy ===== *)
theory Heap_Lists
  imports Heap_Sizes Frame_Interface
begin

text \<open>
  The data structure of the heap: the chains of free objects inside the slabs and of partly
  used slabs, and the invariant that ties both to the set of objects in use.  Everything here
  is about a memory and the two arrays of \<open>HeapInner\<close>; the kernel state comes in later.
\<close>

section \<open>Chains\<close>

primrec chain :: "mem \<Rightarrow> u64 \<Rightarrow> u64 list \<Rightarrow> bool" where
  "chain m w [] \<longleftrightarrow> w = 0"
| "chain m w (x # xs) \<longleftrightarrow> w = x \<and> x \<noteq> 0 \<and> chain m (m x) xs"

lemma chain_same: "\<forall>x\<in>set xs. m' x = m x \<Longrightarrow> chain m' w xs \<longleftrightarrow> chain m w xs"
  by (induction xs arbitrary: w) auto

lemma chain_0 [simp]: "chain m 0 xs \<longleftrightarrow> xs = []"
  by (cases xs) auto

lemma chain_nonnull: "chain m w xs \<Longrightarrow> w \<noteq> 0 \<Longrightarrow> \<exists>ys. xs = w # ys \<and> chain m (m w) ys"
  by (cases xs) auto

section \<open>Geometry of a slab\<close>

lemma objectsE:
  assumes "x \<in> objects h b f" "b < 7"
  obtains k where "x = fptr h f + word_of_nat k" "16 \<le> k" "k + 2 ^ (4 + b) \<le> 4096" "k < 4096" "2 ^ (4 + b) dvd k"
proof -
  obtain i where "i < slots b" "x = fptr h f + word_of_nat (Suc i * 2 ^ (4 + b))"
    using assms(1) unfolding objects_def obj_def by blast
  with obj_offset[OF assms(2), of i] that[of "Suc i * 2 ^ (4 + b)"] dvd_triv_right[of "2 ^ (4 + b)" "Suc i"]
  show thesis by blast
qed

lemma objects_frame_words:
  assumes "b < 7" "f \<in> S"
  shows "objects h b f \<subseteq> frame_words h S"
proof
  fix x assume "x \<in> objects h b f"
  then show "x \<in> frame_words h S" using assms(1) by (rule objectsE) (use assms(2) in \<open>blast intro: frame_words_mem\<close>)
qed

lemma header_frame_words: "f \<in> S \<Longrightarrow> fptr h f \<in> frame_words h S" "f \<in> S \<Longrightarrow> fptr h f + 8 \<in> frame_words h S"
  using frame_words_mem[of f S 0 h] frame_words_mem[of f S 8 h] by simp_all

lemma obj_inj:
  assumes "fits h n" "f < n" "b < 7" "i < slots b" "j < slots b" "obj h b f i = obj h b f j"
  shows "i = j"
proof -
  have "Suc i * 2 ^ (4 + b) = Suc j * 2 ^ (4 + b)"
    using fptr_off_inj[OF assms(1,2,2) obj_offset(3)[OF assms(3,4)] obj_offset(3)[OF assms(3,5)]] assms(6)
    unfolding obj_def by blast
  then show ?thesis by simp
qed

lemma objects_disjoint:
  assumes "fits h n" "f < n" "g < n" "b < 7" "c < 7" "f \<noteq> g"
  shows "objects h b f \<inter> objects h c g = {}"
proof -
  have "objects h b f \<subseteq> frame_words h {f}" "objects h c g \<subseteq> frame_words h {g}"
    using assms(4,5) by (simp_all add: objects_frame_words)
  with frame_words_disjoint[OF assms(1), of "{f}" "{g}"] assms(2,3,6) show ?thesis by fastforce
qed

lemma header_not_obj:
  assumes "fits h n" "f < n" "g < n" "b < 7"
  shows "fptr h g \<notin> objects h b f" "fptr h g + 8 \<notin> objects h b f"
proof -
  have "fptr h g + word_of_nat j \<notin> objects h b f" if "j \<le> 8" for j
  proof
    assume "fptr h g + word_of_nat j \<in> objects h b f"
    then obtain k where "fptr h g + word_of_nat j = fptr h f + word_of_nat k" "16 \<le> k" "k < 4096"
      using assms(4) by (rule objectsE)
    then show False using fptr_off_inj[OF assms(1,3,2), of j k] that by simp
  qed
  from this[of 0] this[of 8] show "fptr h g \<notin> objects h b f" "fptr h g + 8 \<notin> objects h b f" by simp_all
qed

lemma obj_not_null:
  assumes "fits h n" "f < n" "b < 7"
  shows "0 \<notin> objects h b f"
proof
  assume "0 \<in> objects h b f"
  then obtain k where "fptr h f + word_of_nat k = 0" "16 \<le> k" "k < 4096" using assms(3) by (rule objectsE) simp
  with unat_fptr_off[OF assms(1,2), of k] show False by simp
qed

section \<open>One slab\<close>

text \<open>The free objects of the slab in frame \<open>f\<close> are exactly those not in use.\<close>

definition slab_ok :: "mem \<Rightarrow> u64 \<Rightarrow> nat \<Rightarrow> nat \<Rightarrow> u64 set \<Rightarrow> bool" where
  "slab_ok m h b f U \<longleftrightarrow>
     (\<exists>xs. chain m (m (fptr h f + 8)) xs \<and> distinct xs \<and> set xs = objects h b f - U)"

lemma slab_ok_same:
  assumes "slab_ok m h b f U" "m' (fptr h f + 8) = m (fptr h f + 8)" "\<forall>x\<in>objects h b f - U. m' x = m x"
    and "U' \<inter> objects h b f = U \<inter> objects h b f"
  shows "slab_ok m' h b f U'"
proof -
  have "objects h b f - U' = objects h b f - U" using assms(4) by blast
  then show ?thesis using assms(1-3) chain_same[of _ m' m] unfolding slab_ok_def by metis
qed

lemma slab_full_iff: "slab_ok m h b f U \<Longrightarrow> m (fptr h f + 8) = 0 \<longleftrightarrow> objects h b f \<subseteq> U"
  unfolding slab_ok_def by (metis Diff_eq_empty_iff chain.simps(1) chain_0 set_empty)

lemma slab_pop:
  assumes "fits h n" "f < n" "b < 7" and ok: "slab_ok m h b f U" and w: "m (fptr h f + 8) = w" "w \<noteq> 0"
  shows "w \<in> objects h b f - U" "slab_ok (m(fptr h f + 8 := m w)) h b f (insert w U)"
proof -
  obtain ys where ys: "chain m (m w) ys" "distinct (w # ys)" "set (w # ys) = objects h b f - U"
    using ok w chain_nonnull unfolding slab_ok_def by metis
  then show "w \<in> objects h b f - U" by auto
  have "fptr h f + 8 \<notin> set ys" using ys(3) header_not_obj(2)[OF assms(1,2,2,3)] by auto
  then have "chain (m(fptr h f + 8 := m w)) (m w) ys" using ys(1) by (subst chain_same[of _ _ m]) auto
  moreover have "set ys = objects h b f - insert w U" using ys(2,3) by auto
  ultimately show "slab_ok (m(fptr h f + 8 := m w)) h b f (insert w U)"
    using ys(2) unfolding slab_ok_def by auto
qed

lemma slab_push:
  assumes "fits h n" "f < n" "b < 7" and ok: "slab_ok m h b f U" and p: "p \<in> objects h b f" "p \<in> U"
  shows "slab_ok (m(p := m (fptr h f + 8), fptr h f + 8 := p)) h b f (U - {p})"
proof -
  let ?m = "m(p := m (fptr h f + 8), fptr h f + 8 := p)"
  obtain xs where xs: "chain m (m (fptr h f + 8)) xs" "distinct xs" "set xs = objects h b f - U"
    using ok unfolding slab_ok_def by blast
  have "fptr h f + 8 \<notin> objects h b f" "p \<noteq> 0" "p \<noteq> fptr h f + 8"
    using header_not_obj(2)[OF assms(1,2,2,3)] obj_not_null[OF assms(1-3)] p(1) by blast+
  moreover from this have "chain ?m (m (fptr h f + 8)) xs"
    using xs(1,3) p by (subst chain_same[of _ _ m]) auto
  ultimately have "chain ?m (?m (fptr h f + 8)) (p # xs)" by simp
  moreover have "set (p # xs) = objects h b f - (U - {p})" "distinct (p # xs)" using xs(2,3) p by auto
  ultimately show ?thesis unfolding slab_ok_def by blast
qed

text \<open>\<open>refill\<close> chains all objects of a fresh frame, in ascending order.\<close>

lemma slots_less: "slots b < 256"
proof -
  have "(2 :: nat) ^ (8 - b) \<le> 2 ^ 8" by (rule power_increasing) simp_all
  then show ?thesis by (simp add: slots_def)
qed

lemma refill_loop_ok:
  assumes "fits h n" "f < n" "b < 7"
  shows "k \<le> slots b \<Longrightarrow> chain m (enc_ptr head) (map (obj h b f) [k..<slots b]) \<Longrightarrow>
    \<exists>head' m'. refill_loop (fptr h f) (2 ^ (4 + b)) (2 ^ (4 + b)) k head m = Some (head', m') \<and>
      chain m' (enc_ptr head') (map (obj h b f) [0..<slots b]) \<and> agree_off (objects h b f) m m'"
proof (induction k arbitrary: head m)
  case 0
  then show ?case by (auto simp: agree_off_def)
next
  case (Suc k)
  let ?p = "obj h b f k" and ?xs = "map (obj h b f) [Suc k..<slots b]"
  let ?m = "set_FreeObj_next m ?p head"
  have k: "k < slots b" using Suc.prems(1) by simp
  have fresh: "?p \<notin> set ?xs" 
  proof
    assume "?p \<in> set ?xs"
    then have "?p \<in> obj h b f ` {Suc k..<slots b}" by simp
    then obtain j where "?p = obj h b f j" "j \<in> {Suc k..<slots b}" by (rule imageE)
    then show False using obj_inj[OF assms, of k j] k by simp
  qed
  have "?p \<noteq> 0" using obj_not_null[OF assms] k by (auto simp: objects_def)
  moreover have "\<forall>x\<in>set ?xs. ?m x = m x" using fresh unfolding set_FreeObj_next_def fun_upd_def by metis
  then have "chain ?m (enc_ptr head) ?xs" using Suc.prems(2) chain_same[of ?xs ?m m] by blast
  ultimately have "chain ?m (enc_ptr (Some ?p)) (map (obj h b f) [k..<slots b])"
    using k by (simp add: upt_conv_Cons set_FreeObj_next_def)
  from Suc.IH[OF _ this] k obtain head' m' where
    r: "refill_loop (fptr h f) (2 ^ (4 + b)) (2 ^ (4 + b)) k (Some ?p) ?m = Some (head', m')"
       "chain m' (enc_ptr head') (map (obj h b f) [0..<slots b])" "agree_off (objects h b f) ?m m'" by auto
  have sz: "unat (2 ^ (4 + b) :: u64) = 2 ^ (4 + b)" using assms(3) by (intro unat_pow2) simp
  have c: "(2 ^ (4 + b) :: u64) = word_of_nat (2 ^ (4 + b))" by simp
  have "k * 2 ^ (4 + b) + 2 ^ (4 + b) < 4096" using obj_offset(3)[OF assms(3) k] by simp
  then have o: "k < 2 ^ 64" "k * 2 ^ (4 + b) < 2 ^ 64" "k * 2 ^ (4 + b) + 2 ^ (4 + b) < 2 ^ 64"
    using k slots_less[of b] by simp_all
  have "mul64 (word_of_nat k) (2 ^ (4 + b)) = Some (word_of_nat (k * 2 ^ (4 + b)))"
    using o(2) unfolding mul64_alt sz unat_of_nat64[OF o(1)] by simp
  moreover have "add64 (2 ^ (4 + b)) (word_of_nat (k * 2 ^ (4 + b))) = Some (word_of_nat (Suc k * 2 ^ (4 + b)))"
    using o(3) unfolding add64_alt sz unat_of_nat64[OF o(2)] by (simp add: add.commute)
  ultimately have "refill_loop (fptr h f) (2 ^ (4 + b)) (2 ^ (4 + b)) (Suc k) head m = Some (head', m')"
    using r(1) by (simp add: obj_def)
  moreover have "agree_off (objects h b f) m m'"
    using r(3) k by (auto simp: agree_off_def set_FreeObj_next_def objects_def)
  ultimately show ?case using r(2) by blast
qed

lemma refill_slab_ok:
  assumes "fits h n" "f < n" "b < 7" "U \<inter> objects h b f = {}"
    and "chain m (enc_ptr head) (map (obj h b f) [0..<slots b])"
  shows "slab_ok (set_slab_free (set_slab_next m (fptr h f) None) (fptr h f) head) h b f U"
proof -
  let ?m = "set_slab_free (set_slab_next m (fptr h f) None) (fptr h f) head"
  have o: "set (map (obj h b f) [0..<slots b]) = objects h b f" by (auto simp: objects_def)
  have "\<forall>x\<in>objects h b f. ?m x = m x"
    using header_not_obj[OF assms(1,2,2,3)] by (auto simp: set_slab_free_def set_slab_next_def)
  then have "chain ?m (enc_ptr head) (map (obj h b f) [0..<slots b])"
    using assms(5) chain_same[of "map (obj h b f) [0..<slots b]" ?m m] unfolding o by blast
  moreover have "inj_on (obj h b f) {0..<slots b}" using obj_inj[OF assms(1-3)] by (intro inj_onI) auto
  then have "distinct (map (obj h b f) [0..<slots b])" by (simp add: distinct_map)
  moreover have "set (map (obj h b f) [0..<slots b]) = objects h b f - U" using assms(4) unfolding o by blast
  moreover have "?m (fptr h f + 8) = enc_ptr head" by (simp add: set_slab_free_def)
  ultimately show ?thesis unfolding slab_ok_def by metis
qed

section \<open>All slabs\<close>

text \<open>
  \<open>slabs\<close> gives the bucket of each slab frame and \<open>U\<close> the objects in use; \<open>A\<close> and \<open>P\<close> are the
  arrays \<open>active\<close> and \<open>partial\<close>.  A slab is on the partial list of its bucket exactly if it is not
  the active one and has a free object.
\<close>

definition partial_set :: "u64 \<Rightarrow> u64 option list \<Rightarrow> (nat \<rightharpoonup> nat) \<Rightarrow> u64 set \<Rightarrow> nat \<Rightarrow> nat set" where
  "partial_set h A slabs U b =
     {f. slabs f = Some b \<and> A ! b \<noteq> Some (fptr h f) \<and> \<not> objects h b f \<subseteq> U}"

definition bucket_ok :: "mem \<Rightarrow> u64 \<Rightarrow> u64 option list \<Rightarrow> u64 option list \<Rightarrow> (nat \<rightharpoonup> nat) \<Rightarrow> u64 set \<Rightarrow> nat \<Rightarrow> bool" where
  "bucket_ok m h A P slabs U b \<longleftrightarrow>
     (\<forall>p. A ! b = Some p \<longrightarrow> (\<exists>f. slabs f = Some b \<and> p = fptr h f)) \<and> P ! b \<noteq> Some 0 \<and>
     (\<exists>fs. chain m (enc_ptr (P ! b)) (map (fptr h) fs) \<and> distinct fs \<and> set fs = partial_set h A slabs U b)"

definition heap_lists :: "mem \<Rightarrow> u64 \<Rightarrow> nat \<Rightarrow> u64 option list \<Rightarrow> u64 option list \<Rightarrow> (nat \<rightharpoonup> nat) \<Rightarrow> u64 set \<Rightarrow> bool" where
  "heap_lists m h n A P slabs U \<longleftrightarrow>
     fits h n \<and> length A = 7 \<and> length P = 7 \<and> dom slabs \<subseteq> {..<n} \<and>
     U \<subseteq> (\<Union>f\<in>dom slabs. objects h (the (slabs f)) f) \<and>
     (\<forall>f b. slabs f = Some b \<longrightarrow> b < 7 \<and> slab_ok m h b f U) \<and>
     (\<forall>b<7. bucket_ok m h A P slabs U b)"

lemma heap_listsD:
  assumes "heap_lists m h n A P slabs U"
  shows "fits h n" "length A = 7" "length P = 7" "slabs f = Some b \<Longrightarrow> f < n \<and> b < 7 \<and> slab_ok m h b f U"
    "b < 7 \<Longrightarrow> bucket_ok m h A P slabs U b" "U \<subseteq> (\<Union>f\<in>dom slabs. objects h (the (slabs f)) f)"
  using assms by (auto simp: heap_lists_def)

lemma bucket_ok_same:
  assumes "bucket_ok m h A P slabs U c" "A' ! c = A ! c" "P' ! c = P ! c"
    and "\<And>g. slabs g = Some c \<Longrightarrow> slabs' g = Some c"
    and "partial_set h A' slabs' U' c = partial_set h A slabs U c"
    and "\<forall>g\<in>partial_set h A slabs U c. m' (fptr h g) = m (fptr h g)"
  shows "bucket_ok m' h A' P' slabs' U' c"
proof -
  obtain fs where fs: "chain m (enc_ptr (P ! c)) (map (fptr h) fs)" "distinct fs" "set fs = partial_set h A slabs U c"
    using assms(1) unfolding bucket_ok_def by blast
  have "chain m' (enc_ptr (P ! c)) (map (fptr h) fs)"
    using fs(1,3) assms(6) chain_same[of "map (fptr h) fs" m' m] by simp
  then show ?thesis using assms(1-5) fs(2,3) unfolding bucket_ok_def by metis
qed

text \<open>Every operation works on one slab \<open>f\<close> of one bucket \<open>b\<close> and leaves the rest alone.\<close>

lemma heap_lists_update:
  assumes hl: "heap_lists m h n A P slabs U"
    and f: "f < n" "b < 7" "slabs f \<in> {None, Some b}" and slabs': "slabs' = slabs(f \<mapsto> b)"
    and m': "agree_off (frame_words h {f}) m m'"
    and U': "U' - objects h b f = U - objects h b f"
    and A: "length A' = 7" "\<And>c. c \<noteq> b \<Longrightarrow> A' ! c = A ! c" and P: "length P' = 7" "\<And>c. c \<noteq> b \<Longrightarrow> P' ! c = P ! c"
    and ok: "slab_ok m' h b f U'" "bucket_ok m' h A' P' slabs' U' b"
  shows "heap_lists m' h n A' P' slabs' U'"
proof -
  note d = heap_listsD[OF hl]
  have U_other: "U' \<inter> objects h c g = U \<inter> objects h c g" if "slabs g = Some c" "g \<noteq> f" for g c
    using objects_disjoint[OF d(1) f(1) _ f(2), of g c] d(4)[OF that(1)] that(2) U' by blast
  have m_other: "m' a = m a" if "a \<in> frame_words h {g}" "g \<noteq> f" "g < n" for a g
    using frame_words_disjoint[OF d(1), of "{g}" "{f}"] that f(1) m' unfolding agree_off_def by fastforce
  have slab: "c < 7 \<and> slab_ok m' h c g U'" if "slabs' g = Some c" for g c
  proof (cases "g = f")
    case True
    then show ?thesis using that ok(1) f(2) by (simp add: slabs')
  next
    case False
    then have g: "slabs g = Some c" using that by (simp add: slabs')
    note dg = d(4)[OF g]
    have "m' (fptr h g + 8) = m (fptr h g + 8)" "\<forall>x\<in>objects h c g - U. m' x = m x"
      using m_other[OF _ False] dg header_frame_words(2)[of g "{g}"] objects_frame_words[of c g "{g}"] by auto
    then show ?thesis using slab_ok_same[OF _ _ _ U_other[OF g False]] dg by blast
  qed
  have bucket: "bucket_ok m' h A' P' slabs' U' c" if c: "c < 7" "c \<noteq> b" for c
  proof (rule bucket_ok_same[OF d(5)[OF c(1)] A(2)[OF c(2)] P(2)[OF c(2)]])
    have sl: "slabs' g = Some c \<longleftrightarrow> slabs g = Some c \<and> g \<noteq> f" "slabs g = Some c \<Longrightarrow> g \<noteq> f" for g
      using f(3) c(2) by (auto simp: slabs')
    then show "slabs g = Some c \<Longrightarrow> slabs' g = Some c" for g by blast
    have "objects h c g \<subseteq> U' \<longleftrightarrow> objects h c g \<subseteq> U" if "slabs g = Some c" for g
      using U_other[OF that sl(2)[OF that]] by blast
    then show "partial_set h A' slabs' U' c = partial_set h A slabs U c"
      using A(2)[OF c(2)] sl unfolding partial_set_def by auto
    show "\<forall>g\<in>partial_set h A slabs U c. m' (fptr h g) = m (fptr h g)"
      using m_other header_frame_words(1) sl(2) d(4) unfolding partial_set_def by blast
  qed
  have "U' \<subseteq> (\<Union>g\<in>dom slabs'. objects h (the (slabs' g)) g)"
  proof
    fix x assume x: "x \<in> U'"
    show "x \<in> (\<Union>g\<in>dom slabs'. objects h (the (slabs' g)) g)"
    proof (cases "x \<in> objects h b f")
      case False
      then have "x \<in> U" using x U' by blast
      then obtain g c where "slabs g = Some c" "x \<in> objects h c g" using d(6) by auto
      then show ?thesis using False f(3) unfolding slabs' by (cases "g = f") auto
    qed (auto simp: slabs')
  qed
  moreover have "bucket_ok m' h A' P' slabs' U' c" if "c < 7" for c using bucket[OF that] ok(2) by blast
  moreover have "dom slabs' \<subseteq> {..<n}" using d(4) f(1) by (auto simp: slabs' split: if_splits)
  ultimately show ?thesis using d(1) A(1) P(1) slab unfolding heap_lists_def by blast
qed

section \<open>Steps of the operations\<close>

lemma active_slabE:
  assumes "heap_lists m h n A P slabs U" "b < 7" "A ! b = Some p"
  obtains f where "slabs f = Some b" "p = fptr h f" "f < n" "slab_ok m h b f U"
  using heap_listsD(4,5)[OF assms(1)] assms(2,3) unfolding bucket_ok_def by metis

lemma header_agree: "agree_off (frame_words h {f}) m (m(fptr h f := w))" "agree_off (frame_words h {f}) m (m(fptr h f + 8 := w))"
  using header_frame_words[of f "{f}" h] by (auto simp: agree_off_def)

lemma slabs_upd_same [simp]: "slabs f = Some b \<Longrightarrow> slabs(f \<mapsto> b) = slabs"
  by (simp add: fun_upd_idem)

text \<open>Taking the first free object of the active slab.\<close>

lemma heap_pop:
  assumes hl: "heap_lists m h n A P slabs U" and b: "b < 7" and act: "A ! b = Some (fptr h f)" "slabs f = Some b"
    and w: "m (fptr h f + 8) = w" "w \<noteq> 0"
  shows "w \<in> objects h b f - U" "heap_lists (m(fptr h f + 8 := m w)) h n A P slabs (insert w U)"
proof -
  note d = heap_listsD[OF hl]
  have f: "f < n" "slab_ok m h b f U" using d(4)[OF act(2)] by blast+
  note pop = slab_pop[OF d(1) f(1) b f(2) w]
  show "w \<in> objects h b f - U" by (rule pop)
  let ?m = "m(fptr h f + 8 := m w)"
  have "bucket_ok ?m h A P slabs (insert w U) b"
  proof (rule bucket_ok_same[OF d(5)[OF b]])
    have "objects h b g \<subseteq> insert w U \<longleftrightarrow> objects h b g \<subseteq> U" if "slabs g = Some b" "g \<noteq> f" for g
      using objects_disjoint[OF d(1) f(1) _ b b, of g] d(4)[OF that(1)] that(2) pop(1) by blast
    then show "partial_set h A slabs (insert w U) b = partial_set h A slabs U b"
      using act(1) unfolding partial_set_def by auto
    show "\<forall>g\<in>partial_set h A slabs U b. ?m (fptr h g) = m (fptr h g)"
      using fptr_next_neq'[OF d(1) _ f(1)] d(4) unfolding partial_set_def by auto
  qed simp_all
  then show "heap_lists ?m h n A P slabs (insert w U)"
    using pop act(2) by (intro heap_lists_update[OF hl f(1) b]) (auto simp: header_agree d)
qed

text \<open>Forgetting an active slab that is full.\<close>

lemma heap_forget:
  assumes hl: "heap_lists m h n A P slabs U" and b: "b < 7"
    and full: "\<And>f. slabs f = Some b \<Longrightarrow> A ! b = Some (fptr h f) \<Longrightarrow> m (fptr h f + 8) = 0"
  shows "heap_lists m h n (A[b := None]) P slabs U"
proof -
  note d = heap_listsD[OF hl]
  have "bucket_ok m h (A[b := None]) P slabs U c" if c: "c < 7" for c
  proof (cases "c = b")
    case True
    have "objects h b f \<subseteq> U" if "slabs f = Some b" "A ! b = Some (fptr h f)" for f
      using slab_full_iff[of m h b f U] d(4)[OF that(1)] full[OF that] by blast
    then have "partial_set h (A[b := None]) slabs U b = partial_set h A slabs U b"
      using b d(2) by (auto simp: partial_set_def)
    then show ?thesis using d(5)[OF b] b d(2) True unfolding bucket_ok_def by simp
  next
    case False
    then show ?thesis using d(5)[OF c] by (simp add: bucket_ok_def partial_set_def)
  qed
  then show ?thesis using hl by (simp add: heap_lists_def)
qed

text \<open>The first partly used slab becomes the active one.\<close>

lemma heap_activate:
  assumes hl: "heap_lists m h n A P slabs U" and b: "b < 7" and none: "A ! b = None" and p: "P ! b = Some p"
  obtains f where "p = fptr h f" "slabs f = Some b" "f < n" "m (fptr h f + 8) \<noteq> 0"
    "heap_lists (m(p := 0)) h n (A[b := Some p]) (P[b := dec_ptr (m p)]) slabs U"
proof -
  note d = heap_listsD[OF hl]
  obtain fs where fs: "chain m (enc_ptr (P ! b)) (map (fptr h) fs)" "distinct fs" "set fs = partial_set h A slabs U b"
    "P ! b \<noteq> Some 0" using d(5)[OF b] unfolding bucket_ok_def by blast
  then obtain f gs where fg: "fs = f # gs" "p = fptr h f" using p by (cases fs) auto
  then have f: "slabs f = Some b" "\<not> objects h b f \<subseteq> U" using fs(3) by (auto simp: partial_set_def)
  have fn: "f < n" and ok: "slab_ok m h b f U" using d(4)[OF f(1)] by blast+
  have ne: "m (fptr h f + 8) \<noteq> 0" using slab_full_iff[OF ok] f(2) by blast
  let ?m = "m(p := 0)" and ?A = "A[b := Some p]" and ?P = "P[b := dec_ptr (m p)]"
  have inj: "fptr h g = fptr h f \<longleftrightarrow> g = f" if "g < n" for g using fptr_inj[OF d(1) that fn] .
  have gs: "g < n" "g \<noteq> f" if "g \<in> set gs" for g
    using fs(2,3) d(4) that by (auto simp: fg partial_set_def)
  have "chain ?m (m p) (map (fptr h) gs)"
    using fs(1) p gs inj by (subst chain_same[of _ _ m]) (auto simp: fg)
  moreover have "set gs = partial_set h ?A slabs U b"
  proof -
    have "slabs g = Some b \<Longrightarrow> (Some p \<noteq> Some (fptr h g)) = (g \<noteq> f)" for g using inj d(4) unfolding fg(2) by (metis option.inject)
    then have "partial_set h ?A slabs U b = partial_set h A slabs U b - {f}"
      using none d(2) b unfolding partial_set_def by fastforce
    then show ?thesis using fs(2,3) by (auto simp: fg(1))
  qed
  ultimately have "bucket_ok ?m h ?A ?P slabs U b"
    using fs(2) b d(2,3) f(1) unfolding bucket_ok_def fg by auto
  moreover have "slab_ok ?m h b f U"
    using header_not_obj(1)[OF d(1) fn fn b] by (intro slab_ok_same[OF ok]) (auto simp: fg(2))
  ultimately have "heap_lists ?m h n ?A ?P (slabs(f \<mapsto> b)) U"
    using f(1) by (intro heap_lists_update[OF hl fn b]) (auto simp: header_agree d fg(2))
  then show thesis using that fg(2) f(1) fn ne by simp
qed

text \<open>A fresh slab becomes the active one.\<close>

lemma heap_fresh:
  assumes hl: "heap_lists m h n A P slabs U" and b: "b < 7" and none: "A ! b = None"
    and f: "f < n" "slabs f = None" and m': "agree_off (frame_words h {f}) m m'" and ok: "slab_ok m' h b f U"
  shows "heap_lists m' h n (A[b := Some (fptr h f)]) P (slabs(f \<mapsto> b)) U"
proof (rule heap_lists_update[OF hl f(1) b])
  note d = heap_listsD[OF hl]
  show "bucket_ok m' h (A[b := Some (fptr h f)]) P (slabs(f \<mapsto> b)) U b"
  proof -
    obtain fs where fs: "chain m (enc_ptr (P ! b)) (map (fptr h) fs)" "distinct fs" "set fs = partial_set h A slabs U b"
      using d(5)[OF b] unfolding bucket_ok_def by blast
    have fs_ok: "g < n" "g \<noteq> f" if "g \<in> set fs" for g using that fs(3) d(4) f(2) by (auto simp: partial_set_def)
    have "m' (fptr h g) = m (fptr h g)" if "g \<in> set fs" for g
      using frame_words_disjoint[OF d(1), of "{g}" "{f}"] fs_ok[OF that] f(1) m' header_frame_words(1)[of g "{g}" h]
      unfolding agree_off_def by fastforce
    then have "chain m' (enc_ptr (P ! b)) (map (fptr h) fs)" using fs(1) by (subst chain_same[of _ _ m]) auto
    moreover have "partial_set h (A[b := Some (fptr h f)]) (slabs(f \<mapsto> b)) U b = partial_set h A slabs U b"
    proof -
      have "slabs g = Some b \<Longrightarrow> Some (fptr h f) \<noteq> Some (fptr h g)" for g
        using fptr_inj[OF d(1) _ f(1), of g] d(4)[of g b] f(2) by auto
      then show ?thesis using none d(2) b f(2) unfolding partial_set_def by auto
    qed
    ultimately show ?thesis using fs(2,3) d(2) d(5)[OF b] b unfolding bucket_ok_def by auto
  qed
qed (use assms heap_listsD[OF hl] in auto)

text \<open>Giving an object back; a slab that was full joins the partial list.\<close>

lemma heap_push:
  assumes hl: "heap_lists m h n A P slabs U" and f: "slabs f = Some b" and p: "p \<in> objects h b f" "p \<in> U"
  defines "m1 \<equiv> m(p := m (fptr h f + 8), fptr h f + 8 := p)"
  shows "A ! b = Some (fptr h f) \<or> m (fptr h f + 8) \<noteq> 0 \<Longrightarrow> heap_lists m1 h n A P slabs (U - {p})"
    and "A ! b \<noteq> Some (fptr h f) \<Longrightarrow> m (fptr h f + 8) = 0 \<Longrightarrow>
      heap_lists (m1(fptr h f := enc_ptr (P ! b))) h n A (P[b := Some (fptr h f)]) slabs (U - {p})"
proof -
  note d = heap_listsD[OF hl]
  have fn: "f < n" and b: "b < 7" and ok: "slab_ok m h b f U" using d(4)[OF f] by blast+
  have push: "slab_ok m1 h b f (U - {p})" unfolding m1_def by (rule slab_push[OF d(1) fn b ok p])
  have ag: "agree_off (frame_words h {f}) m m1"
    using objects_frame_words[OF b, of f "{f}" h] p(1) header_frame_words(2)[of f "{f}" h]
    by (auto simp: m1_def agree_off_def)
  have m1: "m1 (fptr h g) = m (fptr h g)" if "g < n" for g
    using that fptr_next_neq'[OF d(1) that fn] header_not_obj(1)[OF d(1) fn that b] p(1) by (auto simp: m1_def)
  have U: "objects h b g \<subseteq> U - {p} \<longleftrightarrow> objects h b g \<subseteq> U" if "slabs g = Some b" "g \<noteq> f" for g
    using objects_disjoint[OF d(1) fn _ b b, of g] d(4)[OF that(1)] that(2) p(1) by blast
  have Uf: "\<not> objects h b f \<subseteq> U - {p}" using p(1) by blast
  have full: "m (fptr h f + 8) = 0 \<longleftrightarrow> objects h b f \<subseteq> U" by (rule slab_full_iff[OF ok])
  have gn: "g < n" if "g \<in> partial_set h A slabs U b" for g using that d(4) by (auto simp: partial_set_def)
  {
    assume a: "A ! b = Some (fptr h f) \<or> m (fptr h f + 8) \<noteq> 0"
    have "bucket_ok m1 h A P slabs (U - {p}) b"
    proof (rule bucket_ok_same[OF d(5)[OF b]])
      have "slabs g = Some b \<Longrightarrow> A ! b \<noteq> Some (fptr h g) \<Longrightarrow> objects h b g \<subseteq> U - {p} \<longleftrightarrow> objects h b g \<subseteq> U" for g
        using U a full by blast
      then show "partial_set h A slabs (U - {p}) b = partial_set h A slabs U b" unfolding partial_set_def by blast
    qed (use m1 gn in auto)
    then show "heap_lists m1 h n A P slabs (U - {p})"
      using push ag f p by (intro heap_lists_update[OF hl fn b]) (auto simp: d)
  }
  assume a: "A ! b \<noteq> Some (fptr h f)" "m (fptr h f + 8) = 0"
  let ?m = "m1(fptr h f := enc_ptr (P ! b))" and ?P = "P[b := Some (fptr h f)]"
  obtain fs where fs: "chain m (enc_ptr (P ! b)) (map (fptr h) fs)" "distinct fs" "set fs = partial_set h A slabs U b"
    using d(5)[OF b] unfolding bucket_ok_def by blast
  have nf: "f \<notin> set fs" using fs(3) full a(2) by (simp add: partial_set_def)
  have same: "\<forall>g\<in>set fs. ?m (fptr h g) = m (fptr h g)"
  proof
    fix g assume g: "g \<in> set fs"
    then have "g < n" "g \<noteq> f" using gn fs(3) nf by auto
    then show "?m (fptr h g) = m (fptr h g)" using m1[of g] fptr_inj[OF d(1) _ fn, of g] by simp
  qed
  then have "chain ?m (enc_ptr (P ! b)) (map (fptr h) fs)" using fs(1) chain_same[of "map (fptr h) fs" ?m m] by simp
  then have "chain ?m (enc_ptr (?P ! b)) (map (fptr h) (f # fs))" using b d(1,3) fn by simp
  moreover have "set (f # fs) = partial_set h A slabs (U - {p}) b"
    using fs(3) U Uf f a(1) unfolding partial_set_def by auto
  moreover have "distinct (f # fs)" using fs(2) nf by simp
  ultimately have bk: "bucket_ok ?m h A ?P slabs (U - {p}) b"
    using d(1,3) d(5)[OF b] b fn unfolding bucket_ok_def by (metis fptr_not_null nth_list_update_eq option.inject)
  have "fptr h f \<noteq> fptr h f + 8" using fptr_next_neq'[OF d(1) fn fn] .
  then have "slab_ok ?m h b f (U - {p})"
    using header_not_obj(1)[OF d(1) fn fn b] by (intro slab_ok_same[OF push]) auto
  moreover have "agree_off (frame_words h {f}) m ?m"
    using ag header_frame_words(1)[of f "{f}" h] by (auto simp: agree_off_def)
  ultimately show "heap_lists ?m h n A ?P slabs (U - {p})"
    using bk f p by (intro heap_lists_update[OF hl fn b]) (auto simp: d)
qed

section \<open>What the heap does not touch\<close>

definition obj_words :: "u64 \<Rightarrow> nat \<Rightarrow> u64 set" where
  "obj_words p b = {p + word_of_nat j | j. j < 2 ^ (4 + b)}"

definition used_words :: "u64 \<Rightarrow> (nat \<rightharpoonup> nat) \<Rightarrow> u64 set \<Rightarrow> u64 set" where
  "used_words h slabs U = (\<Union>(f, b) \<in> {(f, b). slabs f = Some b}. \<Union>p \<in> U \<inter> objects h b f. obj_words p b)"

lemma obj_words_offset:
  assumes "p \<in> objects h b f" "b < 7" "a \<in> obj_words p b"
  obtains k j where "p = fptr h f + word_of_nat k" "a = fptr h f + word_of_nat (k + j)" "16 \<le> k" "k + j < 4096"
    "j < 2 ^ (4 + b)" "2 ^ (4 + b) dvd k" "k < 4096"
proof -
  obtain k where k: "p = fptr h f + word_of_nat k" "16 \<le> k" "k + 2 ^ (4 + b) \<le> 4096" "k < 4096" "2 ^ (4 + b) dvd k"
    using assms(1,2) by (rule objectsE)
  obtain j where j: "a = p + word_of_nat j" "j < 2 ^ (4 + b)" using assms(3) unfolding obj_words_def by blast
  have "k + j < 4096" using k(3) j(2) by linarith
  then show thesis using k j by (intro that[of k j]) simp_all
qed

lemma obj_words_frame:
  assumes "p \<in> objects h b f" "b < 7"
  shows "obj_words p b \<subseteq> frame_words h {f}"
proof
  fix a assume "a \<in> obj_words p b"
  with assms show "a \<in> frame_words h {f}" by (rule obj_words_offset) (use frame_words_mem in blast)
qed

lemma obj_words_disjoint:
  assumes "fits h n" "f < n" "b < 7" "p \<in> objects h b f" "q \<in> objects h b f" "p \<noteq> q"
  shows "obj_words p b \<inter> obj_words q b = {}"
proof (rule ccontr)
  assume "obj_words p b \<inter> obj_words q b \<noteq> {}"
  then obtain a where a: "a \<in> obj_words p b" "a \<in> obj_words q b" by blast
  obtain k j where k: "p = fptr h f + word_of_nat k" "a = fptr h f + word_of_nat (k + j)" "k + j < 4096"
    "j < 2 ^ (4 + b)" "2 ^ (4 + b) dvd k" using assms(4,3) a(1) by (rule obj_words_offset)
  obtain k' j' where k': "q = fptr h f + word_of_nat k'" "a = fptr h f + word_of_nat (k' + j')" "k' + j' < 4096"
    "j' < 2 ^ (4 + b)" "2 ^ (4 + b) dvd k'" using assms(5,3) a(2) by (rule obj_words_offset)
  have "k + j = k' + j'" using fptr_off_inj[OF assms(1,2,2) k(3) k'(3)] k(2) k'(2) by simp
  moreover have "(k + j) div 2 ^ (4 + b) = k div 2 ^ (4 + b)" "(k' + j') div 2 ^ (4 + b) = k' div 2 ^ (4 + b)"
    using k(4,5) k'(4,5) by (auto elim!: dvdE)
  ultimately have "k = k'" using k(5) k'(5) by (metis dvd_div_mult_self)
  then show False using k(1) k'(1) assms(6) by simp
qed

lemma used_words_slab:
  assumes hl: "heap_lists m h n A P slabs U" and f: "slabs f = Some b" and a: "a \<in> used_words h slabs U" "a \<in> frame_words h {f}"
  obtains p where "p \<in> U" "p \<in> objects h b f" "a \<in> obj_words p b"
proof -
  note d = heap_listsD[OF hl]
  obtain g c p where g: "slabs g = Some c" "p \<in> U" "p \<in> objects h c g" "a \<in> obj_words p c"
    using a(1) unfolding used_words_def by blast
  have "a \<in> frame_words h {g}" using obj_words_frame[OF g(3)] g(4) d(4)[OF g(1)] by blast
  then have "g = f"
    using frame_words_disjoint[OF d(1), of "{g}" "{f}"] a(2) d(4)[OF g(1)] d(4)[OF f] by fastforce
  with f g that show thesis by simp
qed

lemma own_words:
  assumes hl: "heap_lists m h n A P slabs U" and f: "slabs f = Some b"
  shows "fptr h f \<notin> used_words h slabs U" "fptr h f + 8 \<notin> used_words h slabs U"
    "x \<in> objects h b f - U \<Longrightarrow> x \<notin> used_words h slabs U"
proof -
  note d = heap_listsD[OF hl]
  have b: "f < n" "b < 7" using d(4)[OF f] by blast+
  have "fptr h f + word_of_nat i \<notin> used_words h slabs U" if "i \<le> 8" for i
  proof
    assume a: "fptr h f + word_of_nat i \<in> used_words h slabs U"
    moreover have "fptr h f + word_of_nat i \<in> frame_words h {f}" using frame_words_mem[of f "{f}" i h] that by simp
    ultimately obtain p where p: "p \<in> objects h b f" "fptr h f + word_of_nat i \<in> obj_words p b"
      by (rule used_words_slab[OF hl f])
    obtain k j where "fptr h f + word_of_nat i = fptr h f + word_of_nat (k + j)" "16 \<le> k" "k + j < 4096"
      using p(1) b(2) p(2) by (rule obj_words_offset)
    then show False using fptr_off_inj[OF d(1) b(1) b(1), of i "k + j"] that by simp
  qed
  from this[of 0] this[of 8] show "fptr h f \<notin> used_words h slabs U" "fptr h f + 8 \<notin> used_words h slabs U"
    by simp_all
  assume x: "x \<in> objects h b f - U"
  then have xw: "x \<in> obj_words x b" by (auto simp: obj_words_def intro!: exI[of _ 0])
  show "x \<notin> used_words h slabs U"
  proof
    assume "x \<in> used_words h slabs U"
    moreover have "x \<in> frame_words h {f}" using objects_frame_words[OF b(2), of f "{f}" h] x by blast
    ultimately obtain p where "p \<in> U" "p \<in> objects h b f" "x \<in> obj_words p b" by (rule used_words_slab[OF hl f])
    then show False using obj_words_disjoint[OF d(1) b, of p x] x xw by blast
  qed
qed

lemma heap_lists_frame:
  assumes hl: "heap_lists m h n A P slabs U"
    and same: "\<forall>a\<in>frame_words h (dom slabs) - used_words h slabs U. m' a = m a"
  shows "heap_lists m' h n A P slabs U"
proof -
  note d = heap_listsD[OF hl]
  have "slab_ok m' h b f U" if f: "slabs f = Some b" for f b
  proof (rule slab_ok_same[of m])
    have fd: "f \<in> dom slabs" and b: "b < 7" using f d(4)[OF f] by blast+
    show "m' (fptr h f + 8) = m (fptr h f + 8)"
      using same own_words(2)[OF hl f] header_frame_words(2)[OF fd, of h] by blast
    show "\<forall>x\<in>objects h b f - U. m' x = m x"
      using same own_words(3)[OF hl f] objects_frame_words[OF b fd, of h] by blast
  qed (use d(4)[OF f] in auto)
  moreover have "bucket_ok m' h A P slabs U b" if b: "b < 7" for b
  proof (rule bucket_ok_same[OF d(5)[OF b]])
    show "\<forall>g\<in>partial_set h A slabs U b. m' (fptr h g) = m (fptr h g)"
    proof
      fix g assume "g \<in> partial_set h A slabs U b"
      then have g: "slabs g = Some b" "g \<in> dom slabs" by (auto simp: partial_set_def)
      show "m' (fptr h g) = m (fptr h g)"
        using same own_words(1)[OF hl g(1)] header_frame_words(1)[OF g(2), of h] by blast
    qed
  qed simp_all
  ultimately show ?thesis using hl unfolding heap_lists_def by blast
qed

end
