(* ===== verification/Page_Tables.thy ===== *)
theory Page_Tables
  imports Frame_Interface Vmm
begin

text \<open>
  Page tables as trees.  \<open>lookup\<close> is the walk the hardware does, by recursion on the level
  (3 for the PML4 down to 0 for a page table); \<open>tframes\<close> are the frames a tree of tables
  occupies and \<open>tree_ok\<close> says that these frames exist and that no table is shared.  The
  lemmas give the effect of a change below one entry of a table.
\<close>

section \<open>Entries\<close>

definition present :: "u64 \<Rightarrow> bool" where
  "present e \<longleftrightarrow> bit e 0"

definition leaf :: "nat \<Rightarrow> u64 \<Rightarrow> bool" where
  "leaf l e \<longleftrightarrow> l = 0 \<or> l \<le> 2 \<and> bit e 7"

definition entry_addr :: "u64 \<Rightarrow> u64" where
  "entry_addr e = e AND ADDRESS_MASK"

definition slot_of :: "u64 \<Rightarrow> u64 \<Rightarrow> nat \<Rightarrow> u64" where
  "slot_of h pa i = pa + h + 8 * word_of_nat i"

definition aligned :: "u64 \<Rightarrow> bool" where
  "aligned pa \<longleftrightarrow> 4096 dvd unat pa"

lemma bit_mask: "bit ADDRESS_MASK n \<longleftrightarrow> 12 \<le> n \<and> n < 52"
proof -
  have e: "ADDRESS_MASK = push_bit 12 (mask 40)" by (simp add: ADDRESS_MASK_def mask_eq_exp_minus_1)
  show ?thesis unfolding e by (auto simp: bit_simps)
qed

lemma aligned_bits: "aligned pa \<longleftrightarrow> (\<forall>n<12. \<not> bit pa n)"
proof -
  have "aligned pa \<longleftrightarrow> take_bit 12 (unat pa) = 0" by (simp add: aligned_def take_bit_eq_0_iff)
  also have "\<dots> \<longleftrightarrow> take_bit 12 pa = 0"
    by (metis unsigned_take_bit_eq unat_eq_0)
  also have "\<dots> \<longleftrightarrow> (\<forall>n<12. \<not> bit pa n)" by (auto simp: bit_eq_iff bit_simps)
  finally show ?thesis .
qed

lemma entry_addr_aligned [simp]: "aligned (entry_addr e)"
  by (simp add: aligned_bits entry_addr_def bit_simps bit_mask)

lemma frame_of_inj: "aligned a \<Longrightarrow> aligned b \<Longrightarrow> frame_of a = frame_of b \<Longrightarrow> a = b"
  by (auto simp: aligned_def frame_of_def word_unat_eq_iff elim!: dvdE)

lemma mask_id:
  assumes "aligned pa" "frame_of pa < 2 ^ 40"
  shows "pa AND ADDRESS_MASK = pa"
proof -
  have "unat pa < 2 ^ 52" using assms by (auto simp: frame_of_def aligned_def elim!: dvdE)
  then have "take_bit 52 (unat pa) = unat pa" by (simp add: take_bit_nat_eq_self)
  then have "take_bit 52 pa = pa" by (simp add: word_unat_eq_iff unsigned_take_bit_eq)
  then have "n < 52" if "bit pa n" for n using that by (metis bit_take_bit_iff)
  moreover have "12 \<le> n" if "bit pa n" for n using that assms(1) by (metis aligned_bits not_le)
  ultimately show ?thesis by (intro bit_eqI) (auto simp: bit_simps bit_mask)
qed

lemma entry_addr_or:
  assumes "pa AND ADDRESS_MASK = pa" "fl AND ADDRESS_MASK = 0"
  shows "entry_addr (pa OR fl) = pa"
  using assms by (simp add: entry_addr_def and.commute bit.conj_disj_distrib)

lemma bit_aligned_or: "aligned pa \<Longrightarrow> n < 12 \<Longrightarrow> bit (pa OR fl) n = bit fl n"
  by (simp add: aligned_bits bit_simps)

lemma parent_entry:
  assumes "aligned f" "frame_of f < 2 ^ 40"
  shows "present (f OR 7)" "\<not> leaf (Suc l) (f OR 7)" "entry_addr (f OR 7) = f"
proof -
  have b: "bit (7 :: u64) 0" "\<not> bit (7 :: u64) 7" by simp_all
  show "present (f OR 7)" "\<not> leaf (Suc l) (f OR 7)"
    using b bit_aligned_or[OF assms(1)] by (simp_all add: present_def leaf_def)
  show "entry_addr (f OR 7) = f"
    by (rule entry_addr_or[OF mask_id[OF assms]]) (simp add: ADDRESS_MASK_def)
qed

lemma not_present_0 [simp]: "\<not> present 0"
  by (simp add: present_def)

section \<open>Slots\<close>

lemma aligned_fptr:
  assumes "aligned pa"
  shows "pa + h = fptr h (frame_of pa)"
proof -
  have "word_of_nat (frame_of pa * 4096) = pa" using assms by (simp add: frame_of_def aligned_def)
  then show ?thesis by (simp add: fptr_def)
qed

lemma slot_of_fptr: "aligned pa \<Longrightarrow> slot_of h pa i = fptr h (frame_of pa) + word_of_nat (8 * i)"
  by (simp add: slot_of_def aligned_fptr)

lemma slot_in_frame:
  assumes "aligned pa" "i < 512" "frame_of pa \<in> S"
  shows "slot_of h pa i \<in> frame_words h S"
  using assms by (simp only: slot_of_fptr) (intro frame_words_mem, auto)

lemma slot_inj:
  assumes "fits h n" "aligned pa" "frame_of pa < n" "i < 512" "j < 512"
  shows "slot_of h pa i = slot_of h pa j \<longleftrightarrow> i = j"
  using assms fptr_off_inj[OF assms(1,3,3), of "8 * i" "8 * j"] by (simp add: slot_of_fptr)

lemma table_mut_ok:
  assumes "fits h n" "aligned pa" "frame_of pa < n"
  shows "add64 pa h = Some (pa + h)"
proof -
  have "unat pa = frame_of pa * 4096" using assms(2) by (simp add: frame_of_def aligned_def)
  moreover have "frame_of pa * 4096 < n * 4096" using assms(3) by simp
  ultimately have "unat pa + unat h < 2 ^ 64" using assms(1) unfolding fits_def by linarith
  then show ?thesis by (rule add64_Some)
qed

section \<open>Trees of tables\<close>

definition child :: "mem \<Rightarrow> u64 \<Rightarrow> nat \<Rightarrow> u64 \<Rightarrow> nat \<Rightarrow> u64 option" where
  "child m h l pa i =
     (let e = m (slot_of h pa i) in if present e \<and> \<not> leaf l e then Some (entry_addr e) else None)"

primrec lookup :: "mem \<Rightarrow> u64 \<Rightarrow> nat \<Rightarrow> u64 \<Rightarrow> u64 \<Rightarrow> (nat \<times> u64) option" where
  "lookup m h 0 pa v =
     (let e = m (slot_of h pa (level_index 0 v)) in if present e then Some (0, e) else None)"
| "lookup m h (Suc l) pa v =
     (let e = m (slot_of h pa (level_index (Suc l) v)) in
      if \<not> present e then None
      else if leaf (Suc l) e then Some (Suc l, e)
      else lookup m h l (entry_addr e) v)"

primrec tframes :: "mem \<Rightarrow> u64 \<Rightarrow> nat \<Rightarrow> u64 \<Rightarrow> nat set" where
  "tframes m h 0 pa = {frame_of pa}"
| "tframes m h (Suc l) pa = insert (frame_of pa)
     (\<Union>i<512. case child m h (Suc l) pa i of None \<Rightarrow> {} | Some c \<Rightarrow> tframes m h l c)"

definition sub :: "mem \<Rightarrow> u64 \<Rightarrow> nat \<Rightarrow> u64 \<Rightarrow> nat \<Rightarrow> nat set" where
  "sub m h l pa i = (case child m h l pa i of None \<Rightarrow> {} | Some c \<Rightarrow> tframes m h (l - 1) c)"

primrec tree_ok :: "mem \<Rightarrow> u64 \<Rightarrow> nat \<Rightarrow> nat \<Rightarrow> u64 \<Rightarrow> bool" where
  "tree_ok m h n 0 pa \<longleftrightarrow> aligned pa \<and> frame_of pa < n"
| "tree_ok m h n (Suc l) pa \<longleftrightarrow> aligned pa \<and> frame_of pa < n \<and>
     (\<forall>i<512. \<forall>c. child m h (Suc l) pa i = Some c \<longrightarrow> tree_ok m h n l c) \<and>
     (\<forall>i<512. frame_of pa \<notin> sub m h (Suc l) pa i) \<and>
     (\<forall>i<512. \<forall>j<512. i \<noteq> j \<longrightarrow> sub m h (Suc l) pa i \<inter> sub m h (Suc l) pa j = {})"

lemma child_0 [simp]: "child m h 0 pa i = None"
  by (simp add: child_def leaf_def)

lemma sub_0 [simp]: "sub m h 0 pa i = {}"
  by (simp add: sub_def)

text \<open>The equations of the three functions without the case distinction on the level.\<close>

lemma lookup_eq:
  "lookup m h l pa v =
     (let e = m (slot_of h pa (level_index l v)) in
      if \<not> present e then None else if leaf l e then Some (l, e) else lookup m h (l - 1) (entry_addr e) v)"
  by (cases l) (simp_all add: leaf_def Let_def)

lemma tframes_eq: "tframes m h l pa = insert (frame_of pa) (\<Union>i<512. sub m h l pa i)"
  by (cases l) (simp_all add: sub_def cong: option.case_cong)

lemma tree_ok_eq:
  "tree_ok m h n l pa \<longleftrightarrow> aligned pa \<and> frame_of pa < n \<and>
     (\<forall>i<512. \<forall>c. child m h l pa i = Some c \<longrightarrow> tree_ok m h n (l - 1) c) \<and>
     (\<forall>i<512. frame_of pa \<notin> sub m h l pa i) \<and>
     (\<forall>i<512. \<forall>j<512. i \<noteq> j \<longrightarrow> sub m h l pa i \<inter> sub m h l pa j = {})"
  by (cases l) simp_all

lemma root_in_tframes [simp]: "frame_of pa \<in> tframes m h l pa"
  by (simp add: tframes_eq)

lemma sub_tframes: "i < 512 \<Longrightarrow> sub m h l pa i \<subseteq> tframes m h l pa"
  by (auto simp: tframes_eq)

lemma tframes_bound: "tree_ok m h n l pa \<Longrightarrow> tframes m h l pa \<subseteq> {..<n}"
proof (induction l arbitrary: pa)
  case (Suc l)
  have "sub m h (Suc l) pa i \<subseteq> {..<n}" if "i < 512" for i
    using Suc.prems Suc.IH that by (auto simp: sub_def split: option.splits)
  then show ?case using Suc.prems unfolding tframes_eq[of m h "Suc l"] by auto
qed simp

text \<open>Everything about a tree depends only on the words of its own frames.\<close>

lemma child_same:
  "m' (slot_of h pa i) = m (slot_of h pa i) \<Longrightarrow> child m' h l pa i = child m h l pa i"
  by (simp add: child_def)

lemma tree_local:
  assumes "tree_ok m h n l pa" "\<forall>a\<in>frame_words h (tframes m h l pa). m' a = m a"
  shows "tframes m' h l pa = tframes m h l pa \<and> tree_ok m' h n l pa \<and>
    (\<forall>v. lookup m' h l pa v = lookup m h l pa v)"
  using assms
proof (induction l arbitrary: pa)
  case 0
  have "m' (slot_of h pa i) = m (slot_of h pa i)" if "i < 512" for i
    using 0(2) slot_in_frame[OF _ that root_in_tframes] 0(1)[unfolded tree_ok.simps] by blast
  from this[OF level_index_less] 0(1) show ?case
    unfolding lookup.simps tframes.simps tree_ok.simps by metis
next
  case (Suc l)
  note ok = Suc.prems(1)[unfolded tree_ok_eq[of m h n "Suc l"]]
  have slots: "m' (slot_of h pa i) = m (slot_of h pa i)" if "i < 512" for i
    using Suc.prems(2) slot_in_frame[OF conjunct1[OF ok] that root_in_tframes] by blast
  have ch: "child m' h (Suc l) pa i = child m h (Suc l) pa i" if "i < 512" for i
    using slots[OF that] by (rule child_same)
  have IH: "tframes m' h l c = tframes m h l c \<and> tree_ok m' h n l c \<and> (\<forall>v. lookup m' h l c v = lookup m h l c v)"
    if c: "child m h (Suc l) pa i = Some c" "i < 512" for i c
  proof (rule Suc.IH)
    show "tree_ok m h n l c" using ok c by simp
    have "tframes m h l c \<subseteq> tframes m h (Suc l) pa"
      using sub_tframes[OF c(2), of m h "Suc l" pa] c(1) by (simp add: sub_def)
    then show "\<forall>a\<in>frame_words h (tframes m h l c). m' a = m a"
      using Suc.prems(2) frame_words_mono by blast
  qed
  have sub: "sub m' h (Suc l) pa i = sub m h (Suc l) pa i" if "i < 512" for i
    using ch[OF that] IH that by (auto simp: sub_def split: option.splits)
  have lk: "lookup m' h (Suc l) pa v = lookup m h (Suc l) pa v" for v
  proof (cases "child m h (Suc l) pa (level_index (Suc l) v)")
    case (Some c)
    from slots[OF level_index_less] conjunct2[OF conjunct2[OF IH[OF Some level_index_less]]] Some show ?thesis
      by (simp add: Let_def child_def split: if_splits)
  qed (use slots[OF level_index_less] in \<open>auto simp: Let_def child_def split: if_splits\<close>)
  have tf: "tframes m' h (Suc l) pa = tframes m h (Suc l) pa"
    using sub unfolding tframes_eq[of _ h "Suc l"] by simp
  have "tree_ok m' h n l c" if "child m' h (Suc l) pa i = Some c" "i < 512" for i c
    using IH[of i c] ch[of i] that by simp
  then have "tree_ok m' h n (Suc l) pa"
    using ok sub unfolding tree_ok_eq[of m' h n "Suc l"] diff_Suc_1 by simp
  with tf lk show ?case by blast
qed

section \<open>Replacing what is below one entry\<close>

definition others :: "mem \<Rightarrow> u64 \<Rightarrow> nat \<Rightarrow> u64 \<Rightarrow> nat \<Rightarrow> nat set" where
  "others m h l pa i = (\<Union>j\<in>{..<512} - {i}. sub m h l pa j)"

lemma tframes_split:
  assumes "i < 512"
  shows "tframes m h l pa = insert (frame_of pa) (others m h l pa i \<union> sub m h l pa i)"
  using assms by (auto simp: tframes_eq others_def)

lemma others_disjoint:
  assumes "tree_ok m h n l pa" "i < 512"
  shows "frame_of pa \<notin> others m h l pa i" "frame_of pa \<notin> sub m h l pa i"
    "others m h l pa i \<inter> sub m h l pa i = {}"
  using assms unfolding tree_ok_eq[of m h n l] others_def by blast+

lemma tree_replace:
  assumes ok: "tree_ok m h n l pa" and i: "i < 512"
    and slots: "\<forall>j<512. j \<noteq> i \<longrightarrow> m' (slot_of h pa j) = m (slot_of h pa j)"
    and kids: "\<forall>a\<in>frame_words h (others m h l pa i). m' a = m a"
    and new: "\<forall>c. child m' h l pa i = Some c \<longrightarrow> tree_ok m' h n (l - 1) c"
    and fresh: "sub m' h l pa i \<inter> insert (frame_of pa) (others m h l pa i) = {}"
  shows "tree_ok m' h n l pa"
    "tframes m' h l pa = insert (frame_of pa) (others m h l pa i \<union> sub m' h l pa i)"
    "others m' h l pa i = others m h l pa i"
    "level_index l w \<noteq> i \<Longrightarrow> lookup m' h l pa w = lookup m h l pa w"
proof -
  note okD = ok[unfolded tree_ok_eq[of m h n l]]
  have ch: "child m' h l pa j = child m h l pa j" if "j < 512" "j \<noteq> i" for j
    using slots that by (blast intro: child_same)
  have loc: "tframes m' h (l - 1) c = tframes m h (l - 1) c \<and> tree_ok m' h n (l - 1) c \<and>
      (\<forall>v. lookup m' h (l - 1) c v = lookup m h (l - 1) c v)"
    if c: "child m h l pa j = Some c" "j < 512" "j \<noteq> i" for j c
  proof (rule tree_local)
    show "tree_ok m h n (l - 1) c" using okD c by blast
    have "tframes m h (l - 1) c \<subseteq> others m h l pa i" using c by (force simp: others_def sub_def)
    then show "\<forall>a\<in>frame_words h (tframes m h (l - 1) c). m' a = m a" using kids frame_words_mono by blast
  qed
  have sub: "sub m' h l pa j = sub m h l pa j" if "j < 512" "j \<noteq> i" for j
    using ch[OF that] loc that by (auto simp: sub_def split: option.splits)
  then show oth: "others m' h l pa i = others m h l pa i" by (simp add: others_def)
  then show "tframes m' h l pa = insert (frame_of pa) (others m h l pa i \<union> sub m' h l pa i)"
    using tframes_split[OF i, of m'] by simp
  have sub_others: "sub m' h l pa j \<subseteq> others m h l pa i" if "j < 512" "j \<noteq> i" for j
    using that sub[OF that] by (auto simp: others_def)
  show "tree_ok m' h n l pa" unfolding tree_ok_eq[of m' h n l]
  proof (intro conjI allI impI)
    show "aligned pa" "frame_of pa < n" using okD by blast+
  next
    fix j c assume "j < 512" "child m' h l pa j = Some c"
    then show "tree_ok m' h n (l - 1) c" using new ch[of j] loc[of j c] by (cases "j = i") auto
  next
    fix j :: nat assume "j < 512"
    then show "frame_of pa \<notin> sub m' h l pa j" using fresh sub[of j] okD by (cases "j = i") auto
  next
    fix j k :: nat assume jk: "j < 512" "k < 512" "j \<noteq> k"
    show "sub m' h l pa j \<inter> sub m' h l pa k = {}"
    proof (cases "j = i \<or> k = i")
      case True
      then show ?thesis using fresh jk sub_others[of j] sub_others[of k] by blast
    next
      case False
      then have "sub m' h l pa j = sub m h l pa j" "sub m' h l pa k = sub m h l pa k"
        using jk sub by blast+
      then show ?thesis using okD jk by simp
    qed
  qed
  show "lookup m' h l pa w = lookup m h l pa w" if w: "level_index l w \<noteq> i"
    using slots[rule_format, OF level_index_less w] loc[of "level_index l w"] w
    by (subst (1 2) lookup_eq) (auto simp: Let_def child_def)
qed

end
