(* ===== verification/Vmm_Walk.thy ===== *)
theory Vmm_Walk
  imports Page_Tables
begin

text \<open>
  \<open>map\<close> and \<open>unmap\<close> as one recursion over the levels.  The kernel writes the four levels out
  one after the other, with flags that record which tables are new; the recursions below
  undo on the way back instead.  They are parametric in the allocator, so that they can be
  verified against its contract alone; the lemmas at the end show that the kernel's
  functions are instances.
\<close>

fun page_level :: "PageSize \<Rightarrow> nat" where
  "page_level Base = 0"
| "page_level Large = 1"
| "page_level Huge = 2"

definition put_leaf ::
    "u64 \<Rightarrow> u64 \<Rightarrow> u64 option \<Rightarrow> nat \<Rightarrow> u64 \<Rightarrow> 'a vkernel_scheme \<Rightarrow> ((MapError + unit) \<times> 'a vkernel_scheme) option" where
  "put_leaf h v lf t pa s = do {
     add64 pa h;
     let slot = slot_of h pa (level_index t v);
     if present (kmem s slot) then Some (Inl AlreadyMapped, s)
     else do { e \<leftarrow> lf; Some (Inr (), tlb_flush v (store slot e s)) } }"

primrec walk_map ::
    "('a vkernel_scheme \<Rightarrow> nat \<Rightarrow> (u64 option \<times> 'a vkernel_scheme) option) \<Rightarrow>
     ('a vkernel_scheme \<Rightarrow> u64 \<Rightarrow> nat \<Rightarrow> 'a vkernel_scheme option) \<Rightarrow> x86 \<Rightarrow> (nat \<Rightarrow> u64 \<Rightarrow> u64 option) \<Rightarrow>
     u64 \<Rightarrow> u64 \<Rightarrow> u64 option \<Rightarrow> nat \<Rightarrow> nat \<Rightarrow> u64 \<Rightarrow> 'a vkernel_scheme \<Rightarrow>
     ((MapError + unit) \<times> 'a vkernel_scheme) option" where
  "walk_map alloc release X mk h v lf t 0 pa s = put_leaf h v lf t pa s"
| "walk_map alloc release X mk h v lf t (Suc l) pa s =
     (if Suc l = t then put_leaf h v lf t pa s
      else do {
        add64 pa h;
        let slot = slot_of h pa (level_index (Suc l) v);
        if present (kmem s slot) \<and> leaf (Suc l) (kmem s slot) then Some (Inl AlreadyMapped, s)
        else if present (kmem s slot)
        then walk_map alloc release X mk h v lf t l (entry_addr (kmem s slot)) s
        else do {
          (r, s) \<leftarrow> alloc s 0;
          (case r of
            None \<Rightarrow> Some (Inl OutOfMemory, s)
          | Some frame \<Rightarrow> do {
              s \<leftarrow> zero_frame X frame h s;
              e \<leftarrow> mk (Suc l) frame;
              (r, s) \<leftarrow> walk_map alloc release X mk h v lf t l frame (store slot e s);
              if r = Inl OutOfMemory
              then do { s \<leftarrow> release (store slot 0 s) frame 0; Some (r, s) }
              else Some (r, s) }) } })"

definition reclaim ::
    "('a vkernel_scheme \<Rightarrow> u64 \<Rightarrow> nat \<Rightarrow> 'a vkernel_scheme option) \<Rightarrow> x86 \<Rightarrow> u64 \<Rightarrow> nat \<Rightarrow> u64 \<Rightarrow> u64 \<Rightarrow>
     'a vkernel_scheme \<Rightarrow> 'a vkernel_scheme option" where
  "reclaim release X h l slot c s =
     (if l \<le> 2 \<and> bit (kmem s slot) 7 then Some s
      else do {
        em \<leftarrow> is_empty X c h (kmem s);
        if em then do { s \<leftarrow> release (store slot 0 s) c 0; Some (tlb_flush_all s) } else Some s })"

primrec walk_unmap ::
    "('a vkernel_scheme \<Rightarrow> u64 \<Rightarrow> nat \<Rightarrow> 'a vkernel_scheme option) \<Rightarrow> x86 \<Rightarrow> u64 \<Rightarrow> u64 \<Rightarrow> nat \<Rightarrow> nat \<Rightarrow> u64 \<Rightarrow>
     'a vkernel_scheme \<Rightarrow> ((UnmapError + unit) \<times> 'a vkernel_scheme) option" where
  "walk_unmap release X h v t 0 pa s = do {
     add64 pa h;
     let slot = slot_of h pa (level_index 0 v);
     if \<not> present (kmem s slot) then Some (Inl NotMapped, s)
     else Some (Inr (), tlb_flush v (store slot 0 s)) }"
| "walk_unmap release X h v t (Suc l) pa s = do {
     add64 pa h;
     let slot = slot_of h pa (level_index (Suc l) v);
     if Suc l = t then
       (if \<not> present (kmem s slot) \<or> \<not> leaf t (kmem s slot) then Some (Inl NotMapped, s)
        else Some (Inr (), tlb_flush v (store slot 0 s)))
     else if \<not> present (kmem s slot) \<or> leaf (Suc l) (kmem s slot) then Some (Inl NotMapped, s)
     else do {
       let c = entry_addr (kmem s slot);
       (r, s) \<leftarrow> walk_unmap release X h v t l c s;
       (case r of Inl e \<Rightarrow> Some (Inl e, s)
       | Inr _ \<Rightarrow> do { s \<leftarrow> reclaim release X h (Suc l) slot c s; Some (Inr (), s) }) } }"

section \<open>The kernel's functions as instances\<close>

definition parent_new :: "x86 \<Rightarrow> nat \<Rightarrow> u64 \<Rightarrow> u64 option" where
  "parent_new X l frame =
     (if l = 3 then PML4Entry_new X frame (pml4_parent X)
      else if l = 2 then PDPTEntry_new X frame (pdpt_parent X)
      else PDEntry_new X frame (pd_parent X))"

fun leaf_new :: "x86 \<Rightarrow> u64 \<Rightarrow> u64 \<Rightarrow> PageSize \<Rightarrow> u64 option" where
  "leaf_new X phys flags Base = PTEntry_new X phys (flags OR FLAG_P X)"
| "leaf_new X phys flags Large = PDEntry_new X phys (pd_leaf X flags)"
| "leaf_new X phys flags Huge = PDPTEntry_new X phys (pdpt_leaf X flags)"

definition kernel_walk_map ::
    "x86 \<Rightarrow> u64 \<Rightarrow> u64 \<Rightarrow> u64 \<Rightarrow> u64 \<Rightarrow> PageSize \<Rightarrow> nat \<Rightarrow> u64 \<Rightarrow> 'a vkernel_scheme \<Rightarrow>
     ((MapError + unit) \<times> 'a vkernel_scheme) option" where
  "kernel_walk_map X h virt phys flags sz =
     walk_map (\<lambda>s k. pmm_alloc_pages k s) (\<lambda>s a k. pmm_free_pages a k s) X (parent_new X) h virt
       (leaf_new X phys flags sz) (page_level sz)"

text \<open>What the flags \<open>new_pd\<close> and \<open>new_pdpt\<close> do when the allocator is exhausted.\<close>

definition undo ::
    "bool \<Rightarrow> u64 \<Rightarrow> u64 \<Rightarrow> (MapError + unit) \<times> 'a vkernel_scheme \<Rightarrow> ((MapError + unit) \<times> 'a vkernel_scheme) option" where
  "undo fresh slot frame rs =
     (if fresh \<and> fst rs = Inl OutOfMemory
      then do { s \<leftarrow> pmm_free_frame frame (store slot 0 (snd rs)); Some (fst rs, s) } else Some rs)"

lemma frame_is_page:
  "pmm_alloc_frame s = pmm_alloc_pages 0 s" "pmm_free_frame a s = pmm_free_pages a 0 s"
  by (simp_all add: pmm_alloc_frame_def pmm_alloc_pages_def pmm_free_frame_def pmm_free_pages_def)

lemma entry_slot_ok:
  "x86_ok X \<Longrightarrow> entry_slot X (pa + h) (level_index l v) = Some (slot_of h pa (level_index l v))"
  by (simp add: entry_slot_def slot_of_def x86_simps)

lemma add64_cases:
  obtains (panic) "add64 a b = None" | (sum) "add64 a b = Some (a + b)"
  by (cases "uint a + uint b < 2 ^ 64") (simp_all add: add64_def)

lemma option_pair_cases:
  obtains "x = None" | a b where "x = Some (a, b)"
  by (cases x) auto

lemma put_leaf_not_oom: "put_leaf h v lf t pa s = Some (r, s') \<Longrightarrow> r \<noteq> Inl OutOfMemory"
  by (auto simp: put_leaf_def Let_def Option.bind_eq_Some_conv split: if_splits)

lemma undo_id: "fst rs \<noteq> Inl OutOfMemory \<Longrightarrow> undo b slot f rs = Some rs" "undo False slot f rs = Some rs"
  by (simp_all add: undo_def)

lemma put_leaf_undo:
  "do { rs \<leftarrow> put_leaf h v lf t pa s; rs \<leftarrow> undo b slot f rs; undo b' slot' f' rs } = put_leaf h v lf t pa s"
  "do { (r, s) \<leftarrow> put_leaf h v lf t pa s; if r = Inl OutOfMemory then g r s else Some (r, s) } =
   put_leaf h v lf t pa s"
  "do { rs \<leftarrow> put_leaf h v lf t pa s; undo b' slot' f' rs } = put_leaf h v lf t pa s"
  by (cases "put_leaf h v lf t pa s"; use put_leaf_not_oom[of h v lf t pa s] in \<open>force simp: undo_id\<close>)+

lemmas walk_eq_simps = kernel_walk_map_def present_def leaf_def table_mut_def entry_addr_def Let_def
  frame_is_page parent_new_def

lemma map_in_pt_eq:
  assumes x: "x86_ok X"
  shows "map_in_pt X h virt phys flags pa s = kernel_walk_map X h virt phys flags Base 0 pa s"
  by (cases rule: add64_cases[of pa h])
    (simp_all add: map_in_pt_def walk_eq_simps put_leaf_def x86_simps[OF x] entry_slot_ok[OF x])

lemma undo_True:
  "undo True slot f = (\<lambda>(r, s). if r = Inl OutOfMemory
     then do { s \<leftarrow> pmm_free_pages f 0 (store slot 0 s); Some (r, s) } else Some (r, s))"
  by (simp add: undo_def fun_eq_iff frame_is_page)

text \<open>
  One level of the kernel's code against one level of the recursion, given the
  correspondence below; the cases are the state of the slot and the answer of the allocator.
\<close>

lemma map_in_pd_eq:
  assumes x: "x86_ok X" and sz: "sz \<noteq> Huge"
  shows "map_in_pd X h virt phys flags sz pml4_slot np pdpt_phys pdpt_slot nd pd_phys s =
    do { rs \<leftarrow> kernel_walk_map X h virt phys flags sz 1 pd_phys s;
         rs \<leftarrow> undo nd pdpt_slot pd_phys rs; undo np pml4_slot pdpt_phys rs }"
proof (cases rule: add64_cases[of pd_phys h])
  case sum
  note simps = map_in_pd_def walk_eq_simps x86_simps[OF x] entry_slot_ok[OF x] undo_id map_in_pt_eq[OF x]
    put_leaf_undo
  let ?e = "kmem s (slot_of h pd_phys (level_index 1 virt))"
  consider "sz = Large" | "sz = Base" "bit ?e 0" | "sz = Base" "\<not> bit ?e 0" "pmm_alloc_pages 0 s = None"
    | r s' where "sz = Base" "\<not> bit ?e 0" "pmm_alloc_pages 0 s = Some (r, s')"
    using sz by (cases sz; cases "pmm_alloc_pages 0 s" rule: option_pair_cases) auto
  then show ?thesis
  proof cases
    case 1
    then show ?thesis using sum by (simp add: simps put_leaf_def)
  next
    case (4 r s')
    then show ?thesis using sum
      by (cases r) ((cases np; cases nd; simp add: simps undo_True), simp add: simps)
  qed (use sum in \<open>simp_all add: simps\<close>)
qed (use sz in \<open>cases sz; simp add: map_in_pd_def walk_eq_simps put_leaf_def\<close>)

lemma map_in_pdpt_eq:
  assumes x: "x86_ok X"
  shows "map_in_pdpt X h virt phys flags sz pml4_slot np pdpt_phys s =
    do { rs \<leftarrow> kernel_walk_map X h virt phys flags sz 2 pdpt_phys s; undo np pml4_slot pdpt_phys rs }"
proof (cases rule: add64_cases[of pdpt_phys h])
  case sum
  have two: "(2 :: nat) = Suc (Suc 0)" by simp
  note simps = map_in_pdpt_def map_in_pd_eq[OF x] x86_simps[OF x] entry_slot_ok[OF x] undo_id
  let ?e = "kmem s (slot_of h pdpt_phys (level_index 2 virt))"
  consider "sz = Huge" | "sz \<noteq> Huge" "bit ?e 0" | "sz \<noteq> Huge" "\<not> bit ?e 0" "pmm_alloc_pages 0 s = None"
    | r s' where "sz \<noteq> Huge" "\<not> bit ?e 0" "pmm_alloc_pages 0 s = Some (r, s')"
    by (cases "pmm_alloc_pages 0 s" rule: option_pair_cases) auto
  then show ?thesis
  proof cases
    case 1
    then show ?thesis using sum by (simp add: simps walk_eq_simps put_leaf_def two)
  next
    case 2
    have "page_level sz \<noteq> 2" using 2 by (cases sz) auto
    then show ?thesis using sum 2 by (simp add: simps walk_eq_simps two)
  next
    case 3
    have "page_level sz \<noteq> 2" using 3 by (cases sz) auto
    then show ?thesis using sum 3 by (simp add: simps walk_eq_simps two)
  next
    case (4 r s')
    have "page_level sz \<noteq> 2" using 4 by (cases sz) auto
    then show ?thesis using sum 4 by (cases r; cases np) (simp_all add: simps walk_eq_simps undo_True two)
  qed
qed (cases sz; simp add: map_in_pdpt_def walk_eq_simps put_leaf_def numeral_2_eq_2)

definition map_guard :: "x86 \<Rightarrow> u64 \<Rightarrow> u64 \<Rightarrow> PageSize \<Rightarrow> MapError option" where
  "map_guard X virt phys sz =
     (if \<not> is_canonical virt then Some NonCanonical
      else if is_multiple_of virt (PageSize_bytes X sz) \<and> is_multiple_of phys (PageSize_bytes X sz) then None
      else Some Misaligned)"

text \<open>Without an entry to put in, the walk goes the same way and stops where the entry would be written.\<close>

lemma walk_map_no_leaf:
  "walk_map alloc release X mk h v None t l pa s =
    (case walk_map alloc release X mk h v (Some e) t l pa s of Some (Inr _, _) \<Rightarrow> None | rs \<Rightarrow> rs)"
proof (induction l arbitrary: pa s)
  case 0
  show ?case by (cases rule: add64_cases[of pa h]) (simp_all add: put_leaf_def Let_def)
next
  case (Suc l)
  show ?case
    by (cases rule: add64_cases[of pa h])
      (auto simp: put_leaf_def Let_def Suc.IH split: option.splits sum.splits prod.splits bind_splits)
qed

declare walk_map.simps(2) [simp del]

lemma Vmm_map_eq:
  assumes x: "x86_ok X"
  shows "Vmm_map X v virt phys flags sz s =
    (case map_guard X virt phys sz of
       Some e \<Rightarrow> Some (Inl e, s)
     | None \<Rightarrow> kernel_walk_map X (HHDM_OFFSET s) virt phys flags sz 3 (top_level v) s)"
proof (cases "map_guard X virt phys sz")
  case (Some e)
  then show ?thesis by (auto simp: map_guard_def Vmm_map_def split: if_splits)
next
  case None
  have levels: "(2 :: nat) = Suc (Suc 0)" "(3 :: nat) = Suc (Suc (Suc 0))" by simp_all
  have pl: "Suc (Suc (Suc 0)) \<noteq> page_level sz" by (cases sz) auto
  let ?h = "HHDM_OFFSET s" and ?top = "top_level v"
  note simps = Vmm_map_def map_in_pdpt_eq[OF x] x86_simps[OF x] entry_slot_ok[OF x] undo_id undo_True pl
    walk_eq_simps levels walk_map.simps(2)[where l = "Suc (Suc 0)"]
  have g: "is_canonical virt" "is_multiple_of virt (PageSize_bytes X sz)"
    "is_multiple_of phys (PageSize_bytes X sz)"
    using None by (auto simp: map_guard_def split: if_splits)
  show ?thesis
  proof (cases rule: add64_cases[of ?top ?h])
    case sum
    show ?thesis
    proof (cases "pmm_alloc_pages 0 s" rule: option_pair_cases)
      case (2 r s')
      then show ?thesis using sum None g by (cases r) (simp_all add: simps)
    qed (use sum None g in \<open>simp add: simps\<close>)
  qed (use None g in \<open>simp add: simps\<close>)
qed

definition unmap_guard :: "x86 \<Rightarrow> u64 \<Rightarrow> PageSize \<Rightarrow> UnmapError option" where
  "unmap_guard X virt sz =
     (if \<not> is_canonical virt then Some UnmapNonCanonical
      else if is_multiple_of virt (PageSize_bytes X sz) then None else Some UnmapMisaligned)"

lemma reclaim_eqs:
  assumes x: "x86_ok X"
  shows "reclaim_pt X slot c h s = reclaim (\<lambda>s a k. pmm_free_pages a k s) X h 1 slot c s"
    "reclaim_pd X slot c h s = reclaim (\<lambda>s a k. pmm_free_pages a k s) X h 2 slot c s"
    "reclaim_pdpt X slot c h s = reclaim (\<lambda>s a k. pmm_free_pages a k s) X h 3 slot c s"
  unfolding reclaim_pt_def reclaim_pd_def reclaim_pdpt_def reclaim_def frame_is_page x86_simps[OF x] by simp_all

abbreviation pmm_reclaim ::
    "x86 \<Rightarrow> u64 \<Rightarrow> nat \<Rightarrow> u64 \<Rightarrow> u64 \<Rightarrow> 'a vkernel_scheme \<Rightarrow> 'a vkernel_scheme option" where
  "pmm_reclaim \<equiv> reclaim (\<lambda>s a k. pmm_free_pages a k s)"

abbreviation pmm_walk_unmap ::
    "x86 \<Rightarrow> u64 \<Rightarrow> u64 \<Rightarrow> nat \<Rightarrow> nat \<Rightarrow> u64 \<Rightarrow> 'a vkernel_scheme \<Rightarrow>
     ((UnmapError + unit) \<times> 'a vkernel_scheme) option" where
  "pmm_walk_unmap \<equiv> walk_unmap (\<lambda>s a k. pmm_free_pages a k s)"

text \<open>What follows an \<open>unmap\<close> further down.\<close>

definition on_ok ::
    "('a vkernel_scheme \<Rightarrow> 'a vkernel_scheme option) \<Rightarrow> (UnmapError + unit) \<times> 'a vkernel_scheme \<Rightarrow>
     ((UnmapError + unit) \<times> 'a vkernel_scheme) option" where
  "on_ok f = (\<lambda>(r, s). case r of Inl e \<Rightarrow> Some (Inl e, s) | Inr _ \<Rightarrow> do { s \<leftarrow> f s; Some (Inr (), s) })"

lemma on_ok_simps [simp]:
  "on_ok f (Inl e, s) = Some (Inl e, s)" "on_ok f (Inr u, s) = do { s \<leftarrow> f s; Some (Inr (), s) }"
  by (simp_all add: on_ok_def)

lemma walk_unmap_Suc:
  "walk_unmap release X h v t (Suc l) pa s = do {
     add64 pa h;
     let slot = slot_of h pa (level_index (Suc l) v);
     if Suc l = t then
       (if \<not> present (kmem s slot) \<or> \<not> leaf t (kmem s slot) then Some (Inl NotMapped, s)
        else Some (Inr (), tlb_flush v (store slot 0 s)))
     else if \<not> present (kmem s slot) \<or> leaf (Suc l) (kmem s slot) then Some (Inl NotMapped, s)
     else do {
       rs \<leftarrow> walk_unmap release X h v t l (entry_addr (kmem s slot)) s;
       on_ok (reclaim release X h (Suc l) slot (entry_addr (kmem s slot))) rs } }"
  by (simp add: on_ok_def Let_def)

declare walk_unmap.simps(2) [simp del]

lemma unmap_in_pt_eq:
  assumes x: "x86_ok X"
  shows "unmap_in_pt X h virt pml4_slot pdpt_phys pdpt_slot pd_phys pd_slot pt_phys s =
    do { rs \<leftarrow> pmm_walk_unmap X h virt 0 0 pt_phys s;
         rs \<leftarrow> on_ok (pmm_reclaim X h 1 pd_slot pt_phys) rs;
         rs \<leftarrow> on_ok (pmm_reclaim X h 2 pdpt_slot pd_phys) rs;
         on_ok (pmm_reclaim X h 3 pml4_slot pdpt_phys) rs }"
  by (cases rule: add64_cases[of pt_phys h])
    (simp_all add: unmap_in_pt_def walk_eq_simps x86_simps[OF x] entry_slot_ok[OF x] reclaim_eqs[OF x])

lemma unmap_in_pd_eq:
  assumes x: "x86_ok X" and sz: "sz \<noteq> Huge"
  shows "unmap_in_pd X h virt sz pml4_slot pdpt_phys pdpt_slot pd_phys s =
    do { rs \<leftarrow> pmm_walk_unmap X h virt (page_level sz) 1 pd_phys s;
         rs \<leftarrow> on_ok (pmm_reclaim X h 2 pdpt_slot pd_phys) rs;
         on_ok (pmm_reclaim X h 3 pml4_slot pdpt_phys) rs }"
  using sz by (cases sz; cases rule: add64_cases[of pd_phys h])
    (simp_all add: unmap_in_pd_def walk_eq_simps x86_simps[OF x] entry_slot_ok[OF x] reclaim_eqs[OF x]
      unmap_in_pt_eq[OF x] walk_unmap_Suc)

lemma unmap_in_pdpt_eq:
  assumes x: "x86_ok X"
  shows "unmap_in_pdpt X h virt sz pml4_slot pdpt_phys s =
    do { rs \<leftarrow> pmm_walk_unmap X h virt (page_level sz) 2 pdpt_phys s;
         on_ok (pmm_reclaim X h 3 pml4_slot pdpt_phys) rs }"
proof -
  have two: "(2 :: nat) = Suc (Suc 0)" by simp
  show ?thesis
    by (cases sz; cases rule: add64_cases[of pdpt_phys h])
      (simp_all add: unmap_in_pdpt_def walk_eq_simps x86_simps[OF x] entry_slot_ok[OF x] reclaim_eqs[OF x]
      unmap_in_pd_eq[OF x] walk_unmap_Suc two)
qed

lemma Vmm_unmap_eq:
  assumes x: "x86_ok X"
  shows "Vmm_unmap X v virt sz s =
    (case unmap_guard X virt sz of
       Some e \<Rightarrow> Some (Inl e, s)
     | None \<Rightarrow> pmm_walk_unmap X (HHDM_OFFSET s) virt (page_level sz) 3 (top_level v) s)"
proof (cases "unmap_guard X virt sz")
  case (Some e)
  then show ?thesis by (auto simp: unmap_guard_def Vmm_unmap_def split: if_splits)
next
  case None
  have levels: "(2 :: nat) = Suc (Suc 0)" "(3 :: nat) = Suc (Suc (Suc 0))" by simp_all
  have pl: "Suc (Suc (Suc 0)) \<noteq> page_level sz" by (cases sz) auto
  have g: "is_canonical virt" "is_multiple_of virt (PageSize_bytes X sz)"
    using None by (auto simp: unmap_guard_def split: if_splits)
  show ?thesis
    by (cases rule: add64_cases[of "top_level v" "HHDM_OFFSET s"])
      (simp_all add: Vmm_unmap_def walk_eq_simps x86_simps[OF x] entry_slot_ok[OF x] None g levels
        unmap_in_pdpt_eq[OF x] walk_unmap_Suc[where l = "Suc (Suc 0)"] pl)
qed

end
