(* ===== verification/Vmm_Correct.thy ===== *)
theory Vmm_Correct
  imports Vmm_Walk
begin

text \<open>
  Correctness of the two recursions of \<open>Vmm_Walk\<close> for every allocator that provides the
  contract \<open>page_memory\<close>.  A tree of tables is well kept when its frames are not free; the
  lemma \<open>graft\<close> says what remains true when only one entry of a table and what is below
  it changes, and the results for whole walks follow by induction on the level.
\<close>

section \<open>What a walk finds\<close>

text \<open>Something is in the way of a mapping at level \<open>t\<close>; the tables missing for it.\<close>

primrec occupied :: "mem \<Rightarrow> u64 \<Rightarrow> nat \<Rightarrow> u64 \<Rightarrow> nat \<Rightarrow> u64 \<Rightarrow> bool" where
  "occupied m h t v 0 pa = present (m (slot_of h pa (level_index 0 v)))"
| "occupied m h t v (Suc l) pa =
     (let e = m (slot_of h pa (level_index (Suc l) v)) in
      present e \<and> (Suc l = t \<or> leaf (Suc l) e \<or> occupied m h t v l (entry_addr e)))"

primrec missing :: "mem \<Rightarrow> u64 \<Rightarrow> nat \<Rightarrow> u64 \<Rightarrow> nat \<Rightarrow> u64 \<Rightarrow> nat" where
  "missing m h t v 0 pa = 0"
| "missing m h t v (Suc l) pa =
     (let e = m (slot_of h pa (level_index (Suc l) v)) in
      if Suc l = t then 0
      else if present e then missing m h t v l (entry_addr e)
      else Suc l - t)"

definition same_page :: "nat \<Rightarrow> nat \<Rightarrow> u64 \<Rightarrow> u64 \<Rightarrow> bool" where
  "same_page t l v w \<longleftrightarrow> (\<forall>k. t \<le> k \<and> k \<le> l \<longrightarrow> level_index k w = level_index k v)"

lemma same_page_Suc:
  "t \<le> l \<Longrightarrow> same_page t (Suc l) v w \<longleftrightarrow> level_index (Suc l) w = level_index (Suc l) v \<and> same_page t l v w"
  by (auto simp: same_page_def le_Suc_eq)

lemma same_page_self [simp]: "same_page t t v w \<longleftrightarrow> level_index t w = level_index t v"
  by (auto simp: same_page_def)

lemma zero_table:
  assumes "\<forall>i<512. \<not> present (m (slot_of h pa i))"
  shows "\<not> occupied m h t v l pa" "lookup m h l pa v = None" "child m h l pa i = None \<or> 512 \<le> i"
    "tframes m h l pa = {frame_of pa}" "t \<le> l \<Longrightarrow> missing m h t v l pa = l - t"
proof -
  have e: "\<not> present (m (slot_of h pa (level_index k w)))" for k w using assms by simp
  show "\<not> occupied m h t v l pa" using e by (cases l) (simp_all add: Let_def)
  show "lookup m h l pa v = None" using e by (subst lookup_eq) (simp add: Let_def)
  show "child m h l pa i = None \<or> 512 \<le> i" using assms by (cases "i < 512") (auto simp: child_def Let_def)
  have "sub m h l pa i = {}" if "i < 512" for i using assms that by (simp add: sub_def child_def Let_def)
  then show "tframes m h l pa = {frame_of pa}" by (simp add: tframes_eq)
  show "t \<le> l \<Longrightarrow> missing m h t v l pa = l - t" using e by (cases l) (auto simp: Let_def)
qed

lemma zero_tree_ok:
  assumes "\<forall>i<512. \<not> present (m (slot_of h pa i))" "aligned pa" "frame_of pa < n"
  shows "tree_ok m h n l pa"
  using assms by (subst tree_ok_eq) (simp add: sub_def child_def Let_def)

lemma zero_frame_ok:
  assumes x: "x86_ok X" and f: "fits h n" "aligned f" "frame_of f < n"
  obtains s' where "zero_frame X f h s = Some s'" "s' = s\<lparr>kmem := kmem s'\<rparr>"
    "agree_off (frame_words h {frame_of f}) (kmem s) (kmem s')" "\<forall>i<512. kmem s' (slot_of h f i) = 0"
proof -
  let ?m = "\<lambda>a. if a - (f + h) < 2 ^ 12 then 0 else kmem s a"
  have z: "zero_frame X f h s = Some (s\<lparr>kmem := ?m\<rparr>)"
    using table_mut_ok[OF f] x by (simp add: zero_frame_def x86_simps)
  have "a \<in> frame_words h {frame_of f}" if a: "a - (f + h) < 2 ^ 12" for a
  proof -
    have "unat (a - (f + h)) < 4096" using a by (simp add: word_less_nat_alt)
    from frame_words_mem[OF singletonI this, of h "frame_of f"] show ?thesis
      by (simp add: aligned_fptr[OF f(2), symmetric])
  qed
  then have "agree_off (frame_words h {frame_of f}) (kmem s) ?m" by (auto simp: agree_off_def)
  moreover have "?m (slot_of h f i) = 0" if "i < 512" for i
  proof -
    have "unat (word_of_nat (8 * i) :: u64) = 8 * i" using that by (intro unat_of_nat64) simp
    then have "(word_of_nat (8 * i) :: u64) < 2 ^ 12" using that by (simp add: word_less_nat_alt)
    then show ?thesis by (simp add: slot_of_def)
  qed
  ultimately show thesis using z by (intro that) auto
qed

section \<open>Trees beside an allocator\<close>

definition vrest :: "'a vkernel_scheme \<Rightarrow> u64 \<times> Vmm option \<times> u64 \<times> 'a" where
  "vrest s = (HHDM_OFFSET s, VMM s, CR3 s, vkernel.more s)"

lemma vrest_simps [simp]:
  "vrest (tlb_flush v s) = vrest s" "vrest (tlb_flush_all s) = vrest s" "vrest (store a w s) = vrest s"
  "vrest (kmem_update f s) = vrest s"
  by (simp_all add: vrest_def tlb_flush_def tlb_flush_all_def store_def)

lemma kernel_more_vrest:
  fixes s s' :: "'a vkernel_scheme"
  assumes "kernel.more s' = kernel.more s"
  shows "vrest s' = vrest s" "tlb s' = tlb s"
  using assms by (cases s; cases s'; simp add: vrest_def)+

lemma state_simps [simp]:
  "kmem (store a w s) = (kmem s)(a := w)" "PMM (store a w s) = PMM s" "kmem (tlb_flush v t) = kmem t"
  "PMM (tlb_flush v t) = PMM t" "tlb (store a w t) = tlb t" "tlb (tlb_flush v t) = tlb t @ [Flush v]"
  "kmem (tlb_flush_all t) = kmem t" "PMM (tlb_flush_all t) = PMM t" "tlb (tlb_flush_all t) = tlb t @ [FlushAll]"
  by (simp_all add: store_def tlb_flush_def tlb_flush_all_def)

locale table_memory = page_memory alloc release ok frames avail K total hhdm
  for alloc :: "'a vkernel_scheme \<Rightarrow> nat \<Rightarrow> (u64 option \<times> 'a vkernel_scheme) option"
    and release :: "'a vkernel_scheme \<Rightarrow> u64 \<Rightarrow> nat \<Rightarrow> 'a vkernel_scheme option"
    and ok frames avail K total hhdm
begin

text \<open>
  The tables at \<open>pa\<close> are well formed and none of their frames is free.  Physical addresses
  have at most 52 bits, so there are at most 2^40 frames.
\<close>

definition tree_inv :: "'a vkernel_scheme \<Rightarrow> nat \<Rightarrow> u64 \<Rightarrow> bool" where
  "tree_inv s l pa \<longleftrightarrow> ok s \<and> total s \<le> 2 ^ 40 \<and> tree_ok (kmem s) (hhdm s) (total s) l pa \<and>
     tframes (kmem s) (hhdm s) l pa \<inter> avail s = {}"

lemma tree_inv_basic:
  assumes "tree_inv s l pa"
  shows "ok s" "fits (hhdm s) (total s)" "aligned pa" "frame_of pa < total s" "frame_of pa \<notin> avail s"
    "tree_ok (kmem s) (hhdm s) (total s) l pa" "add64 pa (hhdm s) = Some (pa + hhdm s)"
    "tframes (kmem s) (hhdm s) l pa \<inter> avail s = {}" "frame_of pa < 2 ^ 40" "total s \<le> 2 ^ 40"
    "tframes (kmem s) (hhdm s) l pa \<subseteq> {..<total s}" "avail s \<subseteq> {..<total s}"
proof -
  show o: "ok s" "tree_ok (kmem s) (hhdm s) (total s) l pa" "tframes (kmem s) (hhdm s) l pa \<inter> avail s = {}"
    and t: "total s \<le> 2 ^ 40"
    using assms by (simp_all add: tree_inv_def)
  show f: "fits (hhdm s) (total s)" using frames_fit[OF o(1)] by blast
  show a: "aligned pa" "frame_of pa < total s" using o(2) tree_ok_eq by blast+
  show "frame_of pa \<notin> avail s" using o(3) root_in_tframes by blast
  show "add64 pa (hhdm s) = Some (pa + hhdm s)" using table_mut_ok[OF f a] .
  show "frame_of pa < 2 ^ 40" using a(2) t by simp
  show "tframes (kmem s) (hhdm s) l pa \<subseteq> {..<total s}" using tframes_bound[OF o(2)] .
  show "avail s \<subseteq> {..<total s}" using avail_total[OF o(1)] .
qed

lemma slot_word:
  assumes "tree_inv s l pa" "j < 512"
  shows "slot_of (hhdm s) pa j \<in> frame_words (hhdm s) S \<Longrightarrow> S \<subseteq> {..<total s} \<Longrightarrow> frame_of pa \<in> S"
proof -
  note b = tree_inv_basic[OF assms(1)]
  assume "slot_of (hhdm s) pa j \<in> frame_words (hhdm s) S" "S \<subseteq> {..<total s}"
  then show "frame_of pa \<in> S"
    using frame_word_iff[OF b(2) _ b(4), of S "8 * j"] assms(2) by (simp add: slot_of_fptr[OF b(3)])
qed

lemma tree_inv_child:
  assumes "tree_inv s l pa" "i < 512" "child (kmem s) (hhdm s) l pa i = Some c"
  shows "tree_inv s (l - 1) c" "sub (kmem s) (hhdm s) l pa i = tframes (kmem s) (hhdm s) (l - 1) c"
proof -
  note b = tree_inv_basic[OF assms(1)]
  show sub: "sub (kmem s) (hhdm s) l pa i = tframes (kmem s) (hhdm s) (l - 1) c"
    using assms(3) by (simp add: sub_def)
  have "tree_ok (kmem s) (hhdm s) (total s) (l - 1) c" using b(6) assms(2,3) tree_ok_eq by blast
  moreover have "tframes (kmem s) (hhdm s) (l - 1) c \<inter> avail s = {}"
    using b(8) sub_tframes[OF assms(2)] unfolding sub[symmetric] by blast
  ultimately show "tree_inv s (l - 1) c" using b by (simp add: tree_inv_def)
qed

text \<open>What is written beside a table, or in one of its entries, leaves its other entries alone.\<close>

lemma other_slots:
  assumes inv: "tree_inv s l pa" and i: "i < 512" and j: "j < 512" "j \<noteq> i"
    and S: "S \<subseteq> {..<total s}" "frame_of pa \<notin> S"
    and ag: "agree_off (insert (slot_of (hhdm s) pa i) (frame_words (hhdm s) S)) (kmem s) m'"
  shows "m' (slot_of (hhdm s) pa j) = kmem s (slot_of (hhdm s) pa j)"
proof -
  note b = tree_inv_basic[OF inv]
  have "slot_of (hhdm s) pa j \<notin> frame_words (hhdm s) S" using slot_word[OF inv j(1)] S by blast
  moreover have "slot_of (hhdm s) pa j \<noteq> slot_of (hhdm s) pa i" using slot_inj[OF b(2-4) j(1) i] j by simp
  ultimately show ?thesis using ag unfolding agree_off_def by blast
qed

lemma graft:
  assumes inv: "tree_inv s l pa" and i: "i < 512"
  defines "m \<equiv> kmem s" and "h \<equiv> hhdm s"
  assumes s': "ok s'" "hhdm s' = h" "total s' = total s"
    and ag: "agree_off (insert (slot_of h pa i) (frame_words h (sub m h l pa i \<union> avail s))) m (kmem s')"
    and new: "\<And>c. child (kmem s') h l pa i = Some c \<Longrightarrow> tree_ok (kmem s') h (total s) (l - 1) c"
    and part: "sub (kmem s') h l pa i \<union> avail s' = sub m h l pa i \<union> avail s"
      "sub (kmem s') h l pa i \<inter> avail s' = {}"
  shows "tree_inv s' l pa"
    and "tframes (kmem s') h l pa \<union> avail s' = tframes m h l pa \<union> avail s"
    and "tframes (kmem s') h l pa = insert (frame_of pa) (others m h l pa i \<union> sub (kmem s') h l pa i)"
    and "agree_off (frame_words h (tframes m h l pa \<union> avail s)) m (kmem s')"
    and "level_index l w \<noteq> i \<Longrightarrow> lookup (kmem s') h l pa w = lookup m h l pa w"
proof -
  note b = tree_inv_basic[OF inv, folded m_def h_def]
  define Q where "Q = others m h l pa i"
  define S where "S = sub m h l pa i"
  define S' where "S' = sub (kmem s') h l pa i"
  note ag' = ag[folded S_def]
  have tf: "tframes m h l pa = insert (frame_of pa) (Q \<union> S)"
    unfolding Q_def S_def by (rule tframes_split[OF i])
  have dj: "frame_of pa \<notin> Q" "frame_of pa \<notin> S" "Q \<inter> S = {}"
    unfolding Q_def S_def using others_disjoint[OF b(6) i] by blast+
  have bd: "Q \<subseteq> {..<total s}" "S \<union> avail s \<subseteq> {..<total s}" using b(11,12) unfolding tf by blast+
  have av: "frame_of pa \<notin> avail s" "Q \<inter> avail s = {}" "S \<inter> avail s = {}" using b(8) unfolding tf by blast+
  have "Q \<inter> (S \<union> avail s) = {}" using dj av by blast
  note off = frame_words_disjoint[OF b(2) bd this]
  have slots: "\<forall>j<512. j \<noteq> i \<longrightarrow> kmem s' (slot_of h pa j) = m (slot_of h pa j)"
    using other_slots[OF inv i _ _ bd(2), folded h_def m_def, OF _ _ _ ag'] dj av by blast
  have "slot_of h pa i \<notin> frame_words h Q"
    using slot_word[OF inv i, folded h_def, of Q] bd dj by blast
  then have "\<forall>a\<in>frame_words h Q. a \<notin> insert (slot_of h pa i) (frame_words h (S \<union> avail s))"
    using off by blast
  then have kids: "\<forall>a\<in>frame_words h Q. kmem s' a = m a"
    using ag' unfolding agree_off_def by blast
  have "S' \<subseteq> S \<union> avail s" using part unfolding S_def S'_def by blast
  then have fresh: "S' \<inter> insert (frame_of pa) Q = {}" using dj av by blast
  note r = tree_replace[OF b(6) i slots, folded Q_def S'_def, OF kids _ fresh]
  have new': "\<forall>c. child (kmem s') h l pa i = Some c \<longrightarrow> tree_ok (kmem s') h (total s) (l - 1) c"
    using new by blast
  show tf': "tframes (kmem s') h l pa = insert (frame_of pa) (others m h l pa i \<union> sub (kmem s') h l pa i)"
    using r(2)[OF new'] unfolding Q_def S'_def .
  show "tframes (kmem s') h l pa \<union> avail s' = tframes m h l pa \<union> avail s"
    unfolding tf' tf using part unfolding Q_def S_def by blast
  show "lookup (kmem s') h l pa w = lookup m h l pa w" if "level_index l w \<noteq> i"
    using r(4)[OF new' that] .
  have "avail s' \<subseteq> S \<union> avail s" using part unfolding S_def by blast
  then have "insert (frame_of pa) (Q \<union> S') \<inter> avail s' = {}"
    using part(2) dj av unfolding S'_def by blast
  then show "tree_inv s' l pa"
    using r(1)[OF new'] s' b(10) unfolding tree_inv_def s' tf' Q_def S'_def by simp
  have "frame_words h (S \<union> avail s) \<subseteq> frame_words h (tframes m h l pa \<union> avail s)"
    unfolding tf by (rule frame_words_mono) blast
  moreover have "slot_of h pa i \<in> frame_words h (tframes m h l pa \<union> avail s)"
    by (rule slot_in_frame[OF b(3) i]) simp
  ultimately show "agree_off (frame_words h (tframes m h l pa \<union> avail s)) m (kmem s')"
    using agree_off_mono[OF ag'] by simp
qed

lemma write_ok:
  assumes "ok s" "PMM s' = PMM s" "agree_off (frame_words (hhdm s) S) (kmem s) (kmem s')"
    and "S \<subseteq> {..<total s}" "S \<inter> avail s = {}"
  shows "ok s'" "avail s' = avail s" "total s' = total s" "hhdm s' = hhdm s"
proof -
  have "frame_words (hhdm s) S \<inter> frame_words (hhdm s) (avail s) = {}"
    using frame_words_disjoint[OF _ assms(4) _ assms(5)] frames_fit[OF assms(1)] avail_total[OF assms(1)] by blast
  then have "\<forall>a\<in>frame_words (hhdm s) (avail s). kmem s' a = kmem s a"
    using assms(3) unfolding agree_off_def by blast
  from ok_write[OF assms(1,2) this] show "ok s'" "avail s' = avail s" "total s' = total s" "hhdm s' = hhdm s"
    by blast+
qed

lemma store_slot_ok:
  assumes "tree_inv s l pa" "i < 512" "PMM s' = PMM s" "kmem s' = (kmem s)(slot_of (hhdm s) pa i := w)"
  shows "ok s'" "avail s' = avail s" "total s' = total s" "hhdm s' = hhdm s"
proof -
  note b = tree_inv_basic[OF assms(1)]
  have "agree_off (frame_words (hhdm s) {frame_of pa}) (kmem s) (kmem s')"
    using slot_in_frame[OF b(3) assms(2) singletonI, of "hhdm s"] assms(4) by (auto simp: agree_off_def)
  from write_ok[OF b(1) assms(3) this] b show "ok s'" "avail s' = avail s" "total s' = total s" "hhdm s' = hhdm s"
    by simp_all
qed

section \<open>Mapping\<close>

definition map_post ::
    "u64 \<Rightarrow> u64 \<Rightarrow> nat \<Rightarrow> nat \<Rightarrow> u64 \<Rightarrow> 'a vkernel_scheme \<Rightarrow> MapError + unit \<Rightarrow> 'a vkernel_scheme \<Rightarrow> bool" where
  "map_post v e t l pa s r s' \<longleftrightarrow> (let m = kmem s; m' = kmem s'; h = hhdm s in
     r = (if occupied m h t v l pa then Inl AlreadyMapped
          else if card (avail s) < missing m h t v l pa then Inl OutOfMemory else Inr ()) \<and>
     tree_inv s' l pa \<and> hhdm s' = h \<and> total s' = total s \<and> vrest s' = vrest s \<and>
     tframes m h l pa \<subseteq> tframes m' h l pa \<and>
     tframes m' h l pa \<union> avail s' = tframes m h l pa \<union> avail s \<and>
     agree_off (frame_words h (tframes m h l pa \<union> avail s)) m m' \<and>
     (r = Inl AlreadyMapped \<longrightarrow> s' = s) \<and>
     (r = Inl OutOfMemory \<longrightarrow> avail s' = avail s \<and> tlb s' = tlb s \<and>
        (\<forall>w. lookup m' h l pa w = lookup m h l pa w)) \<and>
     (r = Inr () \<longrightarrow> tlb s' = tlb s @ [Flush v] \<and>
        (\<forall>w. lookup m' h l pa w = (if same_page t l v w then Some (t, e) else lookup m h l pa w))))"

lemma map_post_refl:
  assumes "tree_inv s l pa" "r = Inl AlreadyMapped \<and> occupied (kmem s) (hhdm s) t v l pa \<or>
    r = Inl OutOfMemory \<and> \<not> occupied (kmem s) (hhdm s) t v l pa \<and>
      card (avail s) < missing (kmem s) (hhdm s) t v l pa"
  shows "map_post v e t l pa s r s"
  using assms by (auto simp: map_post_def Let_def)

lemma sub_empty: "\<not> present (m (slot_of h pa i)) \<or> leaf l (m (slot_of h pa i)) \<Longrightarrow> sub m h l pa i = {}"
  "\<not> present (m (slot_of h pa i)) \<or> leaf l (m (slot_of h pa i)) \<Longrightarrow> child m h l pa i = None"
  by (auto simp: sub_def child_def)

lemma put_leaf_ok:
  assumes inv: "tree_inv s t pa" and e: "present e" "leaf t e"
  shows "\<exists>r s'. put_leaf (hhdm s) v (Some e) t pa s = Some (r, s') \<and> map_post v e t t pa s r s'"
proof -
  let ?h = "hhdm s" and ?i = "level_index t v"
  let ?slot = "slot_of ?h pa ?i"
  note b = tree_inv_basic[OF inv]
  have occ: "occupied (kmem s) ?h t v t pa \<longleftrightarrow> present (kmem s ?slot)" by (cases t) (simp_all add: Let_def)
  have mis: "missing (kmem s) ?h t v t pa = 0" by (cases t) (simp_all add: Let_def)
  show ?thesis
  proof (cases "present (kmem s ?slot)")
    case True
    then have "put_leaf ?h v (Some e) t pa s = Some (Inl AlreadyMapped, s)" by (simp add: put_leaf_def b)
    then show ?thesis using map_post_refl[OF inv] occ True by blast
  next
    case False
    define s' where "s' = tlb_flush v (store ?slot e s)"
    have m': "kmem s' = (kmem s)(?slot := e)" "PMM s' = PMM s" by (simp_all add: s'_def)
    note o = store_slot_ok[OF inv level_index_less m'(2,1)]
    have sub: "sub (kmem s) ?h t pa ?i = {}" "sub (kmem s') ?h t pa ?i = {}" "child (kmem s') ?h t pa ?i = None"
      using False e m' by (simp_all add: sub_empty)
    have ag: "agree_off (insert ?slot (frame_words ?h (sub (kmem s) ?h t pa ?i \<union> avail s))) (kmem s) (kmem s')"
      by (auto simp: agree_off_def m')
    note g = graft[OF inv level_index_less[of t v] o(1,4,3) ag]
    have tf: "tframes (kmem s') ?h t pa = tframes (kmem s) ?h t pa"
      using g(3) sub o(2) tframes_split[OF level_index_less, of "kmem s" ?h t pa t v] by simp
    have lk: "lookup (kmem s') ?h t pa w = (if same_page t t v w then Some (t, e) else lookup (kmem s) ?h t pa w)" for w
      using g(5)[of w] sub o(2) e m' lookup_eq[of "kmem s'" ?h t pa w] by (simp add: Let_def)
    have "put_leaf ?h v (Some e) t pa s = Some (Inr (), s')" using False by (simp add: put_leaf_def b s'_def)
    moreover have "map_post v e t t pa s (Inr ()) s'"
      using g(1,2,4) sub o False occ mis tf lk unfolding map_post_def Let_def by (simp add: s'_def)
    ultimately show ?thesis by blast
  qed
qed

text \<open>The state after a new table has been allocated, cleared and linked in.\<close>

lemma new_table:
  assumes x: "x86_ok X" and inv: "tree_inv s l pa" and i: "i < 512"
    and al: "alloc s 0 = Some (Some f, s1)"
  obtains s2 where "aligned f" "frame_of f < 2 ^ 40" "frame_of f \<in> avail s" "frame_of f < total s"
    "zero_frame X f (hhdm s) s1 = Some s2"
    "tree_inv (store (slot_of (hhdm s) pa i) e s2) k f"
    "\<forall>j<512. kmem (store (slot_of (hhdm s) pa i) e s2) (slot_of (hhdm s) f j) = 0"
    "avail (store (slot_of (hhdm s) pa i) e s2) = avail s - {frame_of f}"
    "total (store (slot_of (hhdm s) pa i) e s2) = total s"
    "hhdm (store (slot_of (hhdm s) pa i) e s2) = hhdm s"
    "vrest s2 = vrest s" "tlb s2 = tlb s"
    "agree_off (insert (slot_of (hhdm s) pa i) (frame_words (hhdm s) (avail s))) (kmem s)
       (kmem (store (slot_of (hhdm s) pa i) e s2))"
proof -
  note b = tree_inv_basic[OF inv]
  let ?h = "hhdm s" and ?slot = "slot_of (hhdm s) pa i"
  have a1: "ok s1" "aligned f" "frame_of f \<in> avail s" "avail s1 = avail s - {frame_of f}" "total s1 = total s"
    "hhdm s1 = ?h" "kernel.more s1 = kernel.more s" "agree_off (frame_words ?h (avail s)) (kmem s) (kmem s1)"
    by (rule alloc_one_cases[OF b(1)]; use al in \<open>auto simp: aligned_def\<close>)+
  have f: "frame_of f < total s" using a1(3) b(12) by blast
  obtain s2 where s2: "zero_frame X f ?h s1 = Some s2" "s2 = s1\<lparr>kmem := kmem s2\<rparr>"
    "agree_off (frame_words ?h {frame_of f}) (kmem s1) (kmem s2)" "\<forall>i<512. kmem s2 (slot_of ?h f i) = 0"
    by (rule zero_frame_ok[OF x b(2) a1(2) f])
  define s3 where "s3 = store ?slot e s2"
  have P: "PMM s3 = PMM s1" "vrest s2 = vrest s1" "tlb s2 = tlb s1"
    by (simp_all add: s3_def) (subst s2(2), simp)+
  have sl: "?slot \<in> frame_words ?h {frame_of pa}" by (rule slot_in_frame[OF b(3) i singletonI])
  have "agree_off (frame_words ?h {frame_of f, frame_of pa}) (kmem s1) (kmem s3)"
  proof -
    have "agree_off (frame_words ?h {frame_of pa}) (kmem s2) (kmem s3)"
      using sl by (auto simp: s3_def agree_off_def)
    from agree_off_trans[OF s2(3) this] show ?thesis using frame_words_mono by (metis insertI1 insert_is_Un sup_ge1 sup_ge2)
  qed
  from write_ok[OF a1(1) P(1), unfolded a1(6), OF this] have o3: "ok s3" "avail s3 = avail s - {frame_of f}"
    "total s3 = total s" "hhdm s3 = ?h"
    using f b(4,5) a1 by auto
  have "frame_of f \<noteq> frame_of pa" using a1(3) b(5) by auto
  then have "slot_of ?h f j \<noteq> ?slot" if "j < 512" for j
    using that i fptr_off_inj[OF b(2) f b(4), of "8 * j" "8 * i"] by (simp add: slot_of_fptr a1(2) b(3))
  then have z: "\<forall>j<512. kmem s3 (slot_of ?h f j) = 0" using s2(4) by (simp add: s3_def)
  then have np: "\<forall>j<512. \<not> present (kmem s3 (slot_of ?h f j))" by simp
  have inv3: "tree_inv s3 k f"
    using zero_table(4)[OF np, of k] zero_tree_ok[OF np a1(2) f, of k] o3 b(10) by (simp add: tree_inv_def)
  have "agree_off (insert ?slot (frame_words ?h (avail s))) (kmem s) (kmem s2)"
    using agree_off_trans[OF a1(8) s2(3)] a1(3) frame_words_mono[of "{frame_of f}" "avail s" ?h]
    by (simp add: subset_insertI2)
  then have "agree_off (insert ?slot (frame_words ?h (avail s))) (kmem s) (kmem s3)"
    by (auto simp: s3_def agree_off_def)
  with a1 f b(10) s2(1) inv3 z o3 P(2,3) kernel_more_vrest[OF a1(7)] show thesis
    unfolding s3_def by (intro that) simp_all
qed

text \<open>The entry is a table: the walk below it determines the result.\<close>

lemma map_below:
  assumes inv: "tree_inv s (Suc l) pa" and t: "t \<le> l"
    and e: "present (kmem s (slot_of (hhdm s) pa (level_index (Suc l) v)))"
      "\<not> leaf (Suc l) (kmem s (slot_of (hhdm s) pa (level_index (Suc l) v)))"
    and post: "map_post v x t l (entry_addr (kmem s (slot_of (hhdm s) pa (level_index (Suc l) v)))) s r s'"
  shows "map_post v x t (Suc l) pa s r s'"
proof -
  let ?h = "hhdm s" and ?i = "level_index (Suc l) v"
  let ?slot = "slot_of ?h pa ?i"
  define c where "c = entry_addr (kmem s ?slot)"
  note b = tree_inv_basic[OF inv]
  have ch: "child (kmem s) ?h (Suc l) pa ?i = Some c" using e by (simp add: child_def Let_def c_def)
  note ci = tree_inv_child[OF inv level_index_less ch, unfolded diff_Suc_1]
  note p = post[folded c_def, unfolded map_post_def Let_def]
  have sub: "frame_of pa \<notin> sub (kmem s) ?h (Suc l) pa ?i"
    using others_disjoint(2)[OF b(6) level_index_less] .
  have ag: "agree_off (frame_words ?h (tframes (kmem s) ?h l c \<union> avail s)) (kmem s) (kmem s')" using p by blast
  have "?slot \<notin> frame_words ?h (tframes (kmem s) ?h l c \<union> avail s)"
    using slot_word[OF inv level_index_less, of "Suc l" v "tframes (kmem s) ?h l c \<union> avail s"]
      sub ci(2) b(5,12) tree_inv_basic(11)[OF ci(1)] by auto
  then have sl: "kmem s' ?slot = kmem s ?slot" using ag by (simp add: agree_off_def)
  then have ch': "child (kmem s') ?h (Suc l) pa ?i = Some c" using ch by (simp add: child_def Let_def)
  then have sub': "sub (kmem s') ?h (Suc l) pa ?i = tframes (kmem s') ?h l c" by (simp add: sub_def)
  have i': "tree_inv s' l c" "hhdm s' = ?h" "total s' = total s" using p by blast+
  note b' = tree_inv_basic[OF i'(1), unfolded i'(2,3)]
  have g: "tree_inv s' (Suc l) pa"
    "tframes (kmem s') ?h (Suc l) pa \<union> avail s' = tframes (kmem s) ?h (Suc l) pa \<union> avail s"
    "tframes (kmem s') ?h (Suc l) pa =
       insert (frame_of pa) (others (kmem s) ?h (Suc l) pa ?i \<union> sub (kmem s') ?h (Suc l) pa ?i)"
    "agree_off (frame_words ?h (tframes (kmem s) ?h (Suc l) pa \<union> avail s)) (kmem s) (kmem s')"
    "level_index (Suc l) w \<noteq> ?i \<Longrightarrow> lookup (kmem s') ?h (Suc l) pa w = lookup (kmem s) ?h (Suc l) pa w" for w
    using graft[OF inv level_index_less[of "Suc l" v] b'(1) i'(2,3)] ch' b'(6,8) p ci(2) sub' ag
    by (auto intro: agree_off_mono)
  have lk: "lookup (kmem s') ?h (Suc l) pa w = lookup (kmem s') ?h l c w"
    "lookup (kmem s) ?h (Suc l) pa w = lookup (kmem s) ?h l c w" if "level_index (Suc l) w = ?i" for w
    using e sl that by (simp_all add: Let_def c_def)
  have om: "occupied (kmem s) ?h t v (Suc l) pa = occupied (kmem s) ?h t v l c"
    "missing (kmem s) ?h t v (Suc l) pa = missing (kmem s) ?h t v l c"
    using e t by (auto simp: Let_def c_def)
  have tf: "tframes (kmem s) ?h (Suc l) pa \<subseteq> tframes (kmem s') ?h (Suc l) pa"
    using p ci(2) sub' g(3) tframes_split[OF level_index_less, of "kmem s" ?h "Suc l" pa "Suc l" v] by blast
  have "lookup (kmem s') ?h (Suc l) pa w =
      (if same_page t (Suc l) v w then Some (t, x) else lookup (kmem s) ?h (Suc l) pa w)" if "r = Inr ()" for w
    using p that g(5)[of w] lk[of w] same_page_Suc[OF t, of v w] by (cases "level_index (Suc l) w = ?i") auto
  moreover have "lookup (kmem s') ?h (Suc l) pa w = lookup (kmem s) ?h (Suc l) pa w" if "r = Inl OutOfMemory" for w
    using p that g(5)[of w] lk[of w] by (cases "level_index (Suc l) w = ?i") auto
  ultimately show ?thesis using p g(1,2,4) tf unfolding map_post_def Let_def om by blast
qed

text \<open>The entry is absent and the new table below it serves the mapping, or is given back.\<close>

lemma map_new_table:
  assumes x: "x86_ok X" and inv: "tree_inv s (Suc l) pa" and t: "t \<le> l"
    and np: "\<not> present (kmem s (slot_of (hhdm s) pa (level_index (Suc l) v)))"
    and al: "alloc s 0 = Some (Some f, s1)"
    and step: "\<And>s3. tree_inv s3 l f \<Longrightarrow> hhdm s3 = hhdm s \<Longrightarrow>
      \<exists>r s'. walk s3 = Some (r, s') \<and> map_post v e t l f s3 r s'"
  shows "\<exists>s2 r s4. aligned f \<and> frame_of f < 2 ^ 40 \<and> zero_frame X f (hhdm s) s1 = Some s2 \<and>
    walk (store (slot_of (hhdm s) pa (level_index (Suc l) v)) (f OR 7) s2) = Some (r, s4) \<and>
    (if r = Inl OutOfMemory
     then \<exists>s'. release (store (slot_of (hhdm s) pa (level_index (Suc l) v)) 0 s4) f 0 = Some s' \<and>
       map_post v e t (Suc l) pa s r s'
     else map_post v e t (Suc l) pa s r s4)"
proof -
  let ?h = "hhdm s" and ?i = "level_index (Suc l) v"
  let ?slot = "slot_of ?h pa ?i"
  note b = tree_inv_basic[OF inv]
  obtain s2 where n: "aligned f" "frame_of f < 2 ^ 40" "frame_of f \<in> avail s" "frame_of f < total s"
    "zero_frame X f ?h s1 = Some s2" "tree_inv (store ?slot (f OR 7) s2) l f"
    "\<forall>j<512. kmem (store ?slot (f OR 7) s2) (slot_of ?h f j) = 0"
    "avail (store ?slot (f OR 7) s2) = avail s - {frame_of f}" "total (store ?slot (f OR 7) s2) = total s"
    "hhdm (store ?slot (f OR 7) s2) = ?h" "vrest s2 = vrest s" "tlb s2 = tlb s"
    "agree_off (insert ?slot (frame_words ?h (avail s))) (kmem s) (kmem (store ?slot (f OR 7) s2))"
    by (rule new_table[OF x inv level_index_less al])
  define s3 where "s3 = store ?slot (f OR 7) s2"
  note n3 = n(6-10,13)[folded s3_def]
  obtain r s4 where w: "walk s3 = Some (r, s4)" and p0: "map_post v e t l f s3 r s4"
    using step[OF n3(1,5)] by blast
  have "\<forall>j<512. \<not> present (kmem s3 (slot_of ?h f j))" using n3(2) by simp
  note z = zero_table[OF this]
  note p = p0[unfolded map_post_def Let_def n3(3-5) z(4)]
  have av: "card (avail s) = Suc (card (avail s - {frame_of f}))"
    using n(3) finite_avail[OF b(1)] by (metis card_Suc_Diff1)
  have om: "\<not> occupied (kmem s) ?h t v (Suc l) pa" "missing (kmem s) ?h t v (Suc l) pa = Suc l - t"
    using np t by (auto simp: Let_def)
  have r: "r = (if card (avail s) < Suc l - t then Inl OutOfMemory else Inr ())"
    using p z(1,5) t av by (auto simp: Suc_diff_le)
  then have r': "r = (if occupied (kmem s) ?h t v (Suc l) pa then Inl AlreadyMapped
      else if card (avail s) < missing (kmem s) ?h t v (Suc l) pa then Inl OutOfMemory else Inr ())"
    by (simp only: om if_False)
  have insa: "insert (frame_of f) (avail s - {frame_of f}) = avail s" using n(3) by blast
  have sub: "sub (kmem s) ?h (Suc l) pa ?i = {}" using np by (simp add: sub_empty)
  have ag34: "agree_off (frame_words ?h (avail s)) (kmem s3) (kmem s4)" using p insa by simp
  have slo: "?slot \<notin> frame_words ?h (avail s)" using slot_word[OF inv level_index_less] b(5,12) by blast
  have sl4: "kmem s4 ?slot = f OR 7" using ag34 slo by (simp add: agree_off_def s3_def)
  have ag4: "agree_off (insert ?slot (frame_words ?h (avail s))) (kmem s) (kmem s4)"
    using n3(6) ag34 by (auto simp: agree_off_def)
  have i4: "tree_inv s4 l f" "hhdm s4 = ?h" "total s4 = total s" "vrest s4 = vrest s"
    using p n(11) by (simp_all add: s3_def)
  have lk: "lookup (kmem s) ?h (Suc l) pa w = None" if "level_index (Suc l) w = ?i" for w
    using np that by (simp add: Let_def)
  have tf: "tframes (kmem s) ?h (Suc l) pa = insert (frame_of pa) (others (kmem s) ?h (Suc l) pa ?i)"
    using tframes_split[OF level_index_less, of "kmem s" ?h "Suc l" pa "Suc l" v] sub by simp
  show ?thesis
  proof (cases "r = Inl OutOfMemory")
    case False
    then have ok: "r = Inr ()" using r by (simp split: if_splits)
    note b4 = tree_inv_basic[OF i4(1), unfolded i4(2,3)]
    have ch: "child (kmem s4) ?h (Suc l) pa ?i = Some f"
      using sl4 parent_entry[OF n(1,2)] by (simp add: child_def Let_def)
    then have sub4: "sub (kmem s4) ?h (Suc l) pa ?i = tframes (kmem s4) ?h l f" by (simp add: sub_def)
    have part: "tframes (kmem s4) ?h l f \<union> avail s4 = avail s" using p insa by simp
    have g: "tree_inv s4 (Suc l) pa"
      "tframes (kmem s4) ?h (Suc l) pa \<union> avail s4 = tframes (kmem s) ?h (Suc l) pa \<union> avail s"
      "tframes (kmem s4) ?h (Suc l) pa =
         insert (frame_of pa) (others (kmem s) ?h (Suc l) pa ?i \<union> sub (kmem s4) ?h (Suc l) pa ?i)"
      "agree_off (frame_words ?h (tframes (kmem s) ?h (Suc l) pa \<union> avail s)) (kmem s) (kmem s4)"
      "level_index (Suc l) w \<noteq> ?i \<Longrightarrow> lookup (kmem s4) ?h (Suc l) pa w = lookup (kmem s) ?h (Suc l) pa w" for w
      using graft[OF inv level_index_less[of "Suc l" v] b4(1) i4(2,3)] ch b4(6,8) sub sub4 part ag4 by auto
    have "lookup (kmem s4) ?h (Suc l) pa w = lookup (kmem s4) ?h l f w" if "level_index (Suc l) w = ?i" for w
      using sl4 that parent_entry[OF n(1,2)] by (simp add: Let_def)
    then have lk4: "lookup (kmem s4) ?h (Suc l) pa w =
        (if same_page t (Suc l) v w then Some (t, e) else lookup (kmem s) ?h (Suc l) pa w)" for w
      using p ok g(5)[of w] lk[of w] z(2) same_page_Suc[OF t, of v w] by (cases "level_index (Suc l) w = ?i") auto
    have "tframes (kmem s) ?h (Suc l) pa \<subseteq> tframes (kmem s4) ?h (Suc l) pa" unfolding g(3) tf by blast
    moreover have "tlb s4 = tlb s @ [Flush v]" using p ok n(12) by (simp add: s3_def)
    ultimately have "map_post v e t (Suc l) pa s r s4"
      using g(1,2,4) i4(2-4) lk4 r' ok unfolding map_post_def Let_def by blast
    then show ?thesis using n w ok unfolding s3_def by auto
  next
    case True
    define s5 where "s5 = store ?slot 0 s4"
    have av4: "avail s4 = avail s - {frame_of f}" "tlb s4 = tlb s" using p True n(12) by (simp_all add: s3_def)
    have "agree_off (frame_words ?h {frame_of pa}) (kmem s4) (kmem s5)"
      using slot_in_frame[OF b(3) level_index_less singletonI] by (auto simp: s5_def agree_off_def)
    from write_ok[OF tree_inv_basic(1)[OF i4(1)] _ this[folded i4(2)], unfolded i4(2,3) av4(1)]
    have o5: "ok s5" "avail s5 = avail s - {frame_of f}" "total s5 = total s" "hhdm s5 = ?h"
      using b(4,5) by (auto simp: s5_def)
    obtain s6 where s6: "release s5 f 0 = Some s6" "ok s6" "avail s6 = avail s" "total s6 = total s" "hhdm s6 = ?h"
      "kernel.more s6 = kernel.more s5" "agree_off (frame_words ?h (avail s)) (kmem s5) (kmem s6)"
      by (rule release_one[OF o5(1), of f]) (use n(1,4) o5 insa in \<open>auto simp: aligned_def\<close>)
    have sl6: "kmem s6 ?slot = 0" using s6(7) slo by (simp add: agree_off_def s5_def)
    have sub6: "sub (kmem s6) ?h (Suc l) pa ?i = {}" "child (kmem s6) ?h (Suc l) pa ?i = None"
      using sl6 by (simp_all add: sub_empty)
    have ag6: "agree_off (insert ?slot (frame_words ?h (avail s))) (kmem s) (kmem s6)"
      using ag4 s6(7) by (auto simp: agree_off_def s5_def)
    have g: "tree_inv s6 (Suc l) pa"
      "tframes (kmem s6) ?h (Suc l) pa \<union> avail s6 = tframes (kmem s) ?h (Suc l) pa \<union> avail s"
      "tframes (kmem s6) ?h (Suc l) pa =
         insert (frame_of pa) (others (kmem s) ?h (Suc l) pa ?i \<union> sub (kmem s6) ?h (Suc l) pa ?i)"
      "agree_off (frame_words ?h (tframes (kmem s) ?h (Suc l) pa \<union> avail s)) (kmem s) (kmem s6)"
      "level_index (Suc l) w \<noteq> ?i \<Longrightarrow> lookup (kmem s6) ?h (Suc l) pa w = lookup (kmem s) ?h (Suc l) pa w" for w
      using graft[OF inv level_index_less[of "Suc l" v] s6(2,5,4)] sub sub6 s6(3) ag6 by auto
    have "lookup (kmem s6) ?h (Suc l) pa w = lookup (kmem s) ?h (Suc l) pa w" for w
      using g(5)[of w] lk[of w] sl6 by (cases "level_index (Suc l) w = ?i") (simp_all add: Let_def)
    moreover have "tframes (kmem s) ?h (Suc l) pa \<subseteq> tframes (kmem s6) ?h (Suc l) pa"
      unfolding g(3) tf by blast
    moreover have "vrest s6 = vrest s" "tlb s6 = tlb s"
      using kernel_more_vrest[OF s6(6)] i4(4) av4(2) by (simp_all add: s5_def)
    ultimately have "map_post v e t (Suc l) pa s r s6"
      using g(1,2,4) s6(3-5) r' True unfolding map_post_def Let_def by blast
    then show ?thesis using n w True s6(1) unfolding s3_def s5_def by auto
  qed
qed

lemma walk_map_ok:
  assumes x: "x86_ok X" and mk: "\<And>l f. aligned f \<Longrightarrow> frame_of f < 2 ^ 40 \<Longrightarrow> mk (Suc l) f = Some (f OR 7)"
    and e: "present e" "leaf t e"
    and "tree_inv s l pa" "t \<le> l" "hhdm s = h"
  shows "\<exists>r s'. walk_map alloc release X mk h v (Some e) t l pa s = Some (r, s') \<and> map_post v e t l pa s r s'"
  using assms(5-7)
proof (induction l arbitrary: pa s)
  case 0
  then show ?case using put_leaf_ok[OF _ e] by auto
next
  case (Suc l)
  note inv = Suc.prems(1) and h = Suc.prems(3)
  note b = tree_inv_basic[OF inv]
  let ?slot = "slot_of h pa (level_index (Suc l) v)"
  show ?case
  proof (cases "Suc l = t")
    case True
    then have "walk_map alloc release X mk h v (Some e) t (Suc l) pa s = put_leaf h v (Some e) t pa s"
      unfolding walk_map.simps(2) by (rule if_P)
    then show ?thesis using put_leaf_ok[OF inv[unfolded True] e, of v] h True by simp
  next
    case False
    then have t: "t \<le> l" using Suc.prems(2) by simp
    note w = walk_map.simps(2)[of alloc release X mk h v "Some e" t l pa s]
    consider (page) "present (kmem s ?slot)" "leaf (Suc l) (kmem s ?slot)"
      | (table) "present (kmem s ?slot)" "\<not> leaf (Suc l) (kmem s ?slot)" | (absent) "\<not> present (kmem s ?slot)" by blast
    then show ?thesis
    proof cases
      case page
      then have "walk_map alloc release X mk h v (Some e) t (Suc l) pa s = Some (Inl AlreadyMapped, s)"
        using False b(7) h by (simp add: w Let_def)
      moreover have "occupied (kmem s) (hhdm s) t v (Suc l) pa" using page h by (simp add: Let_def)
      ultimately show ?thesis using map_post_refl[OF inv] by blast
    next
      case table
      define c where "c = entry_addr (kmem s ?slot)"
      have "child (kmem s) (hhdm s) (Suc l) pa (level_index (Suc l) v) = Some c"
        using table h by (simp add: child_def Let_def c_def)
      from tree_inv_child(1)[OF inv level_index_less this] Suc.IH[of s c] t h obtain r s' where
        "walk_map alloc release X mk h v (Some e) t l c s = Some (r, s')" "map_post v e t l c s r s'" by auto
      moreover from this(2) have "map_post v e t (Suc l) pa s r s'"
        using map_below[OF inv t] table unfolding c_def h by blast
      ultimately show ?thesis using table False b(7) h by (simp add: w Let_def c_def)
    next
      case absent
      show ?thesis
      proof (rule alloc_one_cases[OF b(1)])
        assume none: "alloc s 0 = Some (None, s)" "avail s = {}"
        then have "walk_map alloc release X mk h v (Some e) t (Suc l) pa s = Some (Inl OutOfMemory, s)"
          using False b(7) h absent by (simp add: w Let_def)
        moreover have "\<not> occupied (kmem s) (hhdm s) t v (Suc l) pa" "0 < missing (kmem s) (hhdm s) t v (Suc l) pa"
          using absent h t by (simp_all add: Let_def)
        ultimately show ?thesis using map_post_refl[OF inv] none(2) by auto
      next
        fix f s1 assume al: "alloc s 0 = Some (Some f, s1)"
        have IH: "\<exists>r s'. walk_map alloc release X mk h v (Some e) t l f s3 = Some (r, s') \<and> map_post v e t l f s3 r s'"
          if "tree_inv s3 l f" "hhdm s3 = hhdm s" for s3
          using Suc.IH[OF that(1) t] that(2) h by simp
        obtain s2 r s4 where n: "aligned f" "frame_of f < 2 ^ 40" "zero_frame X f h s1 = Some s2"
          "walk_map alloc release X mk h v (Some e) t l f (store ?slot (f OR 7) s2) = Some (r, s4)"
          "if r = Inl OutOfMemory
           then \<exists>s'. release (store ?slot 0 s4) f 0 = Some s' \<and> map_post v e t (Suc l) pa s r s'
           else map_post v e t (Suc l) pa s r s4"
          using map_new_table[OF x inv t absent[folded h] al, of "walk_map alloc release X mk h v (Some e) t l f" e,
              OF IH] unfolding h by blast
        then show ?thesis using False b(7) al mk[OF n(1,2)] absent h
          by (cases "r = Inl OutOfMemory") (auto simp: w Let_def)
      qed
    qed
  qed
qed

end

end
