(* ===== verification/Vmm_Unmap.thy ===== *)
theory Vmm_Unmap
  imports Vmm_Correct
begin

text \<open>
  Correctness of the recursion for \<open>unmap\<close>, including the reclaiming of tables that have
  become empty, for every allocator that provides the contract \<open>page_memory\<close>.
\<close>

lemma and_1_eq_0: "(e :: u64) AND 1 = 0 \<longleftrightarrow> \<not> present e"
  by (simp add: present_def and_one_eq bit_0 even_iff_mod_2_eq_zero)

lemma is_empty_ok:
  assumes "x86_ok X" "add64 c h = Some (c + h)"
  shows "is_empty X c h m = Some (\<forall>i<512. \<not> present (m (slot_of h c i)))"
  using assms by (auto simp: is_empty_def table_mut_def x86_simps and_1_eq_0 slot_of_def)

lemma lookup_level: "lookup m h l pa v = Some (k, e) \<Longrightarrow> k \<le> l \<and> present e \<and> leaf k e"
  by (induction l arbitrary: pa) (force simp: Let_def leaf_def split: if_splits)+

text \<open>
  The tables a successful \<open>unmap\<close> empties.  A table on the way becomes empty when its only entry is the one
  that leads to the page, and that entry is the page itself or a table that becomes empty; \<open>emptied\<close> are
  the frames of such tables below \<open>pa\<close>.
\<close>

primrec empties :: "mem \<Rightarrow> u64 \<Rightarrow> nat \<Rightarrow> u64 \<Rightarrow> nat \<Rightarrow> u64 \<Rightarrow> bool" where
  "empties m h t v 0 pa = (\<forall>i<512. present (m (slot_of h pa i)) \<longrightarrow> i = level_index 0 v)"
| "empties m h t v (Suc l) pa =
     ((\<forall>i<512. present (m (slot_of h pa i)) \<longrightarrow> i = level_index (Suc l) v) \<and>
      (Suc l = t \<or> empties m h t v l (entry_addr (m (slot_of h pa (level_index (Suc l) v))))))"

primrec emptied :: "mem \<Rightarrow> u64 \<Rightarrow> nat \<Rightarrow> u64 \<Rightarrow> nat \<Rightarrow> u64 \<Rightarrow> nat set" where
  "emptied m h t v 0 pa = {}"
| "emptied m h t v (Suc l) pa =
     (let c = entry_addr (m (slot_of h pa (level_index (Suc l) v))) in
      if Suc l = t then {}
      else emptied m h t v l c \<union> (if empties m h t v l c then {frame_of c} else {}))"

lemma emptied_self: "emptied m h t v t pa = {}"
    "empties m h t v t pa \<longleftrightarrow> (\<forall>i<512. present (m (slot_of h pa i)) \<longrightarrow> i = level_index t v)"
  by (cases t; simp)+

context table_memory
begin

definition unmap_post ::
    "u64 \<Rightarrow> nat \<Rightarrow> nat \<Rightarrow> u64 \<Rightarrow> 'a vkernel_scheme \<Rightarrow> UnmapError + unit \<Rightarrow> 'a vkernel_scheme \<Rightarrow> bool" where
  "unmap_post v t l pa s r s' \<longleftrightarrow> (let m = kmem s; m' = kmem s'; h = hhdm s in
     r = (if \<exists>e. lookup m h l pa v = Some (t, e) then Inr () else Inl NotMapped) \<and>
     (r \<noteq> Inr () \<longrightarrow> s' = s) \<and>
     (r = Inr () \<longrightarrow>
        tree_inv s' l pa \<and> hhdm s' = h \<and> total s' = total s \<and> vrest s' = vrest s \<and>
        tframes m' h l pa = tframes m h l pa - emptied m h t v l pa \<and> emptied m h t v l pa \<subseteq> tframes m h l pa \<and>
        ((\<forall>i<512. \<not> present (m' (slot_of h pa i))) \<longleftrightarrow> empties m h t v l pa) \<and>
        tframes m' h l pa \<union> avail s' = tframes m h l pa \<union> avail s \<and>
        agree_off (frame_words h (tframes m h l pa \<union> avail s)) m m' \<and>
        tlb s' = tlb s @ Flush v # replicate (card (emptied m h t v l pa)) FlushAll \<and>
        (\<forall>w. lookup m' h l pa w = (if same_page t l v w then None else lookup m h l pa w))))"

lemma drop_leaf_ok:
  assumes inv: "tree_inv s t pa"
    and e: "present (kmem s (slot_of (hhdm s) pa (level_index t v)))"
      "leaf t (kmem s (slot_of (hhdm s) pa (level_index t v)))"
  shows "unmap_post v t t pa s (Inr ()) (tlb_flush v (store (slot_of (hhdm s) pa (level_index t v)) 0 s))"
proof -
  let ?h = "hhdm s" and ?i = "level_index t v"
  let ?slot = "slot_of ?h pa ?i"
  define s' where "s' = tlb_flush v (store ?slot 0 s)"
  have m': "kmem s' = (kmem s)(?slot := 0)" "PMM s' = PMM s" by (simp_all add: s'_def)
  note o = store_slot_ok[OF inv level_index_less m'(2,1)]
  have sub: "sub (kmem s) ?h t pa ?i = {}" "sub (kmem s') ?h t pa ?i = {}" "child (kmem s') ?h t pa ?i = None"
    using e m' by (simp_all add: sub_empty)
  have ag: "agree_off (insert ?slot (frame_words ?h (sub (kmem s) ?h t pa ?i \<union> avail s))) (kmem s) (kmem s')"
    by (auto simp: agree_off_def m')
  note g = graft[OF inv level_index_less[of t v] o(1,4,3) ag]
  have tf: "tframes (kmem s') ?h t pa = tframes (kmem s) ?h t pa"
    using g(3) sub o(2) tframes_split[OF level_index_less, of "kmem s" ?h t pa t v] by simp
  have lk: "lookup (kmem s') ?h t pa w = (if same_page t t v w then None else lookup (kmem s) ?h t pa w)" for w
    using g(5)[of w] sub o(2) e m' lookup_eq[of "kmem s'" ?h t pa w] by (simp add: Let_def)
  have "\<exists>e. lookup (kmem s) ?h t pa v = Some (t, e)"
    using e by (subst lookup_eq) (simp add: Let_def)
  moreover have "(\<forall>i<512. \<not> present (kmem s' (slot_of ?h pa i))) \<longleftrightarrow> empties (kmem s) ?h t v t pa"
    using other_slots[OF inv level_index_less[of t v] _ _ tree_inv_basic(12)[OF inv] tree_inv_basic(5)[OF inv], of _ "kmem s'"] ag sub
    by (simp add: emptied_self m') (metis not_present_0)
  ultimately show ?thesis
    using g(1,2,4) sub o tf lk unfolding unmap_post_def Let_def s'_def[symmetric]
    by (auto simp: s'_def emptied_self)
qed

lemma unmap_miss:
  "\<nexists>e. lookup (kmem s) (hhdm s) l pa v = Some (t, e) \<Longrightarrow> unmap_post v t l pa s (Inl NotMapped) s"
  by (simp add: unmap_post_def)

text \<open>The last state of an \<open>unmap\<close> below an entry, whether the table below is kept or not.\<close>

lemma unmap_graft:
  assumes inv: "tree_inv s (Suc l) pa" and t: "t \<le> l"
    and ch: "child (kmem s) (hhdm s) (Suc l) pa (level_index (Suc l) v) = Some c"
    and hit: "\<exists>e. lookup (kmem s) (hhdm s) l c v = Some (t, e)"
    and s': "ok s'" "hhdm s' = hhdm s" "total s' = total s" "vrest s' = vrest s"
      "tlb s' = tlb s @ Flush v # replicate (card (emptied (kmem s) (hhdm s) t v (Suc l) pa)) FlushAll"
    and ag: "agree_off (insert (slot_of (hhdm s) pa (level_index (Suc l) v))
        (frame_words (hhdm s) (tframes (kmem s) (hhdm s) l c \<union> avail s))) (kmem s) (kmem s')"
    and new: "\<And>d. child (kmem s') (hhdm s) (Suc l) pa (level_index (Suc l) v) = Some d \<Longrightarrow>
        tree_ok (kmem s') (hhdm s) (total s) l d"
    and part: "sub (kmem s') (hhdm s) (Suc l) pa (level_index (Suc l) v) \<union> avail s' =
        tframes (kmem s) (hhdm s) l c \<union> avail s"
      "sub (kmem s') (hhdm s) (Suc l) pa (level_index (Suc l) v) \<inter> avail s' = {}"
      "sub (kmem s') (hhdm s) (Suc l) pa (level_index (Suc l) v) =
        tframes (kmem s) (hhdm s) l c - emptied (kmem s) (hhdm s) t v (Suc l) pa"
      "emptied (kmem s) (hhdm s) t v (Suc l) pa \<subseteq> tframes (kmem s) (hhdm s) l c"
    and em: "present (kmem s' (slot_of (hhdm s) pa (level_index (Suc l) v))) \<longleftrightarrow> \<not> empties (kmem s) (hhdm s) t v l c"
    and lk': "\<And>w. level_index (Suc l) w = level_index (Suc l) v \<Longrightarrow> lookup (kmem s') (hhdm s) (Suc l) pa w =
        (if same_page t l v w then None else lookup (kmem s) (hhdm s) l c w)"
  shows "unmap_post v t (Suc l) pa s (Inr ()) s'"
proof -
  let ?h = "hhdm s" and ?i = "level_index (Suc l) v"
  have sub: "sub (kmem s) ?h (Suc l) pa ?i = tframes (kmem s) ?h l c" using ch by (simp add: sub_def)
  have g: "tree_inv s' (Suc l) pa"
    "tframes (kmem s') ?h (Suc l) pa \<union> avail s' = tframes (kmem s) ?h (Suc l) pa \<union> avail s"
    "tframes (kmem s') ?h (Suc l) pa =
       insert (frame_of pa) (others (kmem s) ?h (Suc l) pa ?i \<union> sub (kmem s') ?h (Suc l) pa ?i)"
    "agree_off (frame_words ?h (tframes (kmem s) ?h (Suc l) pa \<union> avail s)) (kmem s) (kmem s')"
    "level_index (Suc l) w \<noteq> ?i \<Longrightarrow> lookup (kmem s') ?h (Suc l) pa w = lookup (kmem s) ?h (Suc l) pa w" for w
    using graft[OF inv level_index_less[of "Suc l" v] s'(1-3), unfolded sub diff_Suc_1, OF ag new part(1,2)] by auto
  note b = tree_inv_basic[OF inv] and ts = tframes_split[OF level_index_less, of "kmem s" ?h "Suc l" pa "Suc l" v]
  note od = others_disjoint[OF b(6) level_index_less[of "Suc l" v], unfolded sub]
  have tf: "tframes (kmem s') ?h (Suc l) pa = tframes (kmem s) ?h (Suc l) pa - emptied (kmem s) ?h t v (Suc l) pa"
    "emptied (kmem s) ?h t v (Suc l) pa \<subseteq> tframes (kmem s) ?h (Suc l) pa"
    using part(3,4) od unfolding g(3) ts sub by blast+
  have c: "entry_addr (kmem s (slot_of ?h pa ?i)) = c" using ch by (auto simp: child_def Let_def split: if_splits)
  have "tframes (kmem s) ?h l c \<union> avail s \<subseteq> {..<total s}" "frame_of pa \<notin> tframes (kmem s) ?h l c \<union> avail s"
    using b(5,11,12) od unfolding ts sub by blast+
  note os = other_slots[OF inv level_index_less _ _ this ag]
  have "(\<forall>i<512. \<not> present (kmem s' (slot_of ?h pa i))) \<longleftrightarrow>
      (\<forall>i<512. present (kmem s (slot_of ?h pa i)) \<longrightarrow> i = ?i) \<and> empties (kmem s) ?h t v l c"
    using os em level_index_less[of "Suc l" v] by metis
  then have em': "(\<forall>i<512. \<not> present (kmem s' (slot_of ?h pa i))) \<longleftrightarrow> empties (kmem s) ?h t v (Suc l) pa"
    using t c by auto
  have lk: "lookup (kmem s) ?h (Suc l) pa w = lookup (kmem s) ?h l c w" if "level_index (Suc l) w = ?i" for w
    using ch that by (auto simp: child_def Let_def split: if_splits)
  have "lookup (kmem s') ?h (Suc l) pa w = (if same_page t (Suc l) v w then None else lookup (kmem s) ?h (Suc l) pa w)" for w
    using g(5)[of w] lk[of w] lk'[of w] same_page_Suc[OF t, of v w] by (cases "level_index (Suc l) w = ?i") simp_all
  moreover have "\<exists>e. lookup (kmem s) ?h (Suc l) pa v = Some (t, e)" using hit lk[of v] by simp
  ultimately show ?thesis using g(1,2,4) tf em' s'(2-5) unfolding unmap_post_def Let_def by auto
qed

lemma unmap_below:
  assumes x: "x86_ok X" and inv: "tree_inv s (Suc l) pa" and t: "t \<le> l"
    and e: "present (kmem s (slot_of (hhdm s) pa (level_index (Suc l) v)))"
      "\<not> leaf (Suc l) (kmem s (slot_of (hhdm s) pa (level_index (Suc l) v)))"
    and c: "c = entry_addr (kmem s (slot_of (hhdm s) pa (level_index (Suc l) v)))"
    and post: "unmap_post v t l c s (Inr ()) s1"
  shows "\<exists>s'. reclaim release X (hhdm s) (Suc l) (slot_of (hhdm s) pa (level_index (Suc l) v)) c s1 = Some s' \<and>
    unmap_post v t (Suc l) pa s (Inr ()) s'"
proof -
  let ?h = "hhdm s" and ?i = "level_index (Suc l) v"
  let ?slot = "slot_of ?h pa ?i"
  note b = tree_inv_basic[OF inv]
  have ch: "child (kmem s) ?h (Suc l) pa ?i = Some c" using e by (simp add: child_def Let_def c)
  note ci = tree_inv_child[OF inv level_index_less ch, unfolded diff_Suc_1]
  note p = post[unfolded unmap_post_def Let_def]
  have sub: "frame_of pa \<notin> sub (kmem s) ?h (Suc l) pa ?i"
    using others_disjoint(2)[OF b(6) level_index_less] .
  have ag: "agree_off (frame_words ?h (tframes (kmem s) ?h l c \<union> avail s)) (kmem s) (kmem s1)" using p by blast
  have slo: "?slot \<notin> frame_words ?h (tframes (kmem s) ?h l c \<union> avail s)"
    using slot_word[OF inv level_index_less, of "Suc l" v "tframes (kmem s) ?h l c \<union> avail s"]
      sub ci(2) b(5,12) tree_inv_basic(11)[OF ci(1)] by auto
  then have sl: "kmem s1 ?slot = kmem s ?slot" using ag by (simp add: agree_off_def)
  have i1: "tree_inv s1 l c" "hhdm s1 = ?h" "total s1 = total s" "vrest s1 = vrest s" using p by blast+
  note b1 = tree_inv_basic[OF i1(1), unfolded i1(2,3)]
  let ?E = "emptied (kmem s) ?h t v l c"
  have tl: "tlb s1 = tlb s @ Flush v # replicate (card ?E) FlushAll" using p by blast
  have part: "tframes (kmem s1) ?h l c \<union> avail s1 = tframes (kmem s) ?h l c \<union> avail s"
    "tframes (kmem s1) ?h l c = tframes (kmem s) ?h l c - ?E" "?E \<subseteq> tframes (kmem s) ?h l c" using p by blast+
  have emp: "(\<forall>i<512. \<not> present (kmem s1 (slot_of ?h c i))) \<longleftrightarrow> empties (kmem s) ?h t v l c" using p by blast
  have E: "emptied (kmem s) ?h t v (Suc l) pa = ?E \<union> (if empties (kmem s) ?h t v l c then {frame_of c} else {})"
    using t by (simp add: Let_def flip: c)
  have lk: "lookup (kmem s1) ?h l c w = (if same_page t l v w then None else lookup (kmem s) ?h l c w)" for w
    using p by blast
  have hit: "\<exists>e. lookup (kmem s) ?h l c v = Some (t, e)" using conjunct1[OF p] by (simp split: if_splits)
  have ag1: "agree_off (insert ?slot (frame_words ?h (tframes (kmem s) ?h l c \<union> avail s))) (kmem s) (kmem s1)"
    using ag by (rule agree_off_mono) blast
  have nl: "\<not> (Suc l \<le> 2 \<and> bit (kmem s1 ?slot) 7)" using e(2) sl by (simp add: leaf_def)
  note em = is_empty_ok[OF x b1(7), of "kmem s1"]
  show ?thesis
  proof (cases "\<forall>i<512. \<not> present (kmem s1 (slot_of ?h c i))")
    case False
    then have "is_empty X c ?h (kmem s1) = Some False" unfolding em by simp
    then have "reclaim release X ?h (Suc l) ?slot c s1 = Some s1" using nl by (simp add: reclaim_def)
    moreover have ch1: "child (kmem s1) ?h (Suc l) pa ?i = Some c" using ch sl by (simp add: child_def)
    moreover have "unmap_post v t (Suc l) pa s (Inr ()) s1"
    proof (rule unmap_graft[OF inv t ch hit b1(1) i1(2-4) _ ag1])
      show "lookup (kmem s1) ?h (Suc l) pa w = (if same_page t l v w then None else lookup (kmem s) ?h l c w)"
        if "level_index (Suc l) w = ?i" for w
        using ch1 that lk[of w] by (auto simp: child_def Let_def split: if_splits)
    qed (use ch1 b1(6,8) part tl E emp False e(1) sl in \<open>auto simp: sub_def\<close>)
    ultimately show ?thesis by blast
  next
    case True
    note z = zero_table[OF True]
    have o2: "ok (store ?slot 0 s1)" "avail (store ?slot 0 s1) = avail s1" "total (store ?slot 0 s1) = total s"
      "hhdm (store ?slot 0 s1) = ?h"
    proof -
      have "avail s1 \<subseteq> tframes (kmem s) ?h l c \<union> avail s" using part by blast
      then have "frame_of pa \<notin> avail s1" using sub ci(2) b(5) by blast
      moreover have "agree_off (frame_words ?h {frame_of pa}) (kmem s1) (kmem (store ?slot 0 s1))"
        using slot_in_frame[OF b(3) level_index_less singletonI] by (auto simp: agree_off_def)
      ultimately show "ok (store ?slot 0 s1)" "avail (store ?slot 0 s1) = avail s1" "total (store ?slot 0 s1) = total s"
        "hhdm (store ?slot 0 s1) = ?h"
        using write_ok[OF b1(1), of "store ?slot 0 s1" "{frame_of pa}", unfolded i1(2,3)] b(4) by simp_all
    qed
    obtain s3 where s3: "release (store ?slot 0 s1) c 0 = Some s3" "ok s3" "avail s3 = insert (frame_of c) (avail s1)"
      "total s3 = total s" "hhdm s3 = ?h" "kernel.more s3 = kernel.more (store ?slot 0 s1)"
      "agree_off (frame_words ?h (insert (frame_of c) (avail s1))) (kmem (store ?slot 0 s1)) (kmem s3)"
      by (rule release_one[OF o2(1), of c]) (use b1(3-5) o2 in \<open>auto simp: aligned_def\<close>)
    define s' where "s' = tlb_flush_all s3"
    have av: "insert (frame_of c) (avail s1) = tframes (kmem s) ?h l c \<union> avail s" using part z(4) by simp
    have r: "reclaim release X ?h (Suc l) ?slot c s1 = Some s'"
      unfolding reclaim_def if_not_P[OF nl] using em True s3(1) by (simp add: s'_def)
    have ok': "ok s'" "avail s' = tframes (kmem s) ?h l c \<union> avail s" "total s' = total s" "hhdm s' = ?h"
      using ok_write[OF s3(2), of s'] s3(3-5) av by (simp_all add: s'_def)
    have sl': "kmem s' ?slot = 0" using s3(7) slo av by (simp add: agree_off_def s'_def)
    have ag': "agree_off (insert ?slot (frame_words ?h (tframes (kmem s) ?h l c \<union> avail s))) (kmem s) (kmem s')"
      using ag1 s3(7) av by (auto simp: agree_off_def s'_def)
    have sub': "child (kmem s') ?h (Suc l) pa ?i = None" "sub (kmem s') ?h (Suc l) pa ?i = {}"
      using sl' by (simp_all add: sub_empty)
    have E': "emptied (kmem s) ?h t v (Suc l) pa = insert (frame_of c) ?E" "frame_of c \<notin> ?E" "finite ?E"
      "insert (frame_of c) ?E = tframes (kmem s) ?h l c"
      using E emp True part(2,3) z(4) finite_subset[OF subset_trans[OF part(3) tree_inv_basic(11)[OF ci(1)]]] by auto
    have tl': "tlb s' = tlb s @ Flush v # replicate (card (emptied (kmem s) ?h t v (Suc l) pa)) FlushAll" "vrest s' = vrest s"
      unfolding E'(1) using tl i1(4) kernel_more_vrest[OF s3(6)] E'(2,3) by (simp_all add: s'_def replicate_append_same)
    have "unmap_post v t (Suc l) pa s (Inr ()) s'"
    proof (rule unmap_graft[OF inv t ch hit ok'(1,4,3) tl'(2,1) ag'])
      show "lookup (kmem s') ?h (Suc l) pa w = (if same_page t l v w then None else lookup (kmem s) ?h l c w)"
        if "level_index (Suc l) w = ?i" for w
        using sl' that lk[of w] z(2)[of l w] by (simp add: Let_def split: if_splits)
    qed (use sub' ok'(2) E' emp True sl' in auto)
    with r show ?thesis by blast
  qed
qed

lemma walk_unmap_ok:
  assumes x: "x86_ok X" and "tree_inv s l pa" "t \<le> l" "hhdm s = h"
  shows "\<exists>r s'. walk_unmap release X h v t l pa s = Some (r, s') \<and> unmap_post v t l pa s r s'"
  using assms(2-4)
proof (induction l arbitrary: pa s)
  case 0
  note b = tree_inv_basic[OF 0(1)]
  show ?case
  proof (cases "present (kmem s (slot_of h pa (level_index 0 v)))")
    case True
    with drop_leaf_ok[of s 0 pa v] 0 b(7) show ?thesis by (simp add: leaf_def Let_def)
  next
    case False
    then have "unmap_post v 0 0 pa s (Inl NotMapped) s" using 0 by (intro unmap_miss) (simp add: Let_def)
    with False 0 b(7) show ?thesis by (auto simp: Let_def)
  qed
next
  case (Suc l)
  note inv = Suc.prems(1) and h = Suc.prems(3)
  note b = tree_inv_basic[OF inv]
  let ?e = "kmem s (slot_of h pa (level_index (Suc l) v))"
  have lk: "lookup (kmem s) (hhdm s) (Suc l) pa v = (if \<not> present ?e then None else if leaf (Suc l) ?e then Some (Suc l, ?e)
      else lookup (kmem s) h l (entry_addr ?e) v)" by (simp add: Let_def h)
  note w = walk_unmap_Suc[of release X h v t l pa s]
  consider (hit) "present ?e" "leaf (Suc l) ?e" "Suc l = t"
    | (miss) "\<not> present ?e \<or> leaf (Suc l) ?e \<and> Suc l \<noteq> t \<or> \<not> leaf (Suc l) ?e \<and> Suc l = t"
    | (table) "present ?e" "\<not> leaf (Suc l) ?e" "Suc l \<noteq> t" by blast
  then show ?case
  proof cases
    case hit
    then have "walk_unmap release X h v t (Suc l) pa s =
        Some (Inr (), tlb_flush v (store (slot_of h pa (level_index (Suc l) v)) 0 s))"
      using b(7) h unfolding w by (simp add: Let_def)
    with drop_leaf_ok[OF inv, of v] hit h show ?thesis by auto
  next
    case miss
    then have "\<nexists>e. lookup (kmem s) (hhdm s) (Suc l) pa v = Some (t, e)"
      unfolding lk using lookup_level[of "kmem s" h l _ v t] by (auto split: if_splits)
    moreover have "walk_unmap release X h v t (Suc l) pa s = Some (Inl NotMapped, s)"
      using miss b(7) h unfolding w by (auto simp: Let_def)
    ultimately show ?thesis using unmap_miss by blast
  next
    case table
    define c where "c = entry_addr ?e"
    have t: "t \<le> l" using Suc.prems(2) table(3) by simp
    have "child (kmem s) (hhdm s) (Suc l) pa (level_index (Suc l) v) = Some c"
      using table h by (simp add: child_def Let_def c_def)
    from tree_inv_child(1)[OF inv level_index_less this] Suc.IH[of s c] t h obtain r s1 where
      r: "walk_unmap release X h v t l c s = Some (r, s1)" "unmap_post v t l c s r s1" by auto
    show ?thesis
    proof (cases r)
      case (Inl er)
      then have "s1 = s" "er = NotMapped" "\<nexists>e. lookup (kmem s) h l c v = Some (t, e)"
        using r(2) h by (auto simp: unmap_post_def Let_def split: if_splits)
      with unmap_miss[of s "Suc l" pa v t] r(1) Inl table b(7) h lk show ?thesis
        by (auto simp: w Let_def c_def)
    next
      case (Inr u)
      with r(2) have "unmap_post v t l c s (Inr ()) s1" by simp
      from unmap_below[OF x inv t _ _ _ this] table h c_def r(1) Inr b(7) show ?thesis
        by (auto simp: w Let_def)
    qed
  qed
qed

end

end
