(* ===== verification/Pmm_Inv.thy ===== *)
theory Pmm_Inv
  imports Free_List Buddy
begin

text \<open>
  The invariant of the physical allocator and what its two list primitives do to it.
  \<open>labels p\<close> abstracts \<open>frame_order\<close> to a labelling of theory \<open>Buddy\<close>; \<open>pmm_core\<close> ties the
  labelling to the linked lists in memory, \<open>pmm_inv\<close> adds the free-frame counter.
\<close>

section \<open>The frame_order array\<close>

definition label_run :: "u8 list \<Rightarrow> nat \<Rightarrow> nat \<Rightarrow> u8 \<Rightarrow> u8 list" where
  "label_run fo f k v = map (\<lambda>j. if j \<in> run f k then v else fo ! j) [0..<length fo]"

lemma length_label_run [simp]: "length (label_run fo f k v) = length fo"
  by (simp add: label_run_def)

lemma nth_label_run [simp]:
  "i < length fo \<Longrightarrow> label_run fo f k v ! i = (if i \<in> run f k then v else fo ! i)"
  by (simp add: label_run_def)

lemma unat_plus_one: "unat (i :: u64) + 1 < 2 ^ 64 \<Longrightarrow> unat (i + 1) = unat i + 1"
  using unat_add_lt[of i 1] by simp

lemma set_block_order_loop_ok:
  assumes "unat frame + unat i + n \<le> length fo" "length fo < 2 ^ 64"
  shows "set_block_order_loop fo frame v i n = Some (map (\<lambda>j.
    if unat frame + unat i \<le> j \<and> j < unat frame + unat i + n then v else fo ! j) [0..<length fo])"
  using assms
proof (induction n arbitrary: fo i)
  case 0
  show ?case by (simp, rule nth_equalityI) auto
next
  case (Suc n)
  let ?fo = "fo[unat (frame + i) := v]"
  have k: "unat (frame + i) = unat frame + unat i" and i: "unat (i + 1) = unat i + 1"
    using Suc.prems unat_add_lt[of frame i] unat_plus_one[of i] by simp_all
  have "set_block_order_loop fo frame v i (Suc n) = set_block_order_loop ?fo frame v (i + 1) n"
    using Suc.prems k by simp
  also have "\<dots> = Some (map (\<lambda>j. if unat frame + unat i + 1 \<le> j \<and> j < unat frame + unat i + Suc n
      then v else ?fo ! j) [0..<length fo])"
    using Suc.IH[of "i + 1" ?fo] Suc.prems i by (simp add: add.assoc)
  also have "\<dots> = Some (map (\<lambda>j. if unat frame + unat i \<le> j \<and> j < unat frame + unat i + Suc n
      then v else fo ! j) [0..<length fo])"
    using Suc.prems k by (auto simp: nth_list_update)
  finally show ?case .
qed

lemma set_block_order_ok:
  assumes "unat frame + 2 ^ k \<le> length (frame_order p)" "length (frame_order p) < 2 ^ 64" "k < 64"
  shows "set_block_order p frame k v =
           Some (p\<lparr>frame_order := label_run (frame_order p) (unat frame) k v\<rparr>)"
  using assms by (simp add: set_block_order_def set_block_order_loop_ok label_run_def mem_run)

lemma assert_block_unused_loop_ok:
  assumes "unat frame + unat i + n \<le> length fo" "length fo < 2 ^ 64"
  shows "assert_block_unused_loop fo frame i n =
    check (\<forall>j. unat frame + unat i \<le> j \<and> j < unat frame + unat i + n \<longrightarrow> fo ! j = ORDER_NONE)"
  using assms
proof (induction n arbitrary: i)
  case (Suc n)
  have k: "unat (frame + i) = unat frame + unat i" and i: "unat (i + 1) = unat i + 1"
    using Suc.prems unat_add_lt[of frame i] unat_plus_one[of i] by simp_all
  let ?ok = "\<lambda>a. \<forall>j. a \<le> j \<and> j < unat frame + unat i + Suc n \<longrightarrow> fo ! j = ORDER_NONE"
  have "?ok (unat frame + unat i) \<longleftrightarrow>
    fo ! (unat frame + unat i) = ORDER_NONE \<and> ?ok (unat frame + unat i + 1)"
    by (rule all_from_Suc) simp
  moreover have "assert_block_unused_loop fo frame (i + 1) n = check (?ok (unat frame + unat i + 1))"
    using Suc.IH[of "i + 1"] Suc.prems i by (simp add: add.assoc)
  moreover have "assert_block_unused_loop fo frame i (Suc n) =
    (if fo ! (unat frame + unat i) = ORDER_NONE
     then assert_block_unused_loop fo frame (i + 1) n else None)"
    using Suc.prems k by simp
  ultimately show ?case by (simp add: check_def)
qed (auto simp: check_def)

lemma assert_block_unused_ok:
  assumes "unat frame + 2 ^ k \<le> length (frame_order p)" "length (frame_order p) < 2 ^ 64" "k < 64"
  shows "assert_block_unused p frame k =
           check (\<forall>j\<in>run (unat frame) k. frame_order p ! j = ORDER_NONE)"
  using assms by (simp add: assert_block_unused_def assert_block_unused_loop_ok Ball_def mem_run)

section \<open>The labelling\<close>

definition labels :: "Pmm \<Rightarrow> labelling" where
  "labels p i = (if i < length (frame_order p) \<and> frame_order p ! i \<noteq> ORDER_NONE
                 then Some (unat (frame_order p ! i)) else None)"

lemma labels_dom: "i \<in> dom (labels p) \<longleftrightarrow> i < length (frame_order p) \<and> frame_order p ! i \<noteq> ORDER_NONE"
  by (auto simp: labels_def split: if_splits)

lemma dom_labels_bound: "dom (labels p) \<subseteq> {..<length (frame_order p)}"
  unfolding subset_iff labels_dom lessThan_iff by blast

lemma finite_dom_labels [simp]: "finite (dom (labels p))"
  using dom_labels_bound by (rule finite_subset) simp

lemma labels_simps [simp]:
  "labels (p\<lparr>free_lists := fl\<rparr>) = labels p" "labels (p\<lparr>free_frames := ff\<rparr>) = labels p"
  by (simp_all add: labels_def fun_eq_iff)

lemma labels_label_run:
  assumes "f + 2 ^ k \<le> length (frame_order p)"
  shows "labels (p\<lparr>frame_order := label_run (frame_order p) f k v\<rparr>) =
    (\<lambda>i. if i \<in> run f k then (if v = ORDER_NONE then None else Some (unat v)) else labels p i)"
  using assms by (auto simp: labels_def fun_eq_iff mem_run)

lemma order_u8: "k \<le> MAX_ORDER \<Longrightarrow> (word_of_nat k :: u8) \<noteq> ORDER_NONE"
  "k \<le> MAX_ORDER \<Longrightarrow> unat (word_of_nat k :: u8) = k"
proof -
  assume k: "k \<le> MAX_ORDER"
  then show u: "unat (word_of_nat k :: u8) = k" by (simp add: unat_of_nat)
  show "(word_of_nat k :: u8) \<noteq> ORDER_NONE"
  proof
    assume "(word_of_nat k :: u8) = ORDER_NONE"
    then have "unat (word_of_nat k :: u8) = 255" by simp
    with u k show False by simp
  qed
qed

lemma labels_put:
  assumes "f + 2 ^ k \<le> length (frame_order p)" "k \<le> MAX_ORDER"
  shows "labels (p\<lparr>frame_order := label_run (frame_order p) f k (word_of_nat k)\<rparr>) =
           put_block (labels p) f k"
  using order_u8[OF assms(2)] by (simp add: labels_label_run[OF assms(1)] put_block_def fun_eq_iff)

lemma labels_take:
  assumes "f + 2 ^ k \<le> length (frame_order p)"
  shows "labels (p\<lparr>frame_order := label_run (frame_order p) f k ORDER_NONE\<rparr>) =
           take_block (labels p) f k"
  by (simp add: labels_label_run[OF assms] take_block_def fun_eq_iff)

section \<open>The invariant\<close>

definition free_list :: "mem \<Rightarrow> Pmm \<Rightarrow> nat \<Rightarrow> nat list \<Rightarrow> bool" where
  "free_list m p k fs \<longleftrightarrow>
     free_lists p ! k = first_link (hhdm_offset p) None fs \<and>
     dll m (hhdm_offset p) None fs None \<and>
     distinct fs \<and> set fs = {f. is_block (labels p) f k}"

definition pmm_core :: "mem \<Rightarrow> Pmm \<Rightarrow> bool" where
  "pmm_core m p \<longleftrightarrow>
     length (free_lists p) = NUM_ORDERS \<and>
     length (frame_order p) = unat (total_frames p) \<and>
     fits (hhdm_offset p) (unat (total_frames p)) \<and>
     buddy_wf MAX_ORDER (labels p) \<and> coalesced MAX_ORDER (labels p) \<and>
     (\<forall>k\<le>MAX_ORDER. \<exists>fs. free_list m p k fs)"

definition pmm_inv :: "mem \<Rightarrow> Pmm \<Rightarrow> bool" where
  "pmm_inv m p \<longleftrightarrow> pmm_core m p \<and> unat (free_frames p) = card (dom (labels p))"

lemma pmm_core_simps:
  assumes "pmm_core m p"
  shows "length (free_lists p) = 12" "length (frame_order p) = unat (total_frames p)"
    "fits (hhdm_offset p) (unat (total_frames p))" "length (frame_order p) < 2 ^ 64"
    "buddy_wf MAX_ORDER (labels p)" "coalesced MAX_ORDER (labels p)"
  using assms by (simp_all add: pmm_core_def)

lemma pmm_core_free_frames [simp]: "pmm_core m (p\<lparr>free_frames := ff\<rparr>) = pmm_core m p"
  by (simp add: pmm_core_def free_list_def)

lemma pmm_total_bound: "pmm_core m p \<Longrightarrow> unat (total_frames p) < 2 ^ 52"
  using unat_gt_0[of "hhdm_offset p"] by (auto simp: pmm_core_def fits_def)

lemma block_in_range:
  assumes "pmm_core m p" "is_block (labels p) f k"
  shows "f + 2 ^ k \<le> unat (total_frames p)" "f < unat (total_frames p)" "k \<le> MAX_ORDER"
proof -
  have "(0::nat) < 2 ^ k" by simp
  then have "f + 2 ^ k - 1 \<in> run f k" unfolding mem_run by linarith
  then have "f + 2 ^ k - 1 < unat (total_frames p)"
    using is_block_dom[OF assms(2)] dom_labels_bound[of p] pmm_core_simps(2)[OF assms(1)] by auto
  with \<open>0 < 2 ^ k\<close> show "f + 2 ^ k \<le> unat (total_frames p)" "f < unat (total_frames p)" by linarith+
  show "k \<le> MAX_ORDER"
    using wf_le[OF pmm_core_simps(5)[OF assms(1)] is_block_start[OF assms(2)]] by simp
qed

lemma frame_to_block_ok:
  assumes "fits (hhdm_offset p) n" "unat frame < n"
  shows "frame_to_block p frame = Some (fptr (hhdm_offset p) (unat frame))"
proof -
  have b: "unat frame * 4096 + 4096 \<le> n * 4096" using assms(2) by (metis Suc_leI mult_Suc mult_le_mono1 add.commute)
  then have lt: "unat (hhdm_offset p) + unat frame * 4096 < 2 ^ 64" using assms(1) by (simp add: fits_def)
  then have u: "unat (push_bit 12 frame) = unat frame * 4096" by (subst unat_push_bit64) simp_all
  have "push_bit 12 frame = (word_of_nat (unat frame * 4096) :: u64)"
    using lt u by (simp add: word_unat_eq_iff unat_of_nat64 del: of_nat_mult)
  then show ?thesis using lt u by (simp add: frame_to_block_def fptr_def add.commute del: of_nat_mult)
qed

lemma block_to_frame_ok:
  assumes "fits (hhdm_offset p) n" "f < n"
  shows "block_to_frame p (fptr (hhdm_offset p) f) = Some (word_of_nat f)"
proof -
  let ?h = "hhdm_offset p"
  have u: "unat (fptr ?h f) = unat ?h + f * 4096" by (rule unat_fptr[OF assms])
  have le: "?h \<le> fptr ?h f" using u by (simp add: unat_le_iff)
  have f: "f * 4096 < 2 ^ 64" using u unat_lt64[of "fptr ?h f"] by linarith
  have "unat (fptr ?h f - ?h) = f * 4096" using u le by (simp add: unat_sub)
  then have "unat (drop_bit 12 (fptr ?h f - ?h)) = f" by (simp add: unat_drop_bit64)
  moreover have "unat (word_of_nat f :: u64) = f" using f by (intro unat_of_nat64) simp
  ultimately have "drop_bit 12 (fptr ?h f - ?h) = word_of_nat f" by (simp add: word_unat_eq_iff)
  then show ?thesis using le by (simp add: block_to_frame_def)
qed

section \<open>The list primitives keep the invariant\<close>

text \<open>Only the lists and the labels of an allocator differ.\<close>

definition same_frame :: "Pmm \<Rightarrow> Pmm \<Rightarrow> bool" where
  "same_frame p p' \<longleftrightarrow> total_frames p' = total_frames p \<and> free_frames p' = free_frames p
     \<and> hhdm_offset p' = hhdm_offset p"

lemma same_frame_refl [simp, intro]: "same_frame p p"
  by (simp add: same_frame_def)

lemma same_frame_trans: "same_frame p q \<Longrightarrow> same_frame q r \<Longrightarrow> same_frame p r"
  by (simp add: same_frame_def)

lemma unused_run:
  assumes "f + 2 ^ k \<le> length (frame_order p)"
  shows "(\<forall>j\<in>run f k. frame_order p ! j = ORDER_NONE) \<longleftrightarrow> run f k \<inter> dom (labels p) = {}"
proof -
  have "\<forall>j\<in>run f k. j < length (frame_order p)" using assms by (auto simp: mem_run)
  then show ?thesis using labels_dom[of _ p] by blast
qed

lemma list_push_eq:
  assumes core: "pmm_core m p" and k: "k \<le> MAX_ORDER"
    and range: "unat frame + 2 ^ k \<le> unat (total_frames p)"
    and unused: "run (unat frame) k \<inter> dom (labels p) = {}"
    and fs: "free_list m p k fs"
  shows "list_push m p frame k =
    Some (push_mem m (fptr (hhdm_offset p) (unat frame)) (first_link (hhdm_offset p) None fs),
          p\<lparr>free_lists := (free_lists p)[k := Some (fptr (hhdm_offset p) (unat frame))],
            frame_order := label_run (frame_order p) (unat frame) k (word_of_nat k)\<rparr>)"
proof -
  note c = pmm_core_simps[OF core]
  have k64: "k < 64" "k < 12" using k by simp_all
  have lt: "unat frame < unat (total_frames p)" using range zero_less_power[of "2::nat" k] by linarith
  have lt64: "unat frame + 2 ^ k < 2 ^ 64" using range unat_lt64[of "total_frames p"] by linarith
  have e: "unat (frame + 2 ^ k) = unat frame + 2 ^ k"
    by (subst unat_add_lt) (use lt64 k64 in simp_all)
  have add: "add64 frame (2 ^ k) = Some (frame + 2 ^ k)"
    using lt64 k64 by (intro add64_Some) simp
  have unused': "assert_block_unused p frame k = Some ()"
    using assert_block_unused_ok[of frame k p] unused_run[of "unat frame" k p] range unused c k64 by simp
  have ftb: "frame_to_block p frame = Some (fptr (hhdm_offset p) (unat frame))"
    by (rule frame_to_block_ok[OF c(3) lt])
  have sbo: "\<And>q v. frame_order q = frame_order p \<Longrightarrow> set_block_order q frame k v =
      Some (q\<lparr>frame_order := label_run (frame_order q) (unat frame) k v\<rparr>)"
    using range c k64 by (intro set_block_order_ok) simp_all
  have head: "free_lists p ! k = first_link (hhdm_offset p) None fs" using fs by (simp add: free_list_def)
  show ?thesis using lt e k64 c range
    by (simp add: list_push_def unat_less_iff unat_le_iff add unused' ftb sbo head push_mem_def Let_def)
qed

lemma list_push_ok:
  assumes core: "pmm_core m p" and k: "k \<le> MAX_ORDER" and al: "2 ^ k dvd unat frame"
    and range: "unat frame + 2 ^ k \<le> unat (total_frames p)"
    and unused: "run (unat frame) k \<inter> dom (labels p) = {}"
    and merged: "k < MAX_ORDER \<Longrightarrow> \<not> is_block (labels p) (buddy_of (unat frame) k) k"
  obtains m' p' where "list_push m p frame k = Some (m', p')" "pmm_core m' p'"
    "labels p' = put_block (labels p) (unat frame) k" "same_frame p p'"
    "agree_off (link_words (hhdm_offset p) (dom (labels p'))) m m'"
proof -
  let ?f = "unat frame" and ?h = "hhdm_offset p" and ?n = "unat (total_frames p)"
  note c = pmm_core_simps[OF core]
  obtain fs where fs: "free_list m p k fs" using core k by (auto simp: pmm_core_def)
  define m' where "m' = push_mem m (fptr ?h ?f) (first_link ?h None fs)"
  define p' where "p' = p\<lparr>free_lists := (free_lists p)[k := Some (fptr ?h ?f)],
            frame_order := label_run (frame_order p) ?f k (word_of_nat k)\<rparr>"
  have eq: "list_push m p frame k = Some (m', p')"
    unfolding m'_def p'_def by (rule list_push_eq[OF core k range unused fs])
  have L: "labels p' = put_block (labels p) ?f k"
    using labels_put[of ?f k "p\<lparr>free_lists := (free_lists p)[k := Some (fptr ?h ?f)]\<rparr>"] range k c
    by (simp add: p'_def)
  have sfs: "set fs = {f. is_block (labels p) f k}" using fs by (simp add: free_list_def)
  have fn: "?f < ?n" using range zero_less_power[of "2::nat" k] by linarith
  have fsn: "set fs \<subseteq> {..<?n}" using sfs block_in_range(2)[OF core] by auto
  have fresh: "\<And>j. \<not> is_block (labels p) ?f j" using unused run_start is_block_dom by blast
  have agree: "agree_off (link_words ?h (insert ?f (set fs))) m m'"
    unfolding m'_def by (rule push_mem_agree) auto
  have lists: "\<exists>gs. free_list m' p' j gs" if j: "j \<le> MAX_ORDER" for j
  proof (cases "j = k")
    case True
    have "dll m' ?h None (?f # fs) None" unfolding m'_def
      by (rule dll_push[OF c(3)]) (use fn fsn fresh sfs fs in \<open>auto simp: free_list_def\<close>)
    moreover have "set (?f # fs) = {g. is_block (labels p') g k}"
      using is_block_put[OF al unused] sfs by (auto simp: L)
    ultimately have "free_list m' p' k (?f # fs)"
      using fs fresh sfs c(1) k by (simp add: free_list_def p'_def)
    then show ?thesis using True by blast
  next
    case False
    obtain gs where gs: "free_list m p j gs" using core j by (auto simp: pmm_core_def)
    then have sgs: "set gs = {f. is_block (labels p) f j}" by (simp add: free_list_def)
    have "insert ?f (set fs) \<inter> set gs = {}"
      using sfs sgs fresh False is_block_start[of "labels p" _ j] is_block_start[of "labels p" _ k] by force
    moreover have "set gs \<subseteq> {..<?n}" using sgs block_in_range(2)[OF core] by auto
    ultimately have "dll m' ?h None gs None = dll m ?h None gs None"
      using fn fsn by (intro dll_agree[OF agree _ c(3)]) auto
    moreover have "{g. is_block (labels p') g j} = {g. is_block (labels p) g j}"
      using is_block_put[OF al unused] False by (auto simp: L)
    ultimately have "free_list m' p' j gs" using gs False by (simp add: free_list_def p'_def)
    then show ?thesis by blast
  qed
  have core': "pmm_core m' p'"
    unfolding pmm_core_def
  proof (intro conjI allI impI)
    show "buddy_wf MAX_ORDER (labels p')" unfolding L by (rule wf_put[OF c(5) al k unused])
    show "coalesced MAX_ORDER (labels p')" unfolding L
      by (rule coalesced_put[OF c(6) al unused merged])
  qed (use c lists in \<open>auto simp: p'_def\<close>)
  have agree': "agree_off (link_words ?h (dom (labels p'))) m m'"
    by (rule agree_off_mono[OF agree link_words_mono]) (auto simp: L sfs dest: is_block_start)
  have same: "same_frame p p'" by (simp add: same_frame_def p'_def)
  show thesis by (rule that[OF eq core' L same agree'])
qed

lemma list_remove_eq:
  assumes core: "pmm_core m p" and blk: "is_block (labels p) (unat frame) k"
    and fs: "free_list m p k (xs @ unat frame # ys)"
  shows "list_remove m p frame k =
    Some (unlink_mem m (last_link (hhdm_offset p) None xs) (first_link (hhdm_offset p) None ys),
          p\<lparr>free_lists := (free_lists p)[k := first_link (hhdm_offset p) None (xs @ ys)],
            frame_order := label_run (frame_order p) (unat frame) k ORDER_NONE\<rparr>)"
proof -
  let ?f = "unat frame" and ?h = "hhdm_offset p"
  note c = pmm_core_simps[OF core] and r = block_in_range[OF core blk]
  have k: "k < 64" "k < 12" using r(3) by simp_all
  have d: "dll m ?h None (xs @ ?f # ys) None" using fs by (simp add: free_list_def)
  have fo: "frame_order p ! ?f = word_of_nat k"
    using is_block_start[OF blk] r(2) by (auto simp: labels_def split: if_splits)
  have pr: "prev (free_block m (fptr ?h ?f)) = last_link ?h None xs"
    and nx: "nxt (free_block m (fptr ?h ?f)) = first_link ?h None ys" using d by simp_all
  have ftb: "frame_to_block p frame = Some (fptr ?h ?f)" by (rule frame_to_block_ok[OF c(3) r(2)])
  have sbo: "\<And>q v. frame_order q = frame_order p \<Longrightarrow> set_block_order q frame k v =
      Some (q\<lparr>frame_order := label_run (frame_order q) ?f k v\<rparr>)"
    using r c k by (intro set_block_order_ok) simp_all
  have head: "free_lists p ! k = first_link ?h None (xs @ ?f # ys)" using fs by (simp add: free_list_def)
  show ?thesis
  proof (cases xs rule: rev_cases)
    case Nil
    then show ?thesis using r k c
      by (simp add: list_remove_def unat_less_iff fo ftb pr nx sbo unlink_mem_def Let_def
          cong: option.case_cong)
  next
    case (snoc zs z)
    then have e: "first_link ?h None (xs @ ys) = free_lists p ! k" using head by (cases zs) auto
    have "(free_lists p)[k := first_link ?h None (xs @ ys)] = free_lists p"
      unfolding e by (rule list_update_id)
    then show ?thesis using snoc r k c
      by (simp add: list_remove_def unat_less_iff fo ftb pr nx sbo unlink_mem_def Let_def last_link_def
          cong: option.case_cong)
  qed
qed

lemma list_remove_ok:
  assumes core: "pmm_core m p" and blk: "is_block (labels p) (unat frame) k"
  obtains m' p' where "list_remove m p frame k = Some (m', p')" "pmm_core m' p'"
    "labels p' = take_block (labels p) (unat frame) k" "same_frame p p'"
    "agree_off (link_words (hhdm_offset p) (dom (labels p))) m m'"
proof -
  let ?f = "unat frame" and ?h = "hhdm_offset p" and ?n = "unat (total_frames p)"
  note c = pmm_core_simps[OF core] and r = block_in_range[OF core blk]
  obtain fs where "free_list m p k fs" using core r(3) by (auto simp: pmm_core_def)
  moreover from this blk have "?f \<in> set fs" by (simp add: free_list_def)
  ultimately obtain xs ys where fs: "free_list m p k (xs @ ?f # ys)" by (metis split_list)
  then have sfs: "insert ?f (set (xs @ ys)) = {f. is_block (labels p) f k}"
    and dist: "distinct (xs @ ?f # ys)" by (auto simp: free_list_def)
  define m' where "m' = unlink_mem m (last_link ?h None xs) (first_link ?h None ys)"
  define p' where "p' = p\<lparr>free_lists := (free_lists p)[k := first_link ?h None (xs @ ys)],
            frame_order := label_run (frame_order p) ?f k ORDER_NONE\<rparr>"
  have eq: "list_remove m p frame k = Some (m', p')"
    unfolding m'_def p'_def by (rule list_remove_eq[OF core blk fs])
  have L: "labels p' = take_block (labels p) ?f k"
    using labels_take[of ?f k "p\<lparr>free_lists := (free_lists p)[k := first_link ?h None (xs @ ys)]\<rparr>"] r c
    by (simp add: p'_def)
  have fsn: "set (xs @ ?f # ys) \<subseteq> {..<?n}" using sfs block_in_range(2)[OF core] by auto
  have agree: "agree_off (link_words ?h (set (xs @ ys))) m m'"
    unfolding m'_def by (rule unlink_mem_agree) auto
  have lists: "\<exists>gs. free_list m' p' j gs" if j: "j \<le> MAX_ORDER" for j
  proof (cases "j = k")
    case True
    have "dll m' ?h None (xs @ ys) None" unfolding m'_def
      by (rule dll_unlink[OF c(3) fsn dist]) (use fs in \<open>simp add: free_list_def\<close>)
    moreover have "set (xs @ ys) = {g. is_block (labels p') g k}"
      using is_block_take[OF blk] sfs dist by (auto simp: L)
    ultimately have "free_list m' p' k (xs @ ys)"
      using dist c(1) r(3) by (simp add: free_list_def p'_def)
    then show ?thesis using True by blast
  next
    case False
    obtain gs where gs: "free_list m p j gs" using core j by (auto simp: pmm_core_def)
    then have sgs: "set gs = {f. is_block (labels p) f j}" by (simp add: free_list_def)
    have "set (xs @ ys) \<inter> set gs = {}"
      using sfs sgs False is_block_start[of "labels p" _ j] is_block_start[of "labels p" _ k] by force
    moreover have "set gs \<subseteq> {..<?n}" using sgs block_in_range(2)[OF core] by auto
    ultimately have "dll m' ?h None gs None = dll m ?h None gs None"
      using fsn by (intro dll_agree[OF agree _ c(3)]) auto
    moreover have "{g. is_block (labels p') g j} = {g. is_block (labels p) g j}"
      using is_block_take[OF blk] False by (auto simp: L)
    ultimately have "free_list m' p' j gs" using gs False by (simp add: free_list_def p'_def)
    then show ?thesis by blast
  qed
  have core': "pmm_core m' p'"
    unfolding pmm_core_def
  proof (intro conjI allI impI)
    show "buddy_wf MAX_ORDER (labels p')" unfolding L by (rule wf_take[OF c(5) blk])
    show "coalesced MAX_ORDER (labels p')" unfolding L by (rule coalesced_take[OF c(6) blk])
  qed (use c lists in \<open>auto simp: p'_def\<close>)
  have "set (xs @ ys) \<subseteq> dom (labels p)" using sfs is_block_start[of "labels p" _ k] by blast
  then have agree': "agree_off (link_words ?h (dom (labels p))) m m'"
    by (intro agree_off_mono[OF agree link_words_mono])
  have same: "same_frame p p'" by (simp add: same_frame_def p'_def)
  show thesis by (rule that[OF eq core' L same agree'])
qed

end
