(* ===== verification/Pmm_Correct.thy ===== *)
theory Pmm_Correct
  imports Pmm_Inv
begin

text \<open>
  The methods of the physical allocator are correct: allocation, release and adding a
  range keep the invariant, do not panic on legal arguments, change the set of free
  frames exactly as they should and touch no memory outside free frames.
\<close>

section \<open>Buddy arithmetic on words\<close>

lemma xor_pow2_cases: "(a :: u64) XOR 2 ^ k = (if bit a k then unset_bit k a else set_bit k a)"
  by (rule bit_eqI) (auto simp: bit_simps)

lemma unat_xor_buddy:
  assumes "2 ^ k dvd unat (a :: u64)" "unat a + 2 ^ k < 2 ^ 64" "k < 64"
  shows "unat (a XOR 2 ^ k) = buddy_of (unat a) k"
proof (cases "odd (unat a div 2 ^ k)")
  case True
  then have b: "bit a k" using assms(3) by (simp add: bit_iff_odd_unat)
  have "2 ^ k \<le> unat a" using True by (cases "unat a < 2 ^ k") auto
  then have "unat (a - 2 ^ k) = unat a - 2 ^ k"
    using assms(3) by (subst unat_sub) (simp_all add: unat_le_iff)
  then show ?thesis using b True by (simp add: xor_pow2_cases unset_bit_eq buddy_of_def)
next
  case False
  then have b: "\<not> bit a k" using assms(3) by (simp add: bit_iff_odd_unat)
  have "unat (a + 2 ^ k) = unat a + 2 ^ k" by (subst unat_add_lt) (use assms in simp_all)
  then show ?thesis using b False by (simp add: xor_pow2_cases set_bit_eq buddy_of_def)
qed

lemma unat_and_not_buddy:
  assumes "2 ^ k dvd unat (a :: u64)" "k < 64"
  shows "unat (a AND NOT (2 ^ k)) = align_to (unat a) (Suc k)"
proof -
  have u: "a AND NOT (2 ^ k) = a - of_bool (bit a k) * 2 ^ k"
    by (metis push_bit_of_1 unset_bit_eq unset_bit_eq_and_not)
  from assms(1) show ?thesis
  proof (cases rule: buddy_cases)
    case low
    then have "even (unat a div 2 ^ k)" by (auto elim!: dvdE)
    then show ?thesis using u low assms(2) by (simp add: bit_iff_odd_unat)
  next
    case (high g)
    obtain q where "g = 2 ^ Suc k * q" using high(2) ..
    then have "unat a div 2 ^ k = 2 * q + 1" using high(1) by simp
    then have "odd (unat a div 2 ^ k)" by simp
    then have "a AND NOT (2 ^ k) = a - 2 ^ k" using u assms(2) by (simp add: bit_iff_odd_unat)
    moreover have "unat (a - 2 ^ k) = unat a - 2 ^ k"
      using high assms(2) by (subst unat_sub) (simp_all add: unat_le_iff)
    ultimately show ?thesis using high by simp
  qed
qed

section \<open>Allocation\<close>

lemma run_mono: "j \<le> k \<Longrightarrow> run f j \<subseteq> run f k"
  using power_increasing[of j k "2 :: nat"] by (auto simp: run_def)

lemma alloc_split_ok:
  assumes "pmm_core m p" "c \<le> MAX_ORDER" "2 ^ c dvd unat frame" "order \<le> c"
    and "unat frame + 2 ^ c \<le> unat (total_frames p)" "run (unat frame) c \<inter> dom (labels p) = {}"
  shows "\<exists>m' p'. alloc_split m p frame order c = Some (m', p') \<and> pmm_core m' p' \<and>
    dom (labels p') = dom (labels p) \<union> (run (unat frame) c - run (unat frame) order) \<and>
    same_frame p p' \<and>
    agree_off (link_words (hhdm_offset p) (dom (labels p) \<union> run (unat frame) c)) m m'"
  using assms
proof (induction c arbitrary: m p)
  case 0
  then show ?case by auto
next
  case (Suc c)
  let ?f = "unat frame" and ?h = "hhdm_offset p"
  show ?case
  proof (cases "order = Suc c")
    case True
    then show ?thesis using Suc.prems by auto
  next
    case False
    then have oc: "order \<le> c" using Suc.prems by simp
    have c: "c < 64" "c \<le> MAX_ORDER" using Suc.prems(2) by simp_all
    have d: "2 ^ c dvd ?f" using Suc.prems(3) by (rule power_le_dvd) simp
    have ft: "?f + 2 ^ c < 2 ^ 64"
      using Suc.prems(5) unat_lt64[of "total_frames p"] unfolding power_Suc by linarith
    let ?b = "frame + 2 ^ c"
    have b: "unat ?b = ?f + 2 ^ c" by (subst unat_add_lt) (use ft c in simp_all)
    have sub: "run (unat ?b) c \<subseteq> run ?f (Suc c)" "run ?f c \<subseteq> run ?f (Suc c)"
      by (auto simp: b run_split)
    obtain m1 p1 where p1: "list_push m p ?b c = Some (m1, p1)" "pmm_core m1 p1"
      "labels p1 = put_block (labels p) (unat ?b) c" "same_frame p p1"
      "agree_off (link_words ?h (dom (labels p1))) m m1"
    proof (rule list_push_ok[OF Suc.prems(1) c(2), of ?b])
      show "2 ^ c dvd unat ?b" using d by (simp add: b)
      show "unat ?b + 2 ^ c \<le> unat (total_frames p)" using Suc.prems(5) by (simp add: b)
      show "run (unat ?b) c \<inter> dom (labels p) = {}" using Suc.prems(6) sub by auto
      have "buddy_of (unat ?b) c = ?f" unfolding b by (rule buddy_of_low[OF Suc.prems(3)])
      moreover have "\<not> is_block (labels p) ?f c"
        using Suc.prems(6) is_block_dom[of "labels p" ?f c] run_start[of ?f c] sub by blast
      ultimately show "\<not> is_block (labels p) (buddy_of (unat ?b) c) c" by simp
    qed
    have same: "total_frames p1 = total_frames p" "hhdm_offset p1 = ?h"
      using p1(4) by (auto simp: same_frame_def)
    have "run ?f c \<inter> dom (labels p1) = {}"
      using Suc.prems(6) sub run_split_disjoint[of ?f c] by (auto simp: p1(3) b)
    then obtain m2 p2 where p2: "alloc_split m1 p1 frame order c = Some (m2, p2)" "pmm_core m2 p2"
      "dom (labels p2) = dom (labels p1) \<union> (run ?f c - run ?f order)" "same_frame p1 p2"
      "agree_off (link_words ?h (dom (labels p1) \<union> run ?f c)) m1 m2"
      using Suc.IH[OF p1(2) c(2) d oc] Suc.prems(5) by (auto simp: same)
    have "alloc_split m p frame order (Suc c) = Some (m2, p2)"
      using oc c ft by (simp add: p1(1) p2(1))
    moreover have "dom (labels p2) = dom (labels p) \<union> (run ?f (Suc c) - run ?f order)"
      using run_mono[OF oc, of ?f] run_split_disjoint[of ?f c]
      by (auto simp: p2(3) p1(3) b run_split)
    moreover have "agree_off (link_words ?h (dom (labels p) \<union> run ?f (Suc c))) m m2"
      by (rule agree_off_trans[OF p1(5) p2(5)]) (auto intro!: link_words_mono simp: p1(3) b run_split)
    ultimately show ?thesis using p2(2) same_frame_trans[OF p1(4) p2(4)] by blast
  qed
qed

text \<open>The result of a successful allocation of order \<open>order\<close> at frame \<open>f\<close>.\<close>

definition alloc_result :: "mem \<Rightarrow> Pmm \<Rightarrow> nat \<Rightarrow> nat \<Rightarrow> mem \<Rightarrow> Pmm \<Rightarrow> bool" where
  "alloc_result m p order f m' p' \<longleftrightarrow>
     pmm_inv m' p' \<and> 2 ^ order dvd f \<and> run f order \<subseteq> dom (labels p) \<and>
     dom (labels p') = dom (labels p) - run f order \<and>
     total_frames p' = total_frames p \<and> hhdm_offset p' = hhdm_offset p \<and>
     agree_off (link_words (hhdm_offset p) (dom (labels p))) m m'"

lemma alloc_take_ok:
  assumes inv: "pmm_inv m p" and blk: "is_block (labels p) (unat frame) c" and oc: "order \<le> c"
  shows "\<exists>m1 p1 m2 p2 ff. list_remove m p frame c = Some (m1, p1) \<and>
    alloc_split m1 p1 frame order c = Some (m2, p2) \<and> sub64 (free_frames p2) (2 ^ order) = Some ff \<and>
    alloc_result m p order (unat frame) m2 (p2\<lparr>free_frames := ff\<rparr>)"
proof -
  let ?f = "unat frame" and ?h = "hhdm_offset p"
  have core: "pmm_core m p" and ff: "unat (free_frames p) = card (dom (labels p))"
    using inv by (auto simp: pmm_inv_def)
  note r = block_in_range[OF core blk]
  have dc: "2 ^ c dvd ?f" using blk by (simp add: is_block_def)
  obtain m1 p1 where p1: "list_remove m p frame c = Some (m1, p1)" "pmm_core m1 p1"
    "labels p1 = take_block (labels p) ?f c" "same_frame p p1"
    "agree_off (link_words ?h (dom (labels p))) m m1"
    by (rule list_remove_ok[OF core blk])
  have same: "total_frames p1 = total_frames p" "hhdm_offset p1 = ?h" "free_frames p1 = free_frames p"
    using p1(4) by (auto simp: same_frame_def)
  have "run ?f c \<inter> dom (labels p1) = {}" by (auto simp: p1(3))
  then obtain m2 p2 where p2: "alloc_split m1 p1 frame order c = Some (m2, p2)" "pmm_core m2 p2"
    "dom (labels p2) = dom (labels p1) \<union> (run ?f c - run ?f order)" "same_frame p1 p2"
    "agree_off (link_words ?h (dom (labels p1) \<union> run ?f c)) m1 m2"
    using alloc_split_ok[OF p1(2) r(3) dc oc] r by (auto simp: same)
  have bd: "run ?f c \<subseteq> dom (labels p)" by (rule is_block_dom[OF blk])
  then have sub: "run ?f order \<subseteq> dom (labels p)" using run_mono[OF oc, of ?f] by blast
  have dom2: "dom (labels p2) = dom (labels p) - run ?f order"
    using bd run_mono[OF oc, of ?f] by (auto simp: p2(3) p1(3))
  have o64: "order < 64" using oc r(3) by simp
  have le: "2 ^ order \<le> card (dom (labels p))"
    using card_mono[OF finite_dom_labels sub] by simp
  have same2: "total_frames p2 = total_frames p" "hhdm_offset p2 = ?h" "free_frames p2 = free_frames p"
    using p2(4) same by (auto simp: same_frame_def)
  have "(2 :: u64) ^ order \<le> free_frames p" using le ff o64 by (simp add: unat_le_iff)
  then have sb: "sub64 (free_frames p2) (2 ^ order) = Some (free_frames p - 2 ^ order)"
    by (simp add: same2)
  have "card (dom (labels p2)) = card (dom (labels p)) - 2 ^ order"
    using card_Diff_subset[OF finite_run sub] by (simp add: dom2)
  moreover have "unat (free_frames p - 2 ^ order) = unat (free_frames p) - 2 ^ order"
    using o64 \<open>2 ^ order \<le> free_frames p\<close> by (simp add: unat_sub)
  ultimately have "pmm_inv m2 (p2\<lparr>free_frames := free_frames p - 2 ^ order\<rparr>)"
    using p2(2) ff by (simp add: pmm_inv_def)
  moreover have "agree_off (link_words ?h (dom (labels p))) m m2"
    by (rule agree_off_trans[OF p1(5) p2(5)]) (use bd in \<open>auto intro!: link_words_mono simp: p1(3)\<close>)
  moreover have "2 ^ order dvd ?f" using dc oc by (rule power_le_dvd)
  ultimately show ?thesis using p1(1) p2(1) sb sub dom2 same2 by (auto simp: alloc_result_def)
qed

lemma free_list_empty_iff:
  assumes "pmm_core m p" "k \<le> MAX_ORDER"
  shows "free_lists p ! k = None \<longleftrightarrow> (\<forall>f. \<not> is_block (labels p) f k)"
proof -
  obtain fs where "free_list m p k fs" using assms by (auto simp: pmm_core_def)
  then show ?thesis by (cases fs) (auto simp: free_list_def)
qed

lemma free_list_head:
  assumes "pmm_core m p" "k \<le> MAX_ORDER" "free_lists p ! k = Some a"
  obtains frame where "is_block (labels p) (unat frame) k" "block_to_frame p a = Some frame"
proof -
  obtain fs where fs: "free_list m p k fs" using assms by (auto simp: pmm_core_def)
  with assms(3) obtain f rest where f: "fs = f # rest" "a = fptr (hhdm_offset p) f"
    by (cases fs) (auto simp: free_list_def)
  with fs have blk: "is_block (labels p) f k" by (auto simp: free_list_def)
  note r = block_in_range[OF assms(1) blk]
  have "unat (word_of_nat f :: u64) = f"
    using r(2) unat_lt64[of "total_frames p"] by (intro unat_of_nat64) linarith
  with blk block_to_frame_ok[OF pmm_core_simps(3)[OF assms(1)] r(2)] f(2) show thesis
    by (intro that[of "word_of_nat f"]) simp_all
qed

declare alloc_search.simps [simp del]

lemma alloc_search_ok:
  assumes "pmm_inv m p" "order \<le> c"
  shows "(\<exists>frame m' p'. alloc_search m p order c = Some (Some (push_bit FRAME_SHIFT frame), m', p')
            \<and> alloc_result m p order (unat frame) m' p') \<or>
    alloc_search m p order c = Some (None, m, p) \<and>
      (\<forall>f k. c \<le> k \<longrightarrow> \<not> is_block (labels p) f k)"
  using assms
proof (induction m p order c rule: alloc_search.induct)
  case (1 m p order c)
  have core: "pmm_core m p" using 1 by (simp add: pmm_inv_def)
  show ?case
  proof (cases "c \<le> MAX_ORDER")
    case False
    then show ?thesis using block_in_range(3)[OF core]
      by (subst alloc_search.simps) force
  next
    case c: True
    then have i: "idx (free_lists p) c = Some (free_lists p ! c)"
      using pmm_core_simps(1)[OF core] by simp
    show ?thesis
    proof (cases "free_lists p ! c")
      case None
      have "alloc_search m p order c = alloc_search m p order (c + 1)"
        using c i None by (subst alloc_search.simps) simp
      moreover have "\<And>f. \<not> is_block (labels p) f c"
        using free_list_empty_iff[OF core c] None by blast
      then have "(\<forall>f k. c + 1 \<le> k \<longrightarrow> \<not> is_block (labels p) f k) \<Longrightarrow>
          (\<forall>f k. c \<le> k \<longrightarrow> \<not> is_block (labels p) f k)"
        by (metis Suc_eq_plus1 le_neq_implies_less Suc_leI)
      ultimately show ?thesis using "1.IH"[OF c i None "1.prems"(1)] "1.prems"(2) by auto
    next
      case (Some a)
      obtain frame where fr: "is_block (labels p) (unat frame) c" "block_to_frame p a = Some frame"
        by (rule free_list_head[OF core c Some])
      have o64: "order < 64" using "1.prems"(2) c by simp
      from alloc_take_ok[OF "1.prems"(1) fr(1) "1.prems"(2)] obtain m1 p1 m2 p2 ff where
        "list_remove m p frame c = Some (m1, p1)" "alloc_split m1 p1 frame order c = Some (m2, p2)"
        "sub64 (free_frames p2) (2 ^ order) = Some ff"
        and res: "alloc_result m p order (unat frame) m2 (p2\<lparr>free_frames := ff\<rparr>)" by blast
      then have "alloc_search m p order c =
          Some (Some (push_bit FRAME_SHIFT frame), m2, p2\<lparr>free_frames := ff\<rparr>)"
        using c i Some fr(2) o64 by (subst alloc_search.simps) simp
      with res show ?thesis by blast
    qed
  qed
qed

lemma alloc_pages_ok:
  assumes "pmm_inv m p" "order \<le> MAX_ORDER"
  shows "(\<exists>frame m' p'. alloc_pages m p order = Some (Some (push_bit FRAME_SHIFT frame), m', p')
            \<and> alloc_result m p order (unat frame) m' p') \<or>
    alloc_pages m p order = Some (None, m, p) \<and>
      (\<forall>f k. order \<le> k \<longrightarrow> \<not> is_block (labels p) f k)"
  using alloc_search_ok[OF assms(1) order_refl] assms(2) by (simp add: alloc_pages_def)

section \<open>Release\<close>

lemma free_merge_ok:
  assumes "pmm_core m p" "k \<le> MAX_ORDER" "2 ^ k dvd unat frame"
    and "unat frame + 2 ^ k \<le> unat (total_frames p)" "run (unat frame) k \<inter> dom (labels p) = {}"
  shows "\<exists>m' p' frame' k'. free_merge m p frame k = Some (m', p', frame', k') \<and> pmm_core m' p' \<and>
    k' \<le> MAX_ORDER \<and> 2 ^ k' dvd unat frame' \<and> unat frame' + 2 ^ k' \<le> unat (total_frames p) \<and>
    run (unat frame') k' \<inter> dom (labels p') = {} \<and>
    (k' < MAX_ORDER \<longrightarrow> \<not> is_block (labels p') (buddy_of (unat frame') k') k') \<and>
    dom (labels p') \<union> run (unat frame') k' = dom (labels p) \<union> run (unat frame) k \<and>
    same_frame p p' \<and> agree_off (link_words (hhdm_offset p) (dom (labels p))) m m'"
  using assms
proof (induction m p frame k rule: free_merge.induct)
  case (1 m p frame k)
  let ?f = "unat frame" and ?L = "labels p"
  note c = pmm_core_simps[OF "1.prems"(1)]
  show ?case
  proof (cases "k < MAX_ORDER")
    case False
    then show ?thesis using "1.prems" by (subst free_merge.simps) auto
  next
    case k: True
    then have k64: "k < 64" by simp
    let ?b = "frame XOR 2 ^ k"
    have "?f + 2 ^ k < 2 ^ 64" using "1.prems"(4) unat_lt64[of "total_frames p"] by linarith
    then have b: "unat ?b = buddy_of ?f k" using "1.prems"(3) k64 by (intro unat_xor_buddy)
    define stop where "stop \<longleftrightarrow> \<not> is_block ?L (buddy_of ?f k) k"
    have bd: "2 ^ k dvd buddy_of ?f k" by (rule buddy_dvd[OF "1.prems"(3)])
    have lab: "frame_order p ! unat ?b = word_of_nat k \<longleftrightarrow> \<not> stop" if "unat ?b < unat (total_frames p)"
    proof
      assume "frame_order p ! unat ?b = word_of_nat k"
      then have "?L (buddy_of ?f k) = Some k"
        using that order_u8[of k] k b c(2) by (simp add: labels_def)
      then show "\<not> stop" unfolding stop_def using wf_block_start[OF c(5) bd] by simp
    next
      assume "\<not> stop"
      then have "?L (buddy_of ?f k) = Some k" unfolding stop_def using is_block_start by blast
      then have "unat (frame_order p ! unat ?b) = k" by (auto simp: labels_def b split: if_splits)
      then show "frame_order p ! unat ?b = word_of_nat k" using order_u8(2)[of k] k by (simp add: word_unat_eq_iff)
    qed
    have in_range: "\<not> stop \<Longrightarrow> unat ?b < unat (total_frames p)"
      unfolding stop_def b using block_in_range(2)[OF "1.prems"(1)] by blast
    have st: "(if total_frames p \<le> ?b then Some True
        else do { v \<leftarrow> idx (frame_order p) (unat ?b); Some (v \<noteq> word_of_nat k) }) = Some stop"
      using lab in_range c(2) by (cases stop) (auto simp: unat_le_iff)
    show ?thesis
    proof (cases stop)
      case True
      then have "free_merge m p frame k = Some (m, p, frame, k)"
        using k k64 st by (subst free_merge.simps) (simp add: Let_def)
      then show ?thesis using True "1.prems" by (auto simp: stop_def)
    next
      case False
      then have blk: "is_block ?L (unat ?b) k" by (simp add: stop_def b)
      obtain m1 p1 where p1: "list_remove m p ?b k = Some (m1, p1)" "pmm_core m1 p1"
        "labels p1 = take_block ?L (unat ?b) k" "same_frame p p1"
        "agree_off (link_words (hhdm_offset p) (dom ?L)) m m1"
        by (rule list_remove_ok[OF "1.prems"(1) blk])
      have same: "total_frames p1 = total_frames p" "hhdm_offset p1 = hhdm_offset p"
        using p1(4) by (auto simp: same_frame_def)
      let ?g = "frame AND NOT (2 ^ k)"
      have g: "unat ?g = align_to ?f (Suc k)" by (rule unat_and_not_buddy[OF "1.prems"(3) k64])
      have step: "free_merge m p frame k = free_merge m1 p1 ?g (k + 1)"
        using k k64 st False p1(1) by (subst free_merge.simps) (simp add: Let_def)
      note rb = run_buddy[OF "1.prems"(3)]
      have top: "unat ?g + 2 ^ Suc k \<le> unat (total_frames p)"
      proof -
        have fb: "?f + 2 ^ k \<le> unat (total_frames p)" "buddy_of ?f k + 2 ^ k \<le> unat (total_frames p)"
          using "1.prems"(4) block_in_range(1)[OF "1.prems"(1) blk] by (auto simp: b)
        from "1.prems"(3) show ?thesis unfolding g
          by (cases rule: buddy_cases) (use fb in auto)
      qed
      have disj: "run (unat ?g) (Suc k) \<inter> dom (labels p1) = {}"
        using rb "1.prems"(5) by (auto simp: g p1(3) b)
      obtain m' p' frame' k' where IH: "free_merge m1 p1 ?g (k + 1) = Some (m', p', frame', k')"
        "pmm_core m' p'" "k' \<le> MAX_ORDER" "2 ^ k' dvd unat frame'"
        "unat frame' + 2 ^ k' \<le> unat (total_frames p)" "run (unat frame') k' \<inter> dom (labels p') = {}"
        "k' < MAX_ORDER \<longrightarrow> \<not> is_block (labels p') (buddy_of (unat frame') k') k'"
        "dom (labels p') \<union> run (unat frame') k' = dom (labels p1) \<union> run (unat ?g) (Suc k)"
        "same_frame p1 p'" "agree_off (link_words (hhdm_offset p) (dom (labels p1))) m1 m'"
      proof -
        have sh: "shl64 1 k = Some (2 ^ k)" using k64 by simp
        have "k + 1 \<le> MAX_ORDER" "2 ^ (k + 1) dvd unat ?g"
          "unat ?g + 2 ^ (k + 1) \<le> unat (total_frames p1)"
          "run (unat ?g) (k + 1) \<inter> dom (labels p1) = {}"
          using k top disj align_to_dvd[of "k + 1" ?f] by (simp_all add: same g)
        from "1.IH"[OF k sh refl st False p1(1) refl p1(2) this] show thesis
          using that unfolding same Suc_eq_plus1 by blast
      qed
      have "dom (labels p1) \<union> run (unat ?g) (Suc k) = dom ?L \<union> run ?f k"
        using rb is_block_dom[OF blk] by (auto simp: g p1(3) b)
      moreover have "agree_off (link_words (hhdm_offset p) (dom ?L)) m m'"
        by (rule agree_off_trans[OF p1(5) IH(10)]) (auto intro!: link_words_mono simp: p1(3))
      ultimately show ?thesis using IH step same_frame_trans[OF p1(4) IH(9)] by auto
    qed
  qed
qed

text \<open>The arguments \<open>free_pages\<close> accepts, and the result of a release.\<close>

definition free_legal :: "Pmm \<Rightarrow> u64 \<Rightarrow> nat \<Rightarrow> bool" where
  "free_legal p addr order \<longleftrightarrow> order \<le> MAX_ORDER \<and> 4096 dvd unat addr \<and>
     unat addr div 4096 + 2 ^ order \<le> unat (total_frames p) \<and> 2 ^ order dvd unat addr div 4096 \<and>
     run (unat addr div 4096) order \<inter> dom (labels p) = {}"

definition free_result :: "mem \<Rightarrow> Pmm \<Rightarrow> nat set \<Rightarrow> mem \<Rightarrow> Pmm \<Rightarrow> bool" where
  "free_result m p S m' p' \<longleftrightarrow>
     pmm_inv m' p' \<and> dom (labels p') = dom (labels p) \<union> S \<and>
     total_frames p' = total_frames p \<and> hhdm_offset p' = hhdm_offset p \<and>
     agree_off (link_words (hhdm_offset p) (dom (labels p'))) m m'"

lemma frame_index_eq:
  "frame_index addr = (if 4096 dvd unat addr then Some (drop_bit 12 addr) else None)"
  using is_multiple_of_pow2[of 12 addr] by (simp add: frame_index_def)

lemma free_pages_ok:
  assumes inv: "pmm_inv m p" and legal: "free_legal p addr order"
  shows "\<exists>m' p'. free_pages m p addr order = Some (m', p') \<and>
    free_result m p (run (unat addr div 4096) order) m' p'"
proof -
  let ?fr = "drop_bit 12 addr :: u64" and ?h = "hhdm_offset p"
  have core: "pmm_core m p" and ff: "unat (free_frames p) = card (dom (labels p))"
    using inv by (auto simp: pmm_inv_def)
  note c = pmm_core_simps[OF core]
  have f: "unat ?fr = unat addr div 4096" by (simp add: unat_drop_bit64)
  note l = legal[unfolded free_legal_def, folded f]
  have o64: "order < 64" using l by simp
  have lt: "unat ?fr + 2 ^ order < 2 ^ 64" using l unat_lt64[of "total_frames p"] by linarith
  have ltn: "unat ?fr < unat (total_frames p)" using l zero_less_power[of "2::nat" order] by linarith
  have sum: "unat (?fr + 2 ^ order) = unat ?fr + 2 ^ order" by (subst unat_add_lt) (use lt o64 in simp_all)
  have un: "\<forall>j\<in>run (unat ?fr) order. frame_order p ! j = ORDER_NONE"
    using l c by (subst unused_run) auto
  have un1: "frame_order p ! unat ?fr = ORDER_NONE" using un run_start by blast
  have abu: "assert_block_unused p ?fr order = Some ()"
    using assert_block_unused_ok[of ?fr order p] l c un o64 by simp
  have "card (dom (labels p) \<union> run (unat ?fr) order) = card (dom (labels p)) + 2 ^ order"
    using l by (subst card_Un_disjoint) auto
  moreover have "dom (labels p) \<union> run (unat ?fr) order \<subseteq> {..<unat (total_frames p)}"
    using dom_labels_bound[of p] l c by (auto simp: mem_run)
  then have "card (dom (labels p) \<union> run (unat ?fr) order) \<le> unat (total_frames p)"
    using card_mono by (metis card_lessThan finite_lessThan)
  ultimately have bound: "unat (free_frames p) + 2 ^ order < 2 ^ 64"
    and cardU: "card (dom (labels p) \<union> run (unat ?fr) order) = unat (free_frames p) + 2 ^ order"
    using ff unat_lt64[of "total_frames p"] by linarith+
  define ff' where "ff' = free_frames p + 2 ^ order"
  have add: "add64 (free_frames p) (2 ^ order) = Some ff'" "unat ff' = unat (free_frames p) + 2 ^ order"
    using bound o64 unat_add_lt[of "free_frames p" "2 ^ order"] by (simp_all add: ff'_def)
  let ?p = "p\<lparr>free_frames := ff'\<rparr>"
  obtain m1 p1 fr1 k1 where mg: "free_merge m ?p ?fr order = Some (m1, p1, fr1, k1)" "pmm_core m1 p1"
    "k1 \<le> MAX_ORDER" "2 ^ k1 dvd unat fr1" "unat fr1 + 2 ^ k1 \<le> unat (total_frames p)"
    "run (unat fr1) k1 \<inter> dom (labels p1) = {}"
    "k1 < MAX_ORDER \<Longrightarrow> \<not> is_block (labels p1) (buddy_of (unat fr1) k1) k1"
    "dom (labels p1) \<union> run (unat fr1) k1 = dom (labels p) \<union> run (unat ?fr) order"
    "same_frame ?p p1" "agree_off (link_words ?h (dom (labels p))) m m1"
    using free_merge_ok[of m ?p order ?fr] core l by auto
  have same: "total_frames p1 = total_frames p" "hhdm_offset p1 = ?h" "free_frames p1 = ff'"
    using mg(9) by (auto simp: same_frame_def)
  obtain m2 p2 where p2: "list_push m1 p1 fr1 k1 = Some (m2, p2)" "pmm_core m2 p2"
    "labels p2 = put_block (labels p1) (unat fr1) k1" "same_frame p1 p2"
    "agree_off (link_words ?h (dom (labels p2))) m1 m2"
    using list_push_ok[OF mg(2,3,4) _ mg(6,7)] mg(5) by (metis same)
  have dom2: "dom (labels p2) = dom (labels p) \<union> run (unat ?fr) order" by (simp add: p2(3) mg(8))
  have "free_pages m p addr order = Some (m2, p2)"
    using l o64 lt ltn sum un1 abu add(1) mg(1) p2(1) c(2)
    by (simp add: free_pages_def frame_index_eq unat_le_iff)
  moreover have "pmm_inv m2 p2"
    using p2(2,4) same add(2) cardU by (simp add: pmm_inv_def dom2 same_frame_def)
  moreover have "agree_off (link_words ?h (dom (labels p2))) m m2"
    by (rule agree_off_trans[OF mg(10) p2(5)]) (auto intro!: link_words_mono simp: dom2)
  ultimately show ?thesis using dom2 p2(4) same f by (auto simp: free_result_def same_frame_def)
qed

lemma free_pages_panic:
  assumes core: "pmm_core m p" and illegal: "\<not> free_legal p addr order"
  shows "free_pages m p addr order = None"
proof (rule ccontr)
  let ?fr = "drop_bit 12 addr :: u64"
  assume "free_pages m p addr order \<noteq> None"
  then have o: "order \<le> MAX_ORDER" and a: "4096 dvd unat addr"
    by (auto simp: free_pages_def frame_index_eq split: if_splits)
  have o64: "order < 64" using o by simp
  have f: "unat ?fr = unat addr div 4096" by (simp add: unat_drop_bit64)
  from \<open>free_pages m p addr order \<noteq> None\<close> o a o64 obtain e where
    e: "add64 ?fr (2 ^ order) = Some e" "e \<le> total_frames p" "2 ^ order dvd unat ?fr"
      "assert_block_unused p ?fr order = Some ()"
    by (auto simp: free_pages_def frame_index_eq Option.bind_eq_Some_conv split: if_splits)
  have "unat ?fr + 2 ^ order \<le> unat (total_frames p)"
    using unat_add64[OF e(1)] e(2) o64 by (simp add: unat_le_iff)
  moreover from this have "run (unat ?fr) order \<inter> dom (labels p) = {}"
    using e(4) assert_block_unused_ok[of ?fr order p] unused_run[of "unat ?fr" order p]
      pmm_core_simps[OF core] o64 by simp
  ultimately show False using illegal o a e(3) by (simp add: free_legal_def f)
qed

section \<open>Adding a range\<close>

lemma range_order_props:
  assumes "count > 0"
  shows "range_order start count \<le> MAX_ORDER" "2 ^ range_order start count dvd unat start"
    "2 ^ range_order start count \<le> unat count"
proof -
  let ?o = "range_order start count"
  show "?o \<le> MAX_ORDER" by (simp add: range_order_def Let_def)
  have "start \<noteq> 0 \<Longrightarrow> ?o \<le> trailing_zeros start" by (simp add: range_order_def Let_def)
  then show "2 ^ ?o dvd unat start"
    using trailing_zeros_dvd[of start] by (cases "start = 0") (auto intro: power_le_dvd)
  have "?o \<le> 63 - leading_zeros count" by (simp add: range_order_def Let_def)
  then have "2 ^ ?o \<le> (2 :: nat) ^ (63 - leading_zeros count)" by (intro power_increasing) simp_all
  moreover have "count \<noteq> 0" using assms by (simp add: word_gt_0)
  ultimately show "2 ^ ?o \<le> unat count" using leading_zeros_le(1) order_trans by blast
qed

lemma free_result_trans:
  assumes "free_result m p S m1 p1" "free_result m1 p1 T m2 p2"
  shows "free_result m p (S \<union> T) m2 p2"
proof -
  have d: "dom (labels p1) \<subseteq> dom (labels p2)" using assms by (auto simp: free_result_def)
  have "agree_off (link_words (hhdm_offset p) (dom (labels p1))) m m1"
    "agree_off (link_words (hhdm_offset p) (dom (labels p2))) m1 m2"
    using assms unfolding free_result_def by (metis, metis)
  then have "agree_off (link_words (hhdm_offset p) (dom (labels p2))) m m2"
    using link_words_mono[OF d] by (rule agree_off_trans) simp
  then show ?thesis using assms by (auto simp: free_result_def)
qed

lemma free_result_refl [simp]: "pmm_inv m p \<Longrightarrow> free_result m p {} m p"
  by (simp add: free_result_def)

text \<open>A range may be added when all its frames exist and none of them is free already.\<close>

definition range_legal :: "Pmm \<Rightarrow> nat \<Rightarrow> nat \<Rightarrow> bool" where
  "range_legal p s c \<longleftrightarrow> {s..<s + c} \<subseteq> {..<unat (total_frames p)} - dom (labels p)"

lemma free_legal_run:
  assumes "unat start < 2 ^ 52" "k \<le> MAX_ORDER" "2 ^ k dvd unat start"
  shows "free_legal p (push_bit FRAME_SHIFT start) k \<longleftrightarrow> range_legal p (unat start) (2 ^ k)"
    and "unat (push_bit FRAME_SHIFT start) div 4096 = unat start"
proof -
  have u: "unat (push_bit 12 start) = unat start * 4096" using assms(1) by (subst unat_push_bit64) simp_all
  then show "unat (push_bit FRAME_SHIFT start) div 4096 = unat start" by simp
  have "{unat start..<unat start + 2 ^ k} \<subseteq> {..<unat (total_frames p)} \<longleftrightarrow>
      unat start + 2 ^ k \<le> unat (total_frames p)"
    by (simp add: lessThan_atLeast0 atLeastLessThan_subset_iff)
  then show "free_legal p (push_bit FRAME_SHIFT start) k \<longleftrightarrow> range_legal p (unat start) (2 ^ k)"
    using assms u by (auto simp: free_legal_def range_legal_def run_def)
qed

declare add_range.simps [simp del]

lemma add_range_ok:
  assumes "pmm_inv m p" "unat start + unat count \<le> 2 ^ 52"
  shows "if range_legal p (unat start) (unat count)
    then \<exists>m' p'. add_range m p start count = Some (m', p') \<and>
      free_result m p {unat start..<unat start + unat count} m' p'
    else add_range m p start count = None"
  using assms
proof (induction m p start count rule: add_range.induct)
  case (1 m p start count)
  let ?s = "unat start" and ?c = "unat count"
  show ?case
  proof (cases "count > 0")
    case False
    then have "count = 0" by (simp add: word_gt_0)
    then show ?thesis using "1.prems" by (subst add_range.simps) (simp add: range_legal_def)
  next
    case pos: True
    define k where "k = range_order start count"
    note k = range_order_props[OF pos, of start, folded k_def]
    have k64: "k < 64" using k(1) by simp
    have s52: "?s < 2 ^ 52" using "1.prems"(2) k(3) zero_less_power[of "2 :: nat" k] by linarith
    note fl = free_legal_run[OF s52 k(1,2)]
    let ?s' = "start + 2 ^ k" and ?c' = "count - 2 ^ k"
    have s': "unat ?s' = ?s + 2 ^ k" "add64 start (2 ^ k) = Some ?s'"
      using "1.prems"(2) k(3) k64 unat_add_lt[of start "2 ^ k"] by simp_all
    have le: "2 ^ k \<le> count" using k(3) k64 by (simp add: unat_le_iff)
    then have c': "unat ?c' = ?c - 2 ^ k" "sub64 count (2 ^ k) = Some ?c'"
      using k64 by (simp_all add: unat_sub)
    have split: "{?s..<?s + ?c} = {?s..<?s + 2 ^ k} \<union> {unat ?s'..<unat ?s' + unat ?c'}"
      using k(3) by (auto simp: s' c')
    show ?thesis
    proof (cases "range_legal p ?s (2 ^ k)")
      case False
      then have "\<not> free_legal p (push_bit FRAME_SHIFT start) k" using fl(1) by blast
      then have "free_pages m p (push_bit FRAME_SHIFT start) k = None"
        using free_pages_panic "1.prems"(1) by (simp add: pmm_inv_def del: FRAME_SHIFT_def)
      then have "add_range m p start count = None"
        using pos by (subst add_range.simps) (simp add: Let_def flip: k_def)
      moreover have "\<not> range_legal p ?s ?c" using False split by (auto simp: range_legal_def)
      ultimately show ?thesis by simp
    next
      case True
      then obtain m1 p1 where p1: "free_pages m p (push_bit FRAME_SHIFT start) k = Some (m1, p1)"
        "free_result m p (run ?s k) m1 p1"
        using free_pages_ok[OF "1.prems"(1)] fl by metis
      have "add_range m p start count = add_range m1 p1 ?s' ?c'"
        using pos p1(1) s'(2) c'(2) k64 by (subst add_range.simps) (simp add: Let_def flip: k_def)
      moreover have "range_legal p1 (unat ?s') (unat ?c') \<longleftrightarrow> range_legal p ?s ?c"
        using True p1(2) s'(1) by (auto simp: range_legal_def split free_result_def run_def)
      moreover have "unat ?s' + unat ?c' \<le> 2 ^ 52" using "1.prems"(2) k(3) by (simp add: s' c')
      moreover have "pmm_inv m1 p1" using p1(2) by (simp add: free_result_def)
      ultimately show ?thesis
        using "1.IH"[OF pos k_def p1(1) refl shl64_Some[OF k64] s'(2)[folded push_bit_of_1]
            c'(2)[folded push_bit_of_1]]
          free_result_trans[OF p1(2)]
        by (auto simp: split run_def split: if_splits)
    qed
  qed
qed

end
