(* ===== verification/Pmm_Props.thy ===== *)
theory Pmm_Props
  imports Pmm_Correct Frame_Interface
begin

text \<open>
  The physical allocator provides the contract \<open>page_allocator\<close>; the properties of
  kernel/src/mm/pmm.rs.
\<close>

section \<open>The allocator meets its contract\<close>

lemma alloc_result_bound:
  fixes frame :: u64
  assumes "pmm_core m p" "run (unat frame) k \<subseteq> dom (labels p)"
  shows "unat (push_bit FRAME_SHIFT frame) = unat frame * 4096"
proof -
  have "unat frame \<in> dom (labels p)" using assms(2) run_start by blast
  then have "unat frame < 2 ^ 52"
    using dom_labels_bound[of p] pmm_core_simps(2)[OF assms(1)] pmm_total_bound[OF assms(1)] by auto
  then show ?thesis using unat_push_bit64[of frame 12] by simp
qed

lemma no_block_no_run:
  assumes "pmm_core m p" "order \<le> MAX_ORDER" "\<forall>f k. order \<le> k \<longrightarrow> \<not> is_block (labels p) f k"
    and "2 ^ order dvd f"
  shows "\<not> run f order \<subseteq> dom (labels p)"
proof
  assume "run f order \<subseteq> dom (labels p)"
  note c = pmm_core_simps[OF assms(1)]
  obtain i j where "order \<le> j" "labels p i = Some j"
    using coalesced_complete[OF c(5,6) assms(2,4) \<open>run f order \<subseteq> _\<close>] by blast
  with assms(3) wf_block[OF c(5)] show False by blast
qed

lemma alloc_pages_refused:
  assumes "pmm_inv m p" "order \<le> MAX_ORDER" "alloc_pages m p order = Some (None, s')"
  shows "s' = (m, p) \<and> (\<forall>f. 2 ^ order dvd f \<longrightarrow> \<not> run f order \<subseteq> dom (labels p))"
  using alloc_pages_ok[OF assms(1,2)] assms no_block_no_run[of m p order] by (auto simp: pmm_inv_def)

lemma alloc_pages_granted:
  assumes "pmm_inv m p" "order \<le> MAX_ORDER" "alloc_pages m p order = Some (Some a, m', p')"
  shows "alloc_result m p order (frame_of a) m' p'" "4096 dvd unat a"
proof -
  obtain frame where fr: "a = push_bit FRAME_SHIFT frame" "alloc_result m p order (unat frame) m' p'"
    using alloc_pages_ok[OF assms(1,2)] assms(3) by auto
  have u: "unat a = unat frame * 4096"
    using alloc_result_bound[of m p frame order] fr assms(1) by (simp add: alloc_result_def pmm_inv_def)
  then show "alloc_result m p order (frame_of a) m' p'" "4096 dvd unat a"
    using fr(2) by (simp_all add: frame_of_def)
qed

interpretation buddy_alloc: page_allocator
  "\<lambda>(m, p) k. alloc_pages m p k" "\<lambda>(m, p) a k. free_pages m p a k" "\<lambda>(m, p). pmm_inv m p"
  "\<lambda>(m, p). {..<unat (total_frames p)}" "\<lambda>(m, p). dom (labels p)" MAX_ORDER
proof (unfold_locales, goal_cases)
  case (1 s k)
  then show ?case using alloc_pages_ok[of "fst s" "snd s" k] by (auto simp: split_beta)
next
  case (2 s k s')
  then show ?case using alloc_pages_refused[of "fst s" "snd s" k s'] by (auto simp: split_beta)
next
  case (3 s k a s')
  then show ?case using alloc_pages_granted[of "fst s" "snd s" k a "fst s'" "snd s'"]
    by (auto simp: split_beta alloc_result_def)
next
  case (4 s k a)
  have "run (frame_of a) k \<subseteq> {0..<unat (total_frames (snd s))}" using 4(5) by (auto simp: split_beta)
  then have "frame_of a + 2 ^ k \<le> unat (total_frames (snd s))"
    by (simp add: run_def atLeastLessThan_subset_iff)
  then have "free_legal (snd s) a k"
    using 4 by (auto simp: free_legal_def frame_of_def split_beta)
  then show ?case using free_pages_ok[of "fst s" "snd s" a k] 4(1)
    by (auto simp: split_beta free_result_def frame_of_def)
next
  case (5 s)
  then show ?case using dom_labels_bound[of "snd s"] by (auto simp: split_beta pmm_inv_def pmm_core_simps)
qed

text \<open>The same contract, and the one on memory, for the functions on the global \<open>PMM\<close>.\<close>

definition pmm_ok :: "'a kernel_scheme \<Rightarrow> bool" where
  "pmm_ok s \<longleftrightarrow> (\<exists>p. PMM s = Some p \<and> pmm_inv (kmem s) p)"

definition pmm_avail :: "'a kernel_scheme \<Rightarrow> nat set" where
  "pmm_avail s = dom (labels (the (PMM s)))"

definition pmm_total :: "'a kernel_scheme \<Rightarrow> nat" where
  "pmm_total s = unat (total_frames (the (PMM s)))"

definition pmm_hhdm :: "'a kernel_scheme \<Rightarrow> u64" where
  "pmm_hhdm s = hhdm_offset (the (PMM s))"

lemmas pmm_view_defs = pmm_ok_def pmm_avail_def pmm_total_def pmm_hhdm_def

lemma pmm_inv_write:
  assumes "pmm_inv m p" "\<forall>a\<in>link_words (hhdm_offset p) (dom (labels p)). m' a = m a"
  shows "pmm_inv m' p"
proof -
  have "free_list m' p k fs" if "free_list m p k fs" for k fs
  proof -
    have "set fs \<subseteq> dom (labels p)" using that is_block_start by (fastforce simp: free_list_def)
    then have "\<forall>a\<in>link_words (hhdm_offset p) (set fs). m' a = m a"
      using assms(2) link_words_mono by blast
    from dll_same[OF this] have "dll m' (hhdm_offset p) None fs None"
      using that by (simp add: free_list_def)
    with that show ?thesis by (simp add: free_list_def)
  qed
  with assms(1) show ?thesis unfolding pmm_inv_def pmm_core_def by blast
qed

lemma pmm_alloc_pages_eq:
  assumes "PMM s = Some p"
  shows "pmm_alloc_pages k s =
    map_option (\<lambda>(r, m, p). (r, s\<lparr>kmem := m, PMM := Some p\<rparr>)) (alloc_pages (kmem s) p k)"
    "pmm_free_pages a k s = map_option (\<lambda>(m, p). s\<lparr>kmem := m, PMM := Some p\<rparr>) (free_pages (kmem s) p a k)"
  using assms by (auto simp: pmm_alloc_pages_def pmm_free_pages_def map_conv_bind_option
      intro!: Option.bind_cong)

lemma pmm_alloc_pagesE:
  assumes "pmm_ok s" "pmm_alloc_pages k s = Some (r, s')"
  obtains p m' p' where "PMM s = Some p" "pmm_inv (kmem s) p" "alloc_pages (kmem s) p k = Some (r, m', p')"
    "s' = s\<lparr>kmem := m', PMM := Some p'\<rparr>"
  using assms by (auto simp: pmm_ok_def pmm_alloc_pages_eq)

lemma pmm_free_pagesE:
  assumes "pmm_ok s" "pmm_free_pages a k s = Some s'"
  obtains p m' p' where "PMM s = Some p" "pmm_inv (kmem s) p" "free_pages (kmem s) p a k = Some (m', p')"
    "s' = s\<lparr>kmem := m', PMM := Some p'\<rparr>"
  using assms by (auto simp: pmm_ok_def pmm_alloc_pages_eq)

interpretation pmm_pages: page_memory "\<lambda>s k. pmm_alloc_pages k s" "\<lambda>s a k. pmm_free_pages a k s" pmm_ok
  "\<lambda>s. {..<pmm_total s}" pmm_avail MAX_ORDER pmm_total pmm_hhdm
proof (unfold_locales, goal_cases)
  case (1 s k)
  then show ?case using buddy_alloc.alloc_total[of "(kmem s, the (PMM s))" k]
    by (auto simp: pmm_ok_def pmm_alloc_pages_eq)
next
  case (2 s k s')
  then show ?case
    using alloc_pages_refused by (elim pmm_alloc_pagesE) (fastforce simp: pmm_avail_def)+
next
  case (3 s k a s')
  from 3(1,3) obtain p m' p' where e: "PMM s = Some p" "pmm_inv (kmem s) p"
    "alloc_pages (kmem s) p k = Some (Some a, m', p')" "s' = s\<lparr>kmem := m', PMM := Some p'\<rparr>"
    by (rule pmm_alloc_pagesE)
  then show ?case using alloc_pages_granted[OF e(2) 3(2) e(3)]
    by (auto simp: alloc_result_def pmm_view_defs)
next
  case (4 s k a)
  then obtain p where p: "PMM s = Some p" "pmm_inv (kmem s) p" by (auto simp: pmm_ok_def)
  have "\<exists>s'. free_pages (kmem s) p a k = Some s' \<and> pmm_inv (fst s') (snd s') \<and>
      {..<unat (total_frames (snd s'))} = {..<unat (total_frames p)} \<and>
      dom (labels (snd s')) = dom (labels p) \<union> run (frame_of a) k"
    using buddy_alloc.release_ok[of "(kmem s, p)" k a] 4 p by (auto simp: pmm_view_defs split_beta)
  then show ?case using p by (auto simp: pmm_alloc_pages_eq pmm_view_defs)
next
  case (5 s)
  then obtain p where p: "PMM s = Some p" "pmm_inv (kmem s) p" by (auto simp: pmm_ok_def)
  with buddy_alloc.avail_frames[of "(kmem s, p)"] show ?case by (simp add: pmm_view_defs)
next
  case (6 s)
  then show ?case using pmm_core_simps(3) by (auto simp: pmm_view_defs pmm_inv_def)
next
  case (7 s k a s')
  from 7(1,3) obtain p m' p' where e: "PMM s = Some p" "pmm_inv (kmem s) p"
    "alloc_pages (kmem s) p k = Some (Some a, m', p')" "s' = s\<lparr>kmem := m', PMM := Some p'\<rparr>"
    by (rule pmm_alloc_pagesE)
  then show ?case using alloc_pages_granted[OF e(2) 7(2) e(3)] link_words_frame_words agree_off_mono
    by (auto simp: alloc_result_def pmm_view_defs)
next
  case (8 s a k s')
  then obtain p m' p' where e: "PMM s = Some p" "pmm_inv (kmem s) p"
    "free_pages (kmem s) p a k = Some (m', p')" "s' = s\<lparr>kmem := m', PMM := Some p'\<rparr>"
    by (rule pmm_free_pagesE)
  have "free_legal p a k" using free_pages_panic e by (force simp: pmm_inv_def)
  from free_pages_ok[OF e(2) this] have "free_result (kmem s) p (run (unat a div 4096) k) m' p'"
    using e(3) by auto
  then show ?case using e link_words_frame_words agree_off_mono by (auto simp: free_result_def pmm_view_defs)
next
  case (9 s s')
  then obtain p where p: "PMM s = Some p" "pmm_inv (kmem s) p" by (auto simp: pmm_ok_def)
  then have "pmm_inv (kmem s') p"
    using 9(3) link_words_frame_words by (intro pmm_inv_write[OF p(2)]) (auto simp: pmm_view_defs)
  then show ?case using 9(2) p by (auto simp: pmm_view_defs)
qed

lemma labels_frame_order_eq:
  assumes "labels p = labels q" "length (frame_order p) = length (frame_order q)"
  shows "frame_order p = frame_order q"
proof (rule nth_equalityI[OF assms(2)])
  fix i assume "i < length (frame_order p)"
  then show "frame_order p ! i = frame_order q ! i"
    using fun_cong[OF assms(1), of i] assms(2) by (auto simp: labels_def word_unat_eq_iff split: if_splits)
qed

lemma same_free_same_layout:
  assumes "pmm_inv m p" "pmm_inv m' p'" "dom (labels p) = dom (labels p')" "total_frames p = total_frames p'"
  shows "frame_order p = frame_order p'" "free_frames p = free_frames p'"
proof -
  note c = pmm_core_simps[of m p] and c' = pmm_core_simps[of m' p']
  have "labels p = labels p'"
    using coalesced_unique[of MAX_ORDER "labels p" "labels p'"] assms(1-3) c(5,6) c'(5,6)
    by (simp add: pmm_inv_def)
  then show "frame_order p = frame_order p'"
    using labels_frame_order_eq c(2) c'(2) assms by (simp add: pmm_inv_def)
  show "free_frames p = free_frames p'"
    using assms(1-3) by (simp add: pmm_inv_def word_unat_eq_iff)
qed

lemma Pmm_new_inv:
  assumes "fits hhdm (unat n)" "length fo = unat n"
  obtains p where "Pmm_new fo n hhdm = Some p" "pmm_inv m p" "labels p = Map.empty"
    "total_frames p = n" "hhdm_offset p = hhdm"
proof -
  define p where "p = \<lparr>free_lists = replicate NUM_ORDERS None,
    frame_order = replicate (length fo) ORDER_NONE, total_frames = n, free_frames = 0, hhdm_offset = hhdm\<rparr>"
  have L: "labels p = Map.empty" by (auto simp: labels_def fun_eq_iff p_def)
  have nb: "\<not> is_block (labels p) f k" for f k unfolding L is_block_def using run_start by fastforce
  then have "\<forall>k\<le>MAX_ORDER. free_list m p k []"
    by (auto simp: free_list_def) (simp add: p_def)
  moreover have "buddy_wf MAX_ORDER (labels p)" by (simp add: L buddy_wf_def)
  moreover have "coalesced MAX_ORDER (labels p)" using nb by (simp add: coalesced_def)
  ultimately have "pmm_inv m p"
    using assms unfolding pmm_inv_def pmm_core_def L by (auto simp: p_def)
  then show thesis using assms(2) L by (intro that[of p]) (simp_all add: Pmm_new_def p_def)
qed

lemma free_frames_alloc:
  assumes "alloc_result m p k f m' p'" "pmm_inv m p"
  shows "unat (free_frames p) = unat (free_frames p') + 2 ^ k"
proof -
  have "run f k \<subseteq> dom (labels p)" using assms(1) by (simp add: alloc_result_def)
  from card_mono[OF finite_dom_labels this] card_Diff_subset[OF finite_run this]
  show ?thesis using assms by (simp add: alloc_result_def pmm_inv_def)
qed

lemma free_frames_free:
  assumes "free_result m p S m' p'" "pmm_inv m p" "S \<inter> dom (labels p) = {}" "finite S"
  shows "unat (free_frames p') = unat (free_frames p) + card S"
  using assms by (simp add: free_result_def pmm_inv_def card_Un_disjoint Int_commute)

lemma free_after_alloc_legal:
  assumes "pmm_inv m p" "order \<le> MAX_ORDER" "alloc_pages m p order = Some (Some a, m', p')"
  shows "free_legal p' a order"
proof -
  note g = alloc_pages_granted[OF assms]
  have "run (frame_of a) order \<subseteq> dom (labels p)" using g(1) by (simp add: alloc_result_def)
  also have "\<dots> \<subseteq> {0..<unat (total_frames p)}"
    using dom_labels_bound[of p] pmm_core_simps(2)[of m p] assms(1) by (simp add: pmm_inv_def lessThan_atLeast0)
  finally have "run (frame_of a) order \<subseteq> {0..<unat (total_frames p)}" .
  then have "frame_of a + 2 ^ order \<le> unat (total_frames p)"
    by (simp add: run_def atLeastLessThan_subset_iff)
  then show ?thesis using g assms(2) by (auto simp: free_legal_def alloc_result_def frame_of_def)
qed

section \<open>A concrete allocator\<close>

text \<open>
  Eight frames, the first of them withheld, as \<open>mm::init\<close> withholds frame 0; the
  properties below are instantiated on it.
\<close>

definition small_pmm :: "(mem \<times> Pmm) option" where
  "small_pmm = do { p \<leftarrow> Pmm_new (replicate 8 0) 8 0xffff800000000000; add_range (\<lambda>_. 0) p 1 7 }"

lemma small_pmm_inv:
  obtains m p where "small_pmm = Some (m, p)" "pmm_inv m p" "dom (labels p) = {1..<8}"
    "total_frames p = 8" "hhdm_offset p = 0xffff800000000000"
proof -
  obtain p0 where p0: "Pmm_new (replicate 8 0) 8 0xffff800000000000 = Some p0" "pmm_inv (\<lambda>_. 0) p0"
    "labels p0 = Map.empty" "total_frames p0 = 8" "hhdm_offset p0 = 0xffff800000000000"
    by (rule Pmm_new_inv[of "0xffff800000000000" 8 "replicate 8 0" "\<lambda>_. 0"]) (auto simp: fits_def)
  have "range_legal p0 1 7" using p0 by (auto simp: range_legal_def)
  then obtain m p where "add_range (\<lambda>_. 0) p0 1 7 = Some (m, p)" "free_result (\<lambda>_. 0) p0 {1..<8} m p"
    using add_range_ok[of "\<lambda>_. 0" p0 1 7] p0(2) by auto
  with p0 show thesis by (intro that[of m p]) (auto simp: small_pmm_def free_result_def)
qed

section \<open>Properties\<close>

text \<open>
  C1. Allocation is total and correct: for an order the allocator supports, \<open>alloc_pages\<close>
  never panics.  When it refuses, nothing has changed.  When it grants an address, the
  address is page aligned, its block is naturally aligned and was entirely free, exactly
  that block leaves the free set, the counter drops by the size of the block, the
  invariant holds again, and no memory word was written except link words of frames
  that were free (so no allocated frame is touched).
\<close>

theorem alloc_pages_correct:
  assumes "pmm_inv m p" "order \<le> MAX_ORDER"
  shows "(case alloc_pages m p order of
      None \<Rightarrow> False
    | Some (None, m', p') \<Rightarrow> m' = m \<and> p' = p
    | Some (Some a, m', p') \<Rightarrow>
        pmm_inv m' p' \<and> 4096 dvd unat a \<and> 2 ^ order dvd unat a div 4096 \<and>
        run (unat a div 4096) order \<subseteq> dom (labels p) \<and>
        dom (labels p') = dom (labels p) - run (unat a div 4096) order \<and>
        unat (free_frames p) = unat (free_frames p') + 2 ^ order \<and>
        total_frames p' = total_frames p \<and> hhdm_offset p' = hhdm_offset p \<and>
        agree_off (link_words (hhdm_offset p) (dom (labels p))) m m')"
proof -
  obtain r m' p' where r: "alloc_pages m p order = Some (r, m', p')"
    using buddy_alloc.alloc_total[of "(m, p)" order] assms by auto
  show ?thesis
  proof (cases r)
    case None
    then show ?thesis using alloc_pages_refused[OF assms] r by simp
  next
    case (Some a)
    then show ?thesis using alloc_pages_granted[OF assms, of a m' p'] r free_frames_alloc[OF _ assms(1)]
      by (simp add: alloc_result_def frame_of_def)
  qed
qed

theorem alloc_pages_correct_witness:
  "\<exists>m p. small_pmm = Some (m, p) \<and> (\<exists>m' p'. alloc_pages m p 1 = Some (Some 0x2000, m', p') \<and>
     pmm_inv m' p' \<and> dom (labels p') = {1..<8} - {2, 3})"
proof -
  obtain m p where mp: "small_pmm = Some (m, p)" "pmm_inv m p" "dom (labels p) = {1..<8}"
    by (rule small_pmm_inv)
  have "map_option fst (do { (m, p) \<leftarrow> small_pmm; alloc_pages m p 1 }) = Some (Some 0x2000)"
    by code_simp
  then obtain m' p' where e: "alloc_pages m p 1 = Some (Some 0x2000, m', p')"
    unfolding mp(1) by auto
  have "run 2 1 = {2, 3}" by (auto simp: run_def)
  then show ?thesis using alloc_pages_correct[OF mp(2), of 1] mp e by (intro exI[of _ m] exI[of _ p]) simp
qed

text \<open>
  C2. Allocation is complete: \<open>alloc_pages\<close> grants a block exactly when some naturally
  aligned run of that order is free.  The eager coalescing of \<open>free_pages\<close> is what makes
  this hold: memory that is free and aligned is never lost to fragmentation of the lists.
\<close>

theorem alloc_pages_complete:
  assumes "pmm_inv m p" "order \<le> MAX_ORDER"
  shows "(\<exists>a m' p'. alloc_pages m p order = Some (Some a, m', p')) \<longleftrightarrow>
         (\<exists>f. 2 ^ order dvd f \<and> run f order \<subseteq> dom (labels p))"
proof -
  obtain r m' p' where r: "alloc_pages m p order = Some (r, m', p')"
    using buddy_alloc.alloc_total[of "(m, p)" order] assms by auto
  then show ?thesis
    using alloc_pages_refused[OF assms] alloc_pages_granted(1)[OF assms]
    by (cases r) (auto simp: alloc_result_def)
qed

theorem alloc_pages_complete_witness:
  "\<exists>m p. small_pmm = Some (m, p) \<and> (\<exists>a m' p'. alloc_pages m p 2 = Some (Some a, m', p')) \<and>
     \<not> (\<exists>a m' p'. alloc_pages m p 3 = Some (Some a, m', p'))"
proof -
  obtain m p where mp: "small_pmm = Some (m, p)" "pmm_inv m p" "dom (labels p) = {1..<8}"
    by (rule small_pmm_inv)
  have "2 ^ 2 dvd (4 :: nat) \<and> run 4 2 \<subseteq> {1..<8}" by (simp add: run_def)
  moreover have "\<not> run f 3 \<subseteq> {1..<8}" for f by (simp add: run_def atLeastLessThan_subset_iff)
  ultimately show ?thesis
    using alloc_pages_complete[OF mp(2), of 2] alloc_pages_complete[OF mp(2), of 3] mp(1,3)
    by (intro exI[of _ m] exI[of _ p]) auto
qed

text \<open>
  C3. Release is exact: \<open>free_pages\<close> succeeds precisely on a page-aligned, naturally
  aligned block of a supported order that lies below \<open>total_frames\<close> and has no free frame
  in it, and panics on every other call (double free, partial double free, misaligned
  or out-of-range address).  On success exactly that block joins the free set, with full
  coalescing, and only link words of free frames are written.
\<close>

theorem free_pages_exact:
  assumes "pmm_inv m p"
  shows "(case free_pages m p addr order of
      None \<Rightarrow> \<not> (order \<le> MAX_ORDER \<and> 4096 dvd unat addr \<and> 2 ^ order dvd unat addr div 4096 \<and>
        unat addr div 4096 + 2 ^ order \<le> unat (total_frames p) \<and>
        run (unat addr div 4096) order \<inter> dom (labels p) = {})
    | Some (m', p') \<Rightarrow>
        order \<le> MAX_ORDER \<and> 4096 dvd unat addr \<and> 2 ^ order dvd unat addr div 4096 \<and>
        unat addr div 4096 + 2 ^ order \<le> unat (total_frames p) \<and>
        run (unat addr div 4096) order \<inter> dom (labels p) = {} \<and>
        pmm_inv m' p' \<and> dom (labels p') = dom (labels p) \<union> run (unat addr div 4096) order \<and>
        unat (free_frames p') = unat (free_frames p) + 2 ^ order \<and>
        total_frames p' = total_frames p \<and> hhdm_offset p' = hhdm_offset p \<and>
        agree_off (link_words (hhdm_offset p) (dom (labels p'))) m m')"
proof (cases "free_legal p addr order")
  case True
  from free_pages_ok[OF assms True] obtain m' p' where
    r: "free_pages m p addr order = Some (m', p')" "free_result m p (run (unat addr div 4096) order) m' p'"
    by blast
  moreover have "unat (free_frames p') = unat (free_frames p) + 2 ^ order"
    using free_frames_free[OF r(2) assms] True by (simp add: free_legal_def)
  ultimately show ?thesis using True by (auto simp: free_legal_def free_result_def)
next
  case False
  then have "free_pages m p addr order = None" using assms by (simp add: free_pages_panic pmm_inv_def)
  then show ?thesis using False by (simp add: free_legal_def)
qed

theorem free_pages_exact_witness:
  "\<exists>m p. small_pmm = Some (m, p) \<and> free_pages m p 0x1000 0 = None \<and>
     (\<exists>m' p'. free_pages m p 0 0 = Some (m', p') \<and> pmm_inv m' p' \<and> dom (labels p') = {0..<8})"
proof -
  obtain m p where mp: "small_pmm = Some (m, p)" "pmm_inv m p" "dom (labels p) = {1..<8}" "total_frames p = 8"
    by (rule small_pmm_inv)
  have "insert 0 {1..<8} = {0..<8 :: nat}" by auto
  moreover have "free_pages m p 0x1000 0 = None"
    using free_pages_exact[OF mp(2), where addr = "0x1000" and order = 0] mp(3) by (auto simp: run_def split: option.splits)
  ultimately show ?thesis
    using free_pages_exact[OF mp(2), of 0 0] mp by (auto simp: run_def split: option.splits)
qed

text \<open>
  C4. Releasing a block right after its allocation restores the allocator: the release
  succeeds and \<open>frame_order\<close>, the free-frame counter and the set of free frames are exactly
  those before the allocation, whatever splitting and merging happened in between.
\<close>

theorem alloc_free_roundtrip:
  assumes "pmm_inv m p" "order \<le> MAX_ORDER" "alloc_pages m p order = Some (Some a, m', p')"
  shows "\<exists>m'' p''. free_pages m' p' a order = Some (m'', p'') \<and> pmm_inv m'' p'' \<and>
    frame_order p'' = frame_order p \<and> free_frames p'' = free_frames p \<and>
    dom (labels p'') = dom (labels p)"
proof -
  note g = alloc_pages_granted(1)[OF assms]
  obtain m'' p'' where r: "free_pages m' p' a order = Some (m'', p'')"
    "free_result m' p' (run (frame_of a) order) m'' p''"
    using free_pages_ok[OF _ free_after_alloc_legal[OF assms], of m'] g
    by (auto simp: alloc_result_def frame_of_def)
  have d: "dom (labels p'') = dom (labels p)" "total_frames p'' = total_frames p" "pmm_inv m'' p''"
    using g r(2) by (auto simp: alloc_result_def free_result_def)
  with r(1) same_free_same_layout[OF d(3) assms(1) d(1,2)] show ?thesis by blast
qed

theorem alloc_free_roundtrip_witness:
  "\<exists>m p m' p' m'' p''. small_pmm = Some (m, p) \<and> alloc_pages m p 1 = Some (Some 0x2000, m', p') \<and>
     frame_order p' \<noteq> frame_order p \<and> free_pages m' p' 0x2000 1 = Some (m'', p'') \<and>
     frame_order p'' = frame_order p"
proof -
  obtain m p where mp: "small_pmm = Some (m, p)" "pmm_inv m p" by (rule small_pmm_inv)
  have "map_option (\<lambda>(r, m', p'). (r, frame_order p'))
      (do { (m, p) \<leftarrow> small_pmm; alloc_pages m p 1 }) =
      Some (Some 0x2000, [0xFF, 0, 0xFF, 0xFF, 2, 2, 2, 2])"
    by code_simp
  then obtain m' p' where e: "alloc_pages m p 1 = Some (Some 0x2000, m', p')"
      "frame_order p' = [0xFF, 0, 0xFF, 0xFF, 2, 2, 2, 2]"
    unfolding mp(1) by auto
  have "map_option (\<lambda>(m, p). frame_order p) small_pmm = Some [0xFF, 0, 1, 1, 2, 2, 2, 2]"
    by code_simp
  then have "frame_order p \<noteq> frame_order p'" unfolding mp(1) e(2) by simp
  with alloc_free_roundtrip[OF mp(2) _ e(1)] mp(1) e(1) show ?thesis by force
qed

text \<open>
  C5. \<open>add_range\<close> is exact on ranges of physical memory (below 2^52 frames, the width of
  a physical address): it terminates, panics if a frame of the range does not exist or is
  already free, and otherwise adds precisely the frames of the range, whatever power-of-two
  blocks it is cut into.
\<close>

theorem add_range_exact:
  assumes "pmm_inv m p" "unat start + unat count \<le> 2 ^ 52"
  shows "(case add_range m p start count of
      None \<Rightarrow> \<exists>f \<in> {unat start..<unat start + unat count}.
        unat (total_frames p) \<le> f \<or> f \<in> dom (labels p)
    | Some (m', p') \<Rightarrow>
        {unat start..<unat start + unat count} \<inter> dom (labels p) = {} \<and>
        pmm_inv m' p' \<and>
        dom (labels p') = dom (labels p) \<union> {unat start..<unat start + unat count} \<and>
        unat (free_frames p') = unat (free_frames p) + unat count \<and>
        agree_off (link_words (hhdm_offset p) (dom (labels p'))) m m')"
proof (cases "range_legal p (unat start) (unat count)")
  case True
  with add_range_ok[OF assms] obtain m' p' where
    r: "add_range m p start count = Some (m', p')"
      "free_result m p {unat start..<unat start + unat count} m' p'" by auto
  have d: "{unat start..<unat start + unat count} \<inter> dom (labels p) = {}"
    using True by (auto simp: range_legal_def)
  show ?thesis using r free_frames_free[OF r(2) assms(1) d] d by (auto simp: free_result_def)
next
  case False
  then have "add_range m p start count = None" using add_range_ok[OF assms] by simp
  then show ?thesis using False by (auto simp: range_legal_def not_less)
qed

theorem add_range_exact_witness:
  "\<exists>p. Pmm_new (replicate 8 0) 8 0xffff800000000000 = Some p \<and>
     (\<exists>m' p'. add_range (\<lambda>_. 0) p 3 5 = Some (m', p') \<and> pmm_inv m' p' \<and> dom (labels p') = {3..<8})"
proof -
  obtain p where p: "Pmm_new (replicate 8 0) 8 0xffff800000000000 = Some p" "pmm_inv (\<lambda>_. 0) p"
    "labels p = Map.empty" "total_frames p = 8"
    by (rule Pmm_new_inv[of "0xffff800000000000" 8 "replicate 8 0" "\<lambda>_. 0"]) (auto simp: fits_def)
  then show ?thesis
    using add_range_exact[OF p(2), where start = 3 and count = 5] by (auto split: option.splits)
qed

text \<open>
  C6. Ownership: after any sequence of allocations and releases by the clients of the
  allocator, the blocks they hold are pairwise disjoint, none of them overlaps a free
  frame, free and held frames together are exactly the frames that were free at the
  start (no frame is lost or invented), and every held block can be released without a panic.
\<close>

theorem pmm_clients_own:
  assumes "client_run (\<lambda>(m, p) k. alloc_pages m p k) (\<lambda>(m, p) a k. free_pages m p a k) MAX_ORDER
             (m0, p0) (m, p) H"
    and "pmm_inv m0 p0"
  shows "separate H \<and> (\<forall>b\<in>H. block_frames b \<inter> dom (labels p) = {}) \<and>
    dom (labels p) \<union> (\<Union>b\<in>H. block_frames b) = dom (labels p0) \<and>
    (\<forall>(a, k)\<in>H. free_pages m p a k \<noteq> None)"
  using buddy_alloc.client_owns[OF assms(1)] assms(2) by fastforce

theorem pmm_clients_own_witness:
  "\<exists>m0 p0 m p. small_pmm = Some (m0, p0) \<and> alloc_pages m0 p0 1 = Some (Some 0x2000, m, p) \<and>
     separate {(0x2000, 1)} \<and> dom (labels p) \<union> block_frames (0x2000, 1) = {1..<8} \<and>
     free_pages m p 0x2000 1 \<noteq> None"
proof -
  obtain m0 p0 where mp: "small_pmm = Some (m0, p0)" "pmm_inv m0 p0" "dom (labels p0) = {1..<8}"
    by (rule small_pmm_inv)
  have "map_option fst (do { (m, p) \<leftarrow> small_pmm; alloc_pages m p 1 }) = Some (Some 0x2000)"
    by code_simp
  then obtain m p where e: "alloc_pages m0 p0 1 = Some (Some 0x2000, m, p)" unfolding mp(1) by auto
  have "client_run (\<lambda>(m, p) k. alloc_pages m p k) (\<lambda>(m, p) a k. free_pages m p a k) MAX_ORDER
      (m0, p0) (m, p) (insert (0x2000, 1) {})"
    by (rule client_run.allocate[OF client_run.start]) (use e in simp_all)
  from pmm_clients_own[OF this mp(2)] mp(1,3) e show ?thesis by auto
qed

text \<open>
  C7. The allocator forgets its history: take any two sequences of allocations and releases from the same
  state.  If the clients end up holding the same frames, in whatever blocks they were handed
  out, then the same frames are free and \<open>frame_order\<close> and the counter are equal, although splits and merges happened in
  another order.  In particular once everything is released the block structure is what it was at the start.
\<close>

theorem pmm_history_independent:
  assumes "client_run (\<lambda>(m, p) k. alloc_pages m p k) (\<lambda>(m, p) a k. free_pages m p a k) MAX_ORDER (m0, p0) (m1, p1) H1"
    and "client_run (\<lambda>(m, p) k. alloc_pages m p k) (\<lambda>(m, p) a k. free_pages m p a k) MAX_ORDER (m0, p0) (m2, p2) H2"
    and "pmm_inv m0 p0" "(\<Union>b\<in>H1. block_frames b) = (\<Union>b\<in>H2. block_frames b)"
  shows "dom (labels p1) = dom (labels p2) \<and> frame_order p1 = frame_order p2 \<and> free_frames p1 = free_frames p2"
proof -
  have h: "pmm_inv m' p'" "total_frames p' = total_frames p0" "(\<Union>b\<in>H. block_frames b) \<inter> dom (labels p') = {}"
    "dom (labels p') \<union> (\<Union>b\<in>H. block_frames b) = dom (labels p0)"
    if "client_run (\<lambda>(m, p) k. alloc_pages m p k) (\<lambda>(m, p) a k. free_pages m p a k) MAX_ORDER (m0, p0) (m', p') H" for m' p' H
  proof -
    note h = buddy_alloc.client_holds[OF that, unfolded buddy_alloc.holds_def prod.case, OF assms(3)]
    show "pmm_inv m' p'" "(\<Union>b\<in>H. block_frames b) \<inter> dom (labels p') = {}"
      "dom (labels p') \<union> (\<Union>b\<in>H. block_frames b) = dom (labels p0)" using h by blast+
    have "{..<unat (total_frames p')} = {..<unat (total_frames p0)}" using h by blast
    then show "total_frames p' = total_frames p0" by (simp add: unat_eq_iff)
  qed
  note i = h(1)[OF assms(1)] h(1)[OF assms(2)] trans[OF h(2)[OF assms(1)] h(2)[OF assms(2), symmetric]]
  have free: "A = C - B" if "B \<inter> A = {}" "A \<union> B = C" for A B C :: "nat set" using that by blast
  have "dom (labels p1) = dom (labels p2)"
    using free[OF h(3,4)[OF assms(1)]] free[OF h(3,4)[OF assms(2)]] assms(4) by simp
  then show ?thesis using same_free_same_layout[OF i(1,2) _ i(3)] by blast
qed

theorem pmm_history_independent_witness:
  "\<exists>m p m1 p1 m2 p2 m3 p3 m4 p4. small_pmm = Some (m, p) \<and>
     alloc_pages m p 0 = Some (Some 0x1000, m1, p1) \<and> alloc_pages m1 p1 1 = Some (Some 0x2000, m2, p2) \<and>
     free_pages m2 p2 0x1000 0 = Some (m3, p3) \<and> alloc_pages m p 1 = Some (Some 0x2000, m4, p4) \<and>
     frame_order p3 = frame_order p4 \<and> free_frames p3 = free_frames p4"
proof -
  let ?A = "\<lambda>(m, p) k. alloc_pages m p k" and ?R = "\<lambda>(m, p) a k. free_pages m p a k"
  obtain m p where mp: "small_pmm = Some (m, p)" "pmm_inv m p" by (rule small_pmm_inv)
  have "map_option (\<lambda>(a, b, c). (a, b)) (do { (m, p) \<leftarrow> small_pmm; (a, m, p) \<leftarrow> alloc_pages m p 0;
      (b, m, p) \<leftarrow> alloc_pages m p 1; (m, p) \<leftarrow> free_pages m p 0x1000 0; Some (a, b, frame_order p) }) =
      Some (Some 0x1000, Some 0x2000)" by code_simp
  then obtain m1 p1 m2 p2 m3 p3 where r: "alloc_pages m p 0 = Some (Some 0x1000, m1, p1)"
    "alloc_pages m1 p1 1 = Some (Some 0x2000, m2, p2)" "free_pages m2 p2 0x1000 0 = Some (m3, p3)"
    unfolding mp(1) by (auto simp: Option.bind_eq_Some_conv)
  have "map_option fst (do { (m, p) \<leftarrow> small_pmm; alloc_pages m p 1 }) = Some (Some 0x2000)" by code_simp
  then obtain m4 p4 where q: "alloc_pages m p 1 = Some (Some 0x2000, m4, p4)" unfolding mp(1) by auto
  have "client_run ?A ?R MAX_ORDER (m, p) (m1, p1) (insert (0x1000, 0) {})"
    by (rule client_run.allocate[OF client_run.start]) (use r in simp_all)
  then have "client_run ?A ?R MAX_ORDER (m, p) (m2, p2) (insert (0x2000, 1) (insert (0x1000, 0) {}))"
    by (rule client_run.allocate) (use r in simp_all)
  then have "client_run ?A ?R MAX_ORDER (m, p) (m3, p3) (insert (0x2000, 1) (insert (0x1000, 0) {}) - {(0x1000, 0)})"
    by (rule client_run.give_back) (use r in simp_all)
  moreover have "insert (0x2000, 1) (insert (0x1000, 0) {}) - {(0x1000, 0)} = {(0x2000 :: u64, 1 :: nat)}" by auto
  ultimately have c: "client_run ?A ?R MAX_ORDER (m, p) (m3, p3) {(0x2000, 1)}" by simp
  have d: "client_run ?A ?R MAX_ORDER (m, p) (m4, p4) {(0x2000, 1)}"
    by (rule client_run.allocate[OF client_run.start]) (use q in simp_all)
  from pmm_history_independent[OF c d mp(2)] mp(1) r q show ?thesis by blast
qed

end
