(* ===== verification/Vmm_Props.thy ===== *)
theory Vmm_Props
  imports Vmm_Unmap Pmm_Props
begin

text \<open>
  The properties of kernel/src/mm/vmm.rs.  The physical allocator provides the contract the
  walks were verified against, so their results hold for the kernel's functions; addresses
  replace indices, and \<open>translate\<close> replaces the abstract walk.
\<close>

interpretation pmm_tables: table_memory "\<lambda>s k. pmm_alloc_pages k s" "\<lambda>s a k. pmm_free_pages a k s" pmm_ok
  "\<lambda>s. {..<pmm_total s}" pmm_avail MAX_ORDER pmm_total pmm_hhdm
  by unfold_locales

section \<open>Addresses and indices\<close>

lemma level_index_eq:
  "level_index k w = level_index k v \<longleftrightarrow> (\<forall>n<9. bit w (12 + 9 * k + n) = bit v (12 + 9 * k + n))"
proof -
  have "level_index k x = unat (take_bit 9 (drop_bit (12 + 9 * k) x))" for x
    by (simp add: level_index_def take_bit_eq_mod unat_mod)
  then have "level_index k w = level_index k v \<longleftrightarrow>
      take_bit 9 (drop_bit (12 + 9 * k) w) = take_bit 9 (drop_bit (12 + 9 * k) v)"
    by (simp add: word_unat_eq_iff)
  also have "\<dots> \<longleftrightarrow> (\<forall>n<9. bit w (12 + 9 * k + n) = bit v (12 + 9 * k + n))"
    (is "?l = ?r \<longleftrightarrow> ?b")
  proof
    assume "?l = ?r"
    then have "bit ?l n = bit ?r n" for n by simp
    then show ?b by (auto simp: bit_take_bit_iff bit_drop_bit_eq)
  next
    assume ?b
    then show "?l = ?r" by (intro bit_eqI) (auto simp: bit_take_bit_iff bit_drop_bit_eq)
  qed
  finally show ?thesis .
qed

lemma canonical_bits:
  assumes "is_canonical v" "47 \<le> n" "n < 64"
  shows "bit v n = bit v 47"
proof -
  define d where "d = drop_bit 47 v"
  have b: "bit v n = bit d (n - 47)" "bit v 47 = bit d 0"
    using assms by (simp_all add: bit_simps d_def)
  have "(0x1ffff :: u64) = mask 17" by (simp add: mask_eq_exp_minus_1)
  then have "d = 0 \<or> d = mask 17"
    using assms(1) unfolding is_canonical_def Let_def d_def by simp
  then show ?thesis unfolding b using assms by (auto simp: bit_simps)
qed

lemma same_page_bits:
  assumes "is_canonical v" "is_canonical w" "t \<le> 3"
  shows "same_page t 3 v w \<longleftrightarrow> drop_bit (12 + 9 * t) w = drop_bit (12 + 9 * t) v"
proof
  assume sp: "same_page t 3 v w"
  have low: "bit w n = bit v n" if "12 + 9 * t \<le> n" "n < 48" for n
  proof -
    define k where "k = (n - 12) div 9"
    define j where "j = (n - 12) mod 9"
    have n: "n = 12 + 9 * k + j" "j < 9" using that by (simp_all add: k_def j_def)
    then have "t \<le> k" "k \<le> 3" using that by simp_all
    then have "level_index k w = level_index k v" using sp by (simp add: same_page_def)
    then show ?thesis unfolding level_index_eq n(1) using n(2) by blast
  qed
  show "drop_bit (12 + 9 * t) w = drop_bit (12 + 9 * t) v"
  proof (rule bit_word_eqI)
    fix n assume n: "n < LENGTH(64)"
    show "bit (drop_bit (12 + 9 * t) w) n = bit (drop_bit (12 + 9 * t) v) n"
    proof (cases "12 + 9 * t + n < 48")
      case True
      then show ?thesis using low[of "12 + 9 * t + n"] by (simp add: bit_simps)
    next
      case False
      have "bit w 47 = bit v 47" using low[of 47] assms(3) by simp
      then show ?thesis
        using False canonical_bits[OF assms(1), of "12 + 9 * t + n"] canonical_bits[OF assms(2), of "12 + 9 * t + n"]
        by (cases "12 + 9 * t + n < 64") (auto simp: bit_simps dest: bit_imp_le_length)
    qed
  qed
next
  assume "drop_bit (12 + 9 * t) w = drop_bit (12 + 9 * t) v"
  then have "bit (drop_bit (12 + 9 * t) w) n = bit (drop_bit (12 + 9 * t) v) n" for n by simp
  then have b: "bit w (12 + 9 * t + n) = bit v (12 + 9 * t + n)" for n by (simp add: bit_drop_bit_eq)
  have "bit w (12 + 9 * k + n) = bit v (12 + 9 * k + n)" if "t \<le> k" for k n
    using b[of "9 * (k - t) + n"] that by (simp add: add.assoc[symmetric] diff_mult_distrib2)
  then show "same_page t 3 v w" by (simp add: same_page_def level_index_eq)
qed

text \<open>The addresses of the page at \<open>virt\<close>.\<close>

definition in_page :: "u64 \<Rightarrow> PageSize \<Rightarrow> u64 \<Rightarrow> bool" where
  "in_page virt sz w \<longleftrightarrow> virt \<le> w \<and> unat w < unat virt + 2 ^ (12 + 9 * page_level sz)"

lemma page_level_le [simp]: "page_level sz \<le> 2" "page_level sz \<le> 3"
  by (cases sz; simp)+

lemma bytes_eq:
  assumes "x86_ok X"
  shows "PageSize_bytes X sz = 2 ^ (12 + 9 * page_level sz)"
  using assms by (cases sz) (simp_all add: x86_simps)

lemma bytes_multiple:
  assumes "x86_ok X"
  shows "is_multiple_of a (PageSize_bytes X sz) \<longleftrightarrow> 2 ^ (12 + 9 * page_level sz) dvd unat a"
  unfolding bytes_eq[OF assms] by (rule is_multiple_of_pow2) (cases sz; simp)

lemma in_page_iff:
  assumes "2 ^ (12 + 9 * page_level sz) dvd unat virt" "is_canonical virt" "is_canonical w"
  shows "same_page (page_level sz) 3 virt w \<longleftrightarrow> in_page virt sz w"
proof -
  let ?n = "12 + 9 * page_level sz"
  obtain q where q: "unat virt = 2 ^ ?n * q" using assms(1) by (auto elim: dvdE)
  have "same_page (page_level sz) 3 virt w \<longleftrightarrow> unat (drop_bit ?n w) = unat (drop_bit ?n virt)"
    using same_page_bits[OF assms(2,3), of "page_level sz"] by (cases sz) (simp_all add: word_unat_eq_iff)
  also have "\<dots> \<longleftrightarrow> unat w div 2 ^ ?n = q" unfolding unat_drop_bit64 q by simp
  also have "\<dots> \<longleftrightarrow> 2 ^ ?n * q \<le> unat w \<and> unat w < 2 ^ ?n * q + 2 ^ ?n"
    by (metis div_nat_eqI dividend_less_times_div less_eq_div_iff_mult_less_eq mult.commute mult_Suc_right
        order_refl times_div_less_eq_dividend zero_less_numeral zero_less_power add.commute)
  finally show ?thesis by (simp add: in_page_def word_le_nat_alt q)
qed

section \<open>Translation is the walk\<close>

text \<open>
  The state of the memory managers: the physical allocator's invariant holds, the tables
  form a tree, and no frame of the tables is free.
\<close>

definition vm_tables :: "Vmm \<Rightarrow> 'a vkernel_scheme \<Rightarrow> nat set" where
  "vm_tables v s = tframes (kmem s) (HHDM_OFFSET s) 3 (top_level v)"

definition vm_walk :: "Vmm \<Rightarrow> 'a vkernel_scheme \<Rightarrow> u64 \<Rightarrow> (nat \<times> u64) option" where
  "vm_walk v s = lookup (kmem s) (HHDM_OFFSET s) 3 (top_level v)"

definition vm_emptied :: "Vmm \<Rightarrow> 'a vkernel_scheme \<Rightarrow> nat \<Rightarrow> u64 \<Rightarrow> nat set" where
  "vm_emptied v s t = (\<lambda>virt. emptied (kmem s) (HHDM_OFFSET s) t virt 3 (top_level v))"

definition vm_inv :: "Vmm \<Rightarrow> 'a vkernel_scheme \<Rightarrow> bool" where
  "vm_inv v s \<longleftrightarrow> pmm_ok s \<and> pmm_total s \<le> 2 ^ 40 \<and> pmm_hhdm s = HHDM_OFFSET s \<and>
     tree_ok (kmem s) (HHDM_OFFSET s) (pmm_total s) 3 (top_level v) \<and> vm_tables v s \<inter> pmm_avail s = {}"

lemma vm_inv_tree: "vm_inv v s \<longleftrightarrow> pmm_tables.tree_inv s 3 (top_level v) \<and> pmm_hhdm s = HHDM_OFFSET s"
  by (auto simp: vm_inv_def pmm_tables.tree_inv_def vm_tables_def)

definition page_translation :: "x86 \<Rightarrow> u64 \<Rightarrow> nat \<times> u64 \<Rightarrow> u64 \<times> u64" where
  "page_translation X w = (\<lambda>(k, e). (entry_addr e + take_bit (12 + 9 * k) w, PTFlags_from_bits_truncate X e))"

lemma entry_addr_bound: "unat (entry_addr e) < 2 ^ 52"
proof -
  have "take_bit 52 (entry_addr e) = entry_addr e"
    by (rule bit_eqI) (auto simp: entry_addr_def bit_simps bit_mask)
  then have "take_bit 52 (unat (entry_addr e)) = unat (entry_addr e)" by (metis unsigned_take_bit_eq)
  then show ?thesis by (simp add: take_bit_nat_eq_self_iff)
qed

lemma offset_add:
  assumes "n \<le> 52"
  shows "add64 (entry_addr e) (take_bit n w) = Some (entry_addr e + take_bit n w)"
proof -
  have "unat (take_bit n w) < 2 ^ n" by (simp add: unsigned_take_bit_eq)
  also have "(2 :: nat) ^ n \<le> 2 ^ 52" using assms by (intro power_increasing) simp_all
  finally show ?thesis using entry_addr_bound[of e] by (intro add64_Some) simp
qed

lemma page_offset:
  "(w :: u64) AND 0xFFF = take_bit 12 w" "(w :: u64) AND 0x1FFFFF = take_bit 21 w"
  "(w :: u64) AND 0x3FFFFFFF = take_bit 30 w"
  by (simp_all add: take_bit_eq_mask mask_eq_exp_minus_1)

lemma pmm_tables_level:
  assumes "pmm_tables.tree_inv s (Suc l) pa" "present (kmem s (slot_of (pmm_hhdm s) pa (level_index (Suc l) w)))"
    "\<not> leaf (Suc l) (kmem s (slot_of (pmm_hhdm s) pa (level_index (Suc l) w)))"
  shows "pmm_tables.tree_inv s l (entry_addr (kmem s (slot_of (pmm_hhdm s) pa (level_index (Suc l) w))))"
  using pmm_tables.tree_inv_child(1)[OF assms(1) level_index_less[of "Suc l" w]] assms(2,3)
  by (simp add: child_def Let_def)

lemma translate_eq:
  assumes x: "x86_ok X" and inv: "vm_inv v s"
  shows "Vmm_translate X v w s =
    Some (if is_canonical w then map_option (page_translation X w) (vm_walk v s w) else None)"
proof (cases "is_canonical w")
  case True
  have h: "pmm_hhdm s = HHDM_OFFSET s" and i3: "pmm_tables.tree_inv s 3 (top_level v)"
    using inv by (simp_all add: vm_inv_tree)
  define e3 where "e3 = kmem s (slot_of (HHDM_OFFSET s) (top_level v) (level_index 3 w))"
  define e2 where "e2 = kmem s (slot_of (HHDM_OFFSET s) (entry_addr e3) (level_index 2 w))"
  define e1 where "e1 = kmem s (slot_of (HHDM_OFFSET s) (entry_addr e2) (level_index (Suc 0) w))"
  define e0 where "e0 = kmem s (slot_of (HHDM_OFFSET s) (entry_addr e1) (level_index 0 w))"
  note e = e3_def[symmetric] e2_def[symmetric] e1_def[symmetric] e0_def[symmetric]
  have i2: "pmm_tables.tree_inv s 2 (entry_addr e3)" if "present e3"
    using pmm_tables_level[of s 2 "top_level v" w] i3 that by (simp add: h e leaf_def)
  have i1: "pmm_tables.tree_inv s (Suc 0) (entry_addr e2)" if "present e3" "present e2" "\<not> leaf 2 e2"
    using pmm_tables_level[of s "Suc 0" "entry_addr e3" w, folded numeral_2_eq_2, unfolded h e] i2 that by blast
  have i0: "pmm_tables.tree_inv s 0 (entry_addr e1)" if "present e3" "present e2" "\<not> leaf 2 e2" "present e1" "\<not> leaf (Suc 0) e1"
    using pmm_tables_level[of s 0 "entry_addr e2" w, unfolded h e] i1 that by blast
  have walk: "vm_walk v s w = (if \<not> present e3 then None else if \<not> present e2 then None
      else if leaf 2 e2 then Some (2, e2) else if \<not> present e1 then None
      else if leaf (Suc 0) e1 then Some (Suc 0, e1) else if \<not> present e0 then None else Some (0, e0))"
  proof -
    let ?lk = "\<lambda>l pa. lookup (kmem s) (HHDM_OFFSET s) l pa w"
    have "?lk 3 (top_level v) = (if \<not> present e3 then None else ?lk 2 (entry_addr e3))"
      by (subst lookup_eq) (simp add: Let_def e leaf_def)
    moreover have "?lk 2 (entry_addr e3) = (if \<not> present e2 then None else if leaf 2 e2 then Some (2, e2)
        else ?lk (Suc 0) (entry_addr e2))"
      by (subst lookup_eq) (simp add: Let_def e)
    moreover have "?lk (Suc 0) (entry_addr e2) = (if \<not> present e1 then None else if leaf (Suc 0) e1 then Some (Suc 0, e1)
        else ?lk 0 (entry_addr e1))"
      by (subst lookup_eq) (simp add: Let_def e)
    moreover have "?lk 0 (entry_addr e1) = (if \<not> present e0 then None else Some (0, e0))"
      by (simp add: Let_def e)
    ultimately show ?thesis by (simp only: vm_walk_def)
  qed
  have add: "add64 (top_level v) (HHDM_OFFSET s) = Some (top_level v + HHDM_OFFSET s)"
    "present e3 \<Longrightarrow> add64 (entry_addr e3) (HHDM_OFFSET s) = Some (entry_addr e3 + HHDM_OFFSET s)"
    "present e3 \<Longrightarrow> present e2 \<Longrightarrow> \<not> leaf 2 e2 \<Longrightarrow>
       add64 (entry_addr e2) (HHDM_OFFSET s) = Some (entry_addr e2 + HHDM_OFFSET s)"
    "present e3 \<Longrightarrow> present e2 \<Longrightarrow> \<not> leaf 2 e2 \<Longrightarrow> present e1 \<Longrightarrow> \<not> leaf (Suc 0) e1 \<Longrightarrow>
       add64 (entry_addr e1) (HHDM_OFFSET s) = Some (entry_addr e1 + HHDM_OFFSET s)"
    using pmm_tables.tree_inv_basic(7)[of s, unfolded h] i3 i2 i1 i0 by blast+
  show ?thesis unfolding walk
    using add by (simp add: Vmm_translate_def True table_mut_def entry_slot_ok[OF x] x86_simps[OF x] Let_def
      page_translation_def offset_add page_offset e leaf_def flip: present_def entry_addr_def)
qed (simp add: Vmm_translate_def)

section \<open>Entries of mapped pages\<close>

fun leaf_bits :: "x86 \<Rightarrow> u64 \<Rightarrow> PageSize \<Rightarrow> u64" where
  "leaf_bits X flags Base = flags OR FLAG_P X"
| "leaf_bits X flags Large = pd_leaf X flags"
| "leaf_bits X flags Huge = pdpt_leaf X flags"

definition COMMON_FLAGS :: u64 where "COMMON_FLAGS = 0x800000000000011E"

lemma trunc_and:
  assumes "trunc_ok trunc"
  obtains all where "\<And>w. trunc w = w AND all" "NAMED_FLAGS AND all = NAMED_FLAGS"
  using assms unfolding trunc_ok_def by auto

lemma x86_trunc:
  assumes "x86_ok X"
  shows "trunc_ok (PTFlags_from_bits_truncate X)" "trunc_ok (PDPTFlags_from_bits_truncate X)"
    "trunc_ok (PDFlags_from_bits_truncate X)" "PTFlags_from_bits_truncate X ADDRESS_MASK = 0"
  using assms by (simp_all add: x86_ok_def x86_flags_def)

lemma trunc_common:
  assumes "trunc_ok trunc"
  shows "trunc (w AND COMMON_FLAGS) = w AND COMMON_FLAGS"
proof -
  obtain all where a: "\<And>w. trunc w = w AND all" "NAMED_FLAGS AND all = NAMED_FLAGS" using trunc_and[OF assms] by metis
  have "COMMON_FLAGS = COMMON_FLAGS AND NAMED_FLAGS" by (simp add: COMMON_FLAGS_def NAMED_FLAGS_def)
  then have "COMMON_FLAGS AND all = COMMON_FLAGS" using a(2) by (metis and.assoc)
  then show ?thesis by (simp add: a(1) and.assoc)
qed

lemma big_leaf:
  assumes x: "x86_ok X"
  shows "pd_leaf X flags = (flags AND COMMON_FLAGS) OR 129" "pdpt_leaf X flags = (flags AND COMMON_FLAGS) OR 129"
proof -
  have "FLAG_RW X OR FLAG_US X OR FLAG_PWT X OR FLAG_PCD X OR FLAG_G X OR FLAG_XD X = COMMON_FLAGS"
    by (simp add: x86_simps[OF x] COMMON_FLAGS_def)
  then show "pd_leaf X flags = (flags AND COMMON_FLAGS) OR 129" "pdpt_leaf X flags = (flags AND COMMON_FLAGS) OR 129"
    using trunc_common[OF x86_trunc(2)[OF x]] trunc_common[OF x86_trunc(3)[OF x]]
    by (simp_all add: pd_leaf_def pdpt_leaf_def x86_simps[OF x] or.assoc)
qed

lemma leaf_bits_ok:
  assumes x: "x86_ok X" and fl: "flags AND ADDRESS_MASK = 0"
  shows "leaf_bits X flags sz AND ADDRESS_MASK = 0" "bit (leaf_bits X flags sz) 0"
    "sz \<noteq> Base \<Longrightarrow> bit (leaf_bits X flags sz) 7"
proof -
  have "1 AND ADDRESS_MASK = 0" "COMMON_FLAGS AND ADDRESS_MASK = 0" "129 AND ADDRESS_MASK = 0"
    by (simp_all add: ADDRESS_MASK_def COMMON_FLAGS_def)
  then show "leaf_bits X flags sz AND ADDRESS_MASK = 0"
    using fl by (cases sz) (simp_all add: big_leaf[OF x] x86_simps[OF x] bit.conj_disj_distrib2 and.assoc)
  have "bit (129 :: u64) 0" "bit (129 :: u64) 7" by simp_all
  then show "bit (leaf_bits X flags sz) 0" "sz \<noteq> Base \<Longrightarrow> bit (leaf_bits X flags sz) 7"
    by (cases sz; simp add: big_leaf[OF x] x86_simps[OF x] bit_or_iff)+
qed

lemma leaf_entry:
  assumes x: "x86_ok X" and fl: "flags AND ADDRESS_MASK = 0" and pa: "aligned phys" "unat phys < 2 ^ 52"
  shows "leaf_new X phys flags sz = Some (phys OR leaf_bits X flags sz)"
    "present (phys OR leaf_bits X flags sz)" "leaf (page_level sz) (phys OR leaf_bits X flags sz)"
    "entry_addr (phys OR leaf_bits X flags sz) = phys"
    "PTFlags_from_bits_truncate X (phys OR leaf_bits X flags sz) =
       PTFlags_from_bits_truncate X (leaf_bits X flags sz)"
proof -
  note lb = leaf_bits_ok[OF x fl]
  have "frame_of phys < 2 ^ 40" using pa(2) by (simp add: frame_of_def)
  then have m: "phys AND ADDRESS_MASK = phys" by (rule mask_id[OF pa(1)])
  show "leaf_new X phys flags sz = Some (phys OR leaf_bits X flags sz)"
    using x86_new[OF x m] lb(1)[of sz] by (cases sz) simp_all
  show "entry_addr (phys OR leaf_bits X flags sz) = phys" using entry_addr_or[OF m lb(1)] .
  show "present (phys OR leaf_bits X flags sz)" using lb(2) by (simp add: present_def bit_or_iff)
  show "leaf (page_level sz) (phys OR leaf_bits X flags sz)"
    using lb(3)[of sz] by (cases sz) (simp_all add: leaf_def bit_or_iff)
  obtain all where a: "\<And>w. PTFlags_from_bits_truncate X w = w AND all" "all AND ADDRESS_MASK = 0"
    using trunc_and[OF x86_trunc(1)[OF x]] x86_trunc(4)[OF x] by (metis and.commute)
  have "phys AND all = (phys AND ADDRESS_MASK) AND all" by (simp only: m)
  also have "\<dots> = 0" using a(2) by (simp add: and.assoc and.commute[of ADDRESS_MASK])
  finally have "phys AND all = 0" .
  then show "PTFlags_from_bits_truncate X (phys OR leaf_bits X flags sz) =
      PTFlags_from_bits_truncate X (leaf_bits X flags sz)" by (simp add: a(1) bit.conj_disj_distrib2)
qed

lemma parent_new_ok:
  assumes x: "x86_ok X" and f: "aligned f" "frame_of f < 2 ^ 40"
  shows "parent_new X l f = Some (f OR 7)"
proof -
  have "(7 :: u64) AND ADDRESS_MASK = 0" by (simp add: ADDRESS_MASK_def)
  from x86_new[OF x mask_id[OF f] this] show ?thesis
    by (simp add: parent_new_def pml4_parent_def pdpt_parent_def pd_parent_def x86_simps[OF x])
qed

section \<open>The kernel's functions\<close>

lemma map_guard_None:
  assumes "x86_ok X" "map_guard X virt phys sz = None"
  shows "is_canonical virt" "2 ^ (12 + 9 * page_level sz) dvd unat virt" "aligned phys"
proof -
  have g: "is_canonical virt" "is_multiple_of virt (PageSize_bytes X sz)" "is_multiple_of phys (PageSize_bytes X sz)"
    using assms(2) by (auto simp: map_guard_def split: if_splits)
  show "is_canonical virt" "2 ^ (12 + 9 * page_level sz) dvd unat virt" using g bytes_multiple[OF assms(1)] by blast+
  have "2 ^ 12 dvd (2 :: nat) ^ (12 + 9 * page_level sz)" by (rule le_imp_power_dvd) simp
  then have "2 ^ 12 dvd unat phys" using g(3) bytes_multiple[OF assms(1)] dvd_trans by blast
  then show "aligned phys" by (simp add: aligned_def)
qed

lemma Vmm_map_ok:
  assumes x: "x86_ok X" and inv: "vm_inv v s" and g: "map_guard X virt phys sz = None"
    and pa: "unat phys < 2 ^ 52" and fl: "flags AND ADDRESS_MASK = 0"
  obtains r s' where "Vmm_map X v virt phys flags sz s = Some (r, s')"
    "pmm_tables.map_post virt (phys OR leaf_bits X flags sz) (page_level sz) 3 (top_level v) s r s'"
proof -
  note le = leaf_entry[OF x fl map_guard_None(3)[OF x g] pa, of sz]
  have i: "pmm_tables.tree_inv s 3 (top_level v)" "pmm_hhdm s = HHDM_OFFSET s" using inv by (simp_all add: vm_inv_tree)
  have "\<exists>r s'. kernel_walk_map X (HHDM_OFFSET s) virt phys flags sz 3 (top_level v) s = Some (r, s') \<and>
      pmm_tables.map_post virt (phys OR leaf_bits X flags sz) (page_level sz) 3 (top_level v) s r s'"
    unfolding kernel_walk_map_def le(1)
    by (rule pmm_tables.walk_map_ok[OF x _ le(2,3) i(1) page_level_le(2) i(2)]) (rule parent_new_ok[OF x])
  then show thesis using that g by (auto simp: Vmm_map_eq[OF x])
qed

text \<open>
  A physical address of more than 52 bits does not fit an entry: the constructor panics where the entry would
  be written, and the walk up to there is that for any other address.
\<close>

lemma Vmm_map_result:
  assumes x: "x86_ok X" and inv: "vm_inv v s" and g: "map_guard X virt phys sz = None" and fl: "flags AND ADDRESS_MASK = 0"
  obtains e r s' where
    "Vmm_map X v virt phys flags sz s = (if r = Inr () \<and> 2 ^ 52 \<le> unat phys then None else Some (r, s'))"
    "pmm_tables.map_post virt e (page_level sz) 3 (top_level v) s r s'"
proof (cases "unat phys < 2 ^ 52")
  case True
  from Vmm_map_ok[OF x inv g this fl] show thesis using that True by (metis not_le)
next
  case False
  have "phys AND ADDRESS_MASK \<noteq> phys" using False entry_addr_bound[of phys] by (auto simp: entry_addr_def)
  from x86_new_panics[OF x this] leaf_bits_ok(1)[OF x fl, of sz]
  have n: "leaf_new X phys flags sz = None" by (cases sz) simp_all
  have g0: "map_guard X virt 0 sz = None" using g by (auto simp: map_guard_def is_multiple_of_def split: if_splits)
  from leaf_entry(1)[OF x fl map_guard_None(3)[OF x g0], of sz] obtain e where l: "leaf_new X 0 flags sz = Some e" by auto
  have "unat (0 :: u64) < 2 ^ 52" by simp
  then obtain r s' where r: "Vmm_map X v virt 0 flags sz s = Some (r, s')"
    "pmm_tables.map_post virt (0 OR leaf_bits X flags sz) (page_level sz) 3 (top_level v) s r s'"
    by (rule Vmm_map_ok[OF x inv g0 _ fl])
  then have "kernel_walk_map X (HHDM_OFFSET s) virt 0 flags sz 3 (top_level v) s = Some (r, s')"
    using g0 by (simp add: Vmm_map_eq[OF x])
  then have "Vmm_map X v virt phys flags sz s = (case Some (r, s') of Some (Inr _, _) \<Rightarrow> None | rs \<Rightarrow> rs)"
    using g unfolding Vmm_map_eq[OF x] kernel_walk_map_def n l walk_map_no_leaf[where e = e] by simp
  then show thesis using that[OF _ r(2)] False by (cases r) auto
qed

lemma Vmm_unmap_ok:
  assumes x: "x86_ok X" and inv: "vm_inv v s" and g: "unmap_guard X virt sz = None"
  obtains r s' where "Vmm_unmap X v virt sz s = Some (r, s')"
    "pmm_tables.unmap_post virt (page_level sz) 3 (top_level v) s r s'"
proof -
  from pmm_tables.walk_unmap_ok[OF x, of s 3 "top_level v" "page_level sz" "HHDM_OFFSET s" virt, OF _ page_level_le(2)] inv
  show thesis using that g by (auto simp: vm_inv_tree Vmm_unmap_eq[OF x])
qed

text \<open>The results in terms of the kernel's state.\<close>

lemma map_post_vm:
  assumes "vm_inv v s" "pmm_tables.map_post virt e t 3 (top_level v) s r s'"
  shows "vm_inv v s'" "vm_tables v s \<subseteq> vm_tables v s'"
    "vm_tables v s' \<union> pmm_avail s' = vm_tables v s \<union> pmm_avail s" "HHDM_OFFSET s' = HHDM_OFFSET s"
    "VMM s' = VMM s" "CR3 s' = CR3 s"
    "r = Inl AlreadyMapped \<Longrightarrow> s' = s"
    "r = Inl OutOfMemory \<Longrightarrow> pmm_avail s' = pmm_avail s \<and> tlb s' = tlb s \<and> vm_walk v s' = vm_walk v s"
    "r = Inr () \<Longrightarrow> tlb s' = tlb s @ [Flush virt] \<and>
       vm_walk v s' w = (if same_page t 3 virt w then Some (t, e) else vm_walk v s w)"
    "r = (if occupied (kmem s) (HHDM_OFFSET s) t virt 3 (top_level v) then Inl AlreadyMapped
       else if card (pmm_avail s) < missing (kmem s) (HHDM_OFFSET s) t virt 3 (top_level v) then Inl OutOfMemory
       else Inr ())"
    "agree_off (frame_words (HHDM_OFFSET s) (vm_tables v s \<union> pmm_avail s)) (kmem s) (kmem s')"
proof -
  have h: "pmm_hhdm s = HHDM_OFFSET s" using assms(1) by (simp add: vm_inv_def)
  note p = assms(2)[unfolded pmm_tables.map_post_def Let_def h]
  show h': "HHDM_OFFSET s' = HHDM_OFFSET s" "VMM s' = VMM s" "CR3 s' = CR3 s"
    using p by (simp_all add: vrest_def)
  show "vm_inv v s'" using p h' by (simp add: vm_inv_tree)
  show "vm_tables v s \<subseteq> vm_tables v s'" "vm_tables v s' \<union> pmm_avail s' = vm_tables v s \<union> pmm_avail s"
    "agree_off (frame_words (HHDM_OFFSET s) (vm_tables v s \<union> pmm_avail s)) (kmem s) (kmem s')"
    using p unfolding vm_tables_def h' by blast+
  show "r = Inl AlreadyMapped \<Longrightarrow> s' = s" using p by blast
  show "r = Inl OutOfMemory \<Longrightarrow> pmm_avail s' = pmm_avail s \<and> tlb s' = tlb s \<and> vm_walk v s' = vm_walk v s"
    using p unfolding vm_walk_def h' by blast
  show "r = Inr () \<Longrightarrow> tlb s' = tlb s @ [Flush virt] \<and>
      vm_walk v s' w = (if same_page t 3 virt w then Some (t, e) else vm_walk v s w)"
    using p unfolding vm_walk_def h' by blast
  show "r = (if occupied (kmem s) (HHDM_OFFSET s) t virt 3 (top_level v) then Inl AlreadyMapped
      else if card (pmm_avail s) < missing (kmem s) (HHDM_OFFSET s) t virt 3 (top_level v) then Inl OutOfMemory
      else Inr ())" using p by blast
qed

lemma unmap_post_vm:
  assumes "vm_inv v s" "pmm_tables.unmap_post virt t 3 (top_level v) s r s'"
  shows "vm_inv v s'" "vm_tables v s' \<subseteq> vm_tables v s"
    "vm_tables v s' \<union> pmm_avail s' = vm_tables v s \<union> pmm_avail s" "HHDM_OFFSET s' = HHDM_OFFSET s"
    "VMM s' = VMM s" "CR3 s' = CR3 s"
    "r \<noteq> Inr () \<Longrightarrow> s' = s"
    "r = Inr () \<Longrightarrow> tlb s' = tlb s @ Flush virt # replicate (card (vm_emptied v s t virt)) FlushAll \<and>
       vm_walk v s' w = (if same_page t 3 virt w then None else vm_walk v s w)"
    "r = (if \<exists>e. vm_walk v s virt = Some (t, e) then Inr () else Inl NotMapped)"
    "agree_off (frame_words (HHDM_OFFSET s) (vm_tables v s \<union> pmm_avail s)) (kmem s) (kmem s')"
    "r = Inr () \<Longrightarrow> vm_tables v s' = vm_tables v s - vm_emptied v s t virt \<and>
       pmm_avail s' = pmm_avail s \<union> vm_emptied v s t virt \<and> vm_emptied v s t virt \<subseteq> vm_tables v s"
proof -
  have h: "pmm_hhdm s = HHDM_OFFSET s" using assms(1) by (simp add: vm_inv_def)
  note p = assms(2)[unfolded pmm_tables.unmap_post_def Let_def h]
  show h': "HHDM_OFFSET s' = HHDM_OFFSET s" "VMM s' = VMM s" "CR3 s' = CR3 s"
    using p by (cases "r = Inr ()"; simp add: vrest_def)+
  show i: "vm_inv v s'" using p h' assms(1) by (cases "r = Inr ()") (simp_all add: vm_inv_tree)
  show "vm_tables v s' \<subseteq> vm_tables v s" "vm_tables v s' \<union> pmm_avail s' = vm_tables v s \<union> pmm_avail s"
    "agree_off (frame_words (HHDM_OFFSET s) (vm_tables v s \<union> pmm_avail s)) (kmem s) (kmem s')"
    using p unfolding vm_tables_def h' by (cases "r = Inr ()"; auto)+
  show "r \<noteq> Inr () \<Longrightarrow> s' = s" using p by blast
  show "r = Inr () \<Longrightarrow> tlb s' = tlb s @ Flush virt # replicate (card (vm_emptied v s t virt)) FlushAll \<and>
      vm_walk v s' w = (if same_page t 3 virt w then None else vm_walk v s w)"
    using p unfolding vm_walk_def vm_emptied_def h' by blast
  show "vm_tables v s' = vm_tables v s - vm_emptied v s t virt \<and> pmm_avail s' = pmm_avail s \<union> vm_emptied v s t virt \<and>
      vm_emptied v s t virt \<subseteq> vm_tables v s" if "r = Inr ()"
  proof -
    have "vm_tables v s' = vm_tables v s - vm_emptied v s t virt" "vm_emptied v s t virt \<subseteq> vm_tables v s"
      "vm_tables v s' \<union> pmm_avail s' = vm_tables v s \<union> pmm_avail s"
      using p that unfolding vm_tables_def vm_emptied_def h' by blast+
    then show ?thesis using i assms(1) unfolding vm_inv_def by blast
  qed
  show "r = (if \<exists>e. vm_walk v s virt = Some (t, e) then Inr () else Inl NotMapped)"
    using p unfolding vm_walk_def by blast
qed

lemma page_offset_word:
  assumes "2 ^ n dvd unat virt" "virt \<le> w" "unat w < unat virt + 2 ^ n"
  shows "take_bit n w = w - virt"
proof -
  obtain q where q: "unat virt = 2 ^ n * q" using assms(1) by (auto elim: dvdE)
  have "unat w mod 2 ^ n = (unat w - unat virt) mod 2 ^ n" using q assms(2)
    by (metis mod_mult_self2 le_add_diff_inverse2 word_le_nat_alt add.commute)
  also have "\<dots> = unat w - unat virt" using assms(3) by (intro mod_less) (use assms(2) in \<open>simp add: word_le_nat_alt\<close>)
  finally have "unat (take_bit n w) = unat w - unat virt"
    by (simp only: unsigned_take_bit_eq) (simp add: take_bit_eq_mod)
  then show ?thesis using assms(2) by (simp add: word_unat_eq_iff unat_sub)
qed

end
