(* ===== verification/Heap_Correct.thy ===== *)
theory Heap_Correct
  imports Heap_Lists Vmm_Props
begin

text \<open>
  The operations of the heap on the kernel state: the invariant that joins the lists of
  \<open>Heap_Lists\<close> to the physical allocator, and what each operation does to it.
\<close>

section \<open>The invariant\<close>

text \<open>
  The ghost state of the heap is the bucket of each slab frame, the objects in use, and the
  large blocks in use, each by its first frame and its order.
\<close>

record heap_view =
  slabs_of :: "nat \<rightharpoonup> nat"
  used_of :: "u64 set"
  bigs_of :: "(nat \<times> nat) set"

definition big_frames :: "(nat \<times> nat) set \<Rightarrow> nat set" where
  "big_frames B = (\<Union>(f, k)\<in>B. run f k)"

definition heap_frames :: "heap_view \<Rightarrow> nat set" where
  "heap_frames g = dom (slabs_of g) \<union> big_frames (bigs_of g)"

definition bigs_ok :: "nat \<Rightarrow> (nat \<times> nat) set \<Rightarrow> bool" where
  "bigs_ok n B \<longleftrightarrow> (\<forall>f k. (f, k) \<in> B \<longrightarrow> k \<le> MAX_ORDER \<and> 2 ^ k dvd f \<and> run f k \<subseteq> {..<n}) \<and>
     (\<forall>f k f' k'. (f, k) \<in> B \<longrightarrow> (f', k') \<in> B \<longrightarrow> (f, k) \<noteq> (f', k') \<longrightarrow> run f k \<inter> run f' k' = {})"

definition heap_inv :: "heap_view \<Rightarrow> 'a hkernel_scheme \<Rightarrow> bool" where
  "heap_inv g s \<longleftrightarrow> pmm_ok s \<and> pmm_hhdm s = HHDM_OFFSET s \<and> 4096 dvd unat (HHDM_OFFSET s) \<and>
     heap_lists (kmem s) (HHDM_OFFSET s) (pmm_total s) (active_slab (ALLOCATOR s)) (partial_slabs (ALLOCATOR s))
       (slabs_of g) (used_of g) \<and>
     bigs_ok (pmm_total s) (bigs_of g) \<and> dom (slabs_of g) \<inter> big_frames (bigs_of g) = {} \<and>
     heap_frames g \<inter> pmm_avail s = {}"

lemma heap_invD:
  assumes "heap_inv g s"
  shows "pmm_ok s" "pmm_hhdm s = HHDM_OFFSET s" "4096 dvd unat (HHDM_OFFSET s)"
    "heap_lists (kmem s) (HHDM_OFFSET s) (pmm_total s) (active_slab (ALLOCATOR s)) (partial_slabs (ALLOCATOR s))
       (slabs_of g) (used_of g)"
    "bigs_ok (pmm_total s) (bigs_of g)" "dom (slabs_of g) \<inter> big_frames (bigs_of g) = {}"
    "heap_frames g \<inter> pmm_avail s = {}" "fits (HHDM_OFFSET s) (pmm_total s)" "pmm_avail s \<subseteq> {..<pmm_total s}"
    "heap_frames g \<subseteq> {..<pmm_total s}"
proof -
  show "pmm_ok s" "pmm_hhdm s = HHDM_OFFSET s" "4096 dvd unat (HHDM_OFFSET s)"
    and hl: "heap_lists (kmem s) (HHDM_OFFSET s) (pmm_total s) (active_slab (ALLOCATOR s)) (partial_slabs (ALLOCATOR s))
       (slabs_of g) (used_of g)"
    and B: "bigs_ok (pmm_total s) (bigs_of g)"
    and "dom (slabs_of g) \<inter> big_frames (bigs_of g) = {}" "heap_frames g \<inter> pmm_avail s = {}"
    using assms by (simp_all add: heap_inv_def)
  then show "fits (HHDM_OFFSET s) (pmm_total s)" "pmm_avail s \<subseteq> {..<pmm_total s}"
    using pmm_pages.frames_fit pmm_pages.avail_total by (metis, blast)
  show "heap_frames g \<subseteq> {..<pmm_total s}"
    using heap_listsD(4)[OF hl] B by (fastforce simp: heap_frames_def big_frames_def bigs_ok_def)
qed

text \<open>The words the heap may write: those of its slabs outside the objects in use.\<close>

definition slab_words :: "u64 \<Rightarrow> heap_view \<Rightarrow> u64 set" where
  "slab_words h g = frame_words h (dom (slabs_of g)) - used_words h (slabs_of g) (used_of g)"

text \<open>The parts of the state the heap leaves alone, besides memory.\<close>

definition hrest :: "'a hkernel_scheme \<Rightarrow> u64 \<times> Vmm option \<times> u64 \<times> tlb_op list \<times> nat \<times> u64 \<times> 'a" where
  "hrest s = (HHDM_OFFSET s, VMM s, CR3 s, tlb s, pmm_total s, pmm_hhdm s, hkernel.more s)"

lemma hrest_simps [simp]:
  "hrest (kmem_update f s) = hrest s" "hrest (ALLOCATOR_update f' s) = hrest s"
  by (simp_all add: hrest_def pmm_total_def pmm_hhdm_def)

lemma kernel_more_hrest:
  fixes s s' :: "'a hkernel_scheme"
  assumes "kernel.more s' = kernel.more s"
  shows "HHDM_OFFSET s' = HHDM_OFFSET s" "ALLOCATOR s' = ALLOCATOR s"
    "pmm_total s' = pmm_total s \<Longrightarrow> pmm_hhdm s' = pmm_hhdm s \<Longrightarrow> hrest s' = hrest s"
  using assms by (cases s; cases s'; simp add: hrest_def)+

lemma slab_at_simps [simp]:
  "slab_free (slab_at m p) = dec_ptr (m (p + 8))" "slab_next (slab_at m p) = dec_ptr (m p)"
  by (simp_all add: slab_at_def)

lemma pop_obj_simps [simp]:
  "kmem (pop_obj a p s) = (kmem s)(a + 8 := kmem s p)" "PMM (pop_obj a p s) = PMM s"
  "ALLOCATOR (pop_obj a p s) = ALLOCATOR s" "hrest (pop_obj a p s) = hrest s" "HHDM_OFFSET (pop_obj a p s) = HHDM_OFFSET s"
  by (simp_all add: pop_obj_def set_slab_free_def FreeObj_next_def)

text \<open>A step that only writes slab words keeps the allocator's part of the invariant.\<close>

lemma heap_write:
  fixes s s' :: "'a hkernel_scheme"
  assumes inv: "heap_inv g s" and pmm: "PMM s' = PMM s" and h: "HHDM_OFFSET s' = HHDM_OFFSET s"
    and ag: "agree_off (frame_words (HHDM_OFFSET s) (dom (slabs_of g))) (kmem s) (kmem s')"
    and hl: "heap_lists (kmem s') (HHDM_OFFSET s) (pmm_total s) (active_slab (ALLOCATOR s')) (partial_slabs (ALLOCATOR s'))
       (slabs_of g) U"
  shows "heap_inv (g\<lparr>used_of := U\<rparr>) s'" "pmm_avail s' = pmm_avail s"
proof -
  note i = heap_invD[OF inv]
  have "dom (slabs_of g) \<subseteq> {..<pmm_total s}" "dom (slabs_of g) \<inter> pmm_avail s = {}"
    using i(7,10) by (auto simp: heap_frames_def)
  note w = pmm_tables.write_ok[OF i(1) pmm ag[folded i(2)] this]
  show "pmm_avail s' = pmm_avail s" by (rule w)
  show "heap_inv (g\<lparr>used_of := U\<rparr>) s'"
    using i(2,3,5-7) w hl h unfolding heap_inv_def heap_frames_def by simp
qed

section \<open>Small objects\<close>

text \<open>The result of \<open>alloc_small\<close>: refused, or an object of an old or a fresh slab.\<close>

definition small_post :: "heap_view \<Rightarrow> 'a hkernel_scheme \<Rightarrow> nat \<Rightarrow> u64 \<Rightarrow> 'a hkernel_scheme \<Rightarrow> bool" where
  "small_post g s b p s' \<longleftrightarrow> hrest s' = hrest s \<and>
     agree_off (frame_words (HHDM_OFFSET s) (pmm_avail s) \<union> slab_words (HHDM_OFFSET s) g) (kmem s) (kmem s') \<and>
     (if p = 0 then heap_inv g s' \<and> pmm_avail s = {} \<and> pmm_avail s' = {} \<and>
        (\<forall>f. slabs_of g f = Some b \<longrightarrow> objects (HHDM_OFFSET s) b f \<subseteq> used_of g)
      else \<exists>f. (slabs_of g f = Some b \<and> pmm_avail s' = pmm_avail s \<or>
                f \<in> pmm_avail s \<and> pmm_avail s' = pmm_avail s - {f}) \<and>
           p \<in> objects (HHDM_OFFSET s) b f - used_of g \<and>
           heap_inv (g\<lparr>slabs_of := (slabs_of g)(f \<mapsto> b), used_of := insert p (used_of g)\<rparr>) s')"

lemma used_words_fresh:
  assumes hl: "heap_lists m h n A P slabs U" and f: "slabs f = None" "f < n" and b: "b < 7"
  shows "U \<inter> objects h b f = {}" "used_words h (slabs(f \<mapsto> b)) U = used_words h slabs U"
proof -
  note d = heap_listsD[OF hl]
  show U: "U \<inter> objects h b f = {}"
  proof (rule ccontr)
    assume "U \<inter> objects h b f \<noteq> {}"
    then obtain x g c where x: "x \<in> objects h b f" "slabs g = Some c" "x \<in> objects h c g" using d(6) by fastforce
    then have "g \<noteq> f" "g < n" "c < 7" using f(1) d(4)[OF x(2)] by auto
    with objects_disjoint[OF d(1) f(2) _ b, of g c] x show False by blast
  qed
  have eq: "{(g, c). (slabs(f \<mapsto> b)) g = Some c} = insert (f, b) {(g, c). slabs g = Some c}" using f(1) by (auto split: if_splits)
  show "used_words h (slabs(f \<mapsto> b)) U = used_words h slabs U" unfolding used_words_def eq using U by auto
qed

lemma pop_post:
  assumes inv: "heap_inv g s" and b: "b < 7" and act: "active_slab (ALLOCATOR s) ! b = Some (fptr (HHDM_OFFSET s) f)"
    "slabs_of g f = Some b" and w: "kmem s (fptr (HHDM_OFFSET s) f + 8) \<noteq> 0"
  defines "p \<equiv> kmem s (fptr (HHDM_OFFSET s) f + 8)"
  defines "s' \<equiv> pop_obj (fptr (HHDM_OFFSET s) f) p s"
  shows "p \<in> objects (HHDM_OFFSET s) b f - used_of g" "heap_inv (g\<lparr>used_of := insert p (used_of g)\<rparr>) s'"
    "pmm_avail s' = pmm_avail s" "p \<noteq> 0"
proof -
  note i = heap_invD[OF inv]
  note pop = heap_pop[OF i(4) b act refl w]
  show "p \<in> objects (HHDM_OFFSET s) b f - used_of g" "p \<noteq> 0" using pop(1) w by (simp_all add: p_def)
  have "f \<in> dom (slabs_of g)" using act(2) by blast
  then have "agree_off (frame_words (HHDM_OFFSET s) (dom (slabs_of g))) (kmem s) (kmem s')"
    using header_frame_words(2) by (auto simp: agree_off_def s'_def)
  from heap_write[OF inv _ _ this, of "insert p (used_of g)"] pop(2)
  show "heap_inv (g\<lparr>used_of := insert p (used_of g)\<rparr>) s'" "pmm_avail s' = pmm_avail s" by (simp_all add: s'_def p_def)
qed

text \<open>After the slab is chosen, \<open>alloc_small\<close> ends with \<open>pop_obj\<close>.\<close>

definition small_words :: "heap_view \<Rightarrow> 'a hkernel_scheme \<Rightarrow> u64 set" where
  "small_words g s = frame_words (HHDM_OFFSET s) (pmm_avail s) \<union> slab_words (HHDM_OFFSET s) g"

lemma slab_header_word:
  assumes "heap_inv g s" "slabs_of g f = Some b"
  shows "fptr (HHDM_OFFSET s) f \<in> slab_words (HHDM_OFFSET s) g" "fptr (HHDM_OFFSET s) f + 8 \<in> slab_words (HHDM_OFFSET s) g"
proof -
  have "f \<in> dom (slabs_of g)" using assms(2) by blast
  note w = header_frame_words[OF this, of "HHDM_OFFSET s"]
  from w show "fptr (HHDM_OFFSET s) f \<in> slab_words (HHDM_OFFSET s) g" "fptr (HHDM_OFFSET s) f + 8 \<in> slab_words (HHDM_OFFSET s) g"
    using own_words(1,2)[OF heap_invD(4)[OF assms(1)] assms(2)] unfolding slab_words_def by blast+
qed

lemma pop_small_post:
  assumes inv: "heap_inv g s" and b: "b < 7"
    and f: "slabs_of g f = Some b \<and> pmm_avail s1 = pmm_avail s \<or> f \<in> pmm_avail s \<and> pmm_avail s1 = pmm_avail s - {f}"
    and inv1: "heap_inv (g\<lparr>slabs_of := (slabs_of g)(f \<mapsto> b)\<rparr>) s1" and rest: "hrest s1 = hrest s"
    and ag: "agree_off (small_words g s) (kmem s) (kmem s1)"
    and act: "active_slab (ALLOCATOR s1) ! b = Some (fptr (HHDM_OFFSET s) f)" and w: "kmem s1 (fptr (HHDM_OFFSET s) f + 8) \<noteq> 0"
  defines "p \<equiv> kmem s1 (fptr (HHDM_OFFSET s) f + 8)"
  shows "small_post g s b p (pop_obj (fptr (HHDM_OFFSET s) f) p s1)"
proof -
  have h: "HHDM_OFFSET s1 = HHDM_OFFSET s" using rest by (simp add: hrest_def)
  have "fptr (HHDM_OFFSET s) f + 8 \<in> small_words g s"
    using f header_frame_words(2)[of f "pmm_avail s"] slab_header_word(2)[OF inv, of f b] unfolding small_words_def by blast
  then have "agree_off (small_words g s) (kmem s) (kmem (pop_obj (fptr (HHDM_OFFSET s) f) p s1))"
    using ag by (auto simp: agree_off_def)
  moreover note pop_post[OF inv1 b, unfolded h, of f, OF act _ w]
  ultimately show ?thesis
    using f rest unfolding small_post_def small_words_def[symmetric] by (auto simp: p_def)
qed

lemma alloc_small_fast:
  assumes "heap_inv g s" "b < 7" "active_slab (ALLOCATOR s) ! b = Some a" "kmem s (a + 8) \<noteq> 0"
  shows "\<exists>p s'. alloc_small b s = Some (p, s') \<and> small_post g s b p s'"
proof -
  note i = heap_invD[OF assms(1)]
  obtain f where f: "slabs_of g f = Some b" "a = fptr (HHDM_OFFSET s) f"
    using active_slabE[OF i(4) assms(2,3)] by metis
  have "alloc_small b s = Some (kmem s (a + 8), pop_obj a (kmem s (a + 8)) s)"
    using assms(2-4) heap_listsD(2)[OF i(4)] by (simp add: alloc_small_def)
  moreover have "small_post g s b (kmem s (a + 8)) (pop_obj a (kmem s (a + 8)) s)"
    unfolding f(2) using assms f by (intro pop_small_post) auto
  ultimately show ?thesis by blast
qed

definition set_active :: "nat \<Rightarrow> u64 option \<Rightarrow> 'a hkernel_scheme \<Rightarrow> 'a hkernel_scheme" where
  "set_active b a s = s\<lparr>ALLOCATOR := (ALLOCATOR s)\<lparr>active_slab := (active_slab (ALLOCATOR s))[b := a]\<rparr>\<rparr>"

lemma set_active_simps [simp]:
  "kmem (set_active b a s) = kmem s" "PMM (set_active b a s) = PMM s" "HHDM_OFFSET (set_active b a s) = HHDM_OFFSET s"
  "active_slab (ALLOCATOR (set_active b a s)) = (active_slab (ALLOCATOR s))[b := a]"
  "partial_slabs (ALLOCATOR (set_active b a s)) = partial_slabs (ALLOCATOR s)" "hrest (set_active b a s) = hrest s"
  by (simp_all add: set_active_def)

definition pop_first :: "nat \<Rightarrow> u64 \<Rightarrow> 'a hkernel_scheme \<Rightarrow> (u64 \<times> 'a hkernel_scheme) option" where
  "pop_first b slab s = do {
     obj \<leftarrow> dec_ptr (kmem s (slab + 8));
     Some (obj, pop_obj slab obj (set_active b (Some slab) s)) }"

lemma alloc_small_slow:
  assumes "length (active_slab (ALLOCATOR s)) = 7" "b < 7"
    and "\<And>a. active_slab (ALLOCATOR s) ! b = Some a \<Longrightarrow> kmem s (a + 8) = 0"
  shows "alloc_small b s = do {
     (r, s) \<leftarrow> take_partial b (set_active b None s);
     (r, s) \<leftarrow> (case r of Some sl \<Rightarrow> Some (Some sl, s) | None \<Rightarrow> refill b s);
     check (length (active_slab (ALLOCATOR s)) > b \<or> r = None);
     (case r of Some slab \<Rightarrow> pop_first b slab s | None \<Rightarrow> Some (0, s)) }"
proof -
  have "Option.bind (active_slab (ALLOCATOR s) ! b) (\<lambda>a. map_option (Pair a) (slab_free (slab_at (kmem s) a))) = None"
    using assms(3) by (cases "active_slab (ALLOCATOR s) ! b") simp_all
  then show ?thesis using assms(1,2)
    by (auto simp: alloc_small_def set_active_def pop_first_def idx_set_def Let_def split_beta
        intro!: Option.bind_cong split: option.splits)
qed

lemma forget_inv:
  fixes s :: "'a hkernel_scheme"
  assumes inv: "heap_inv g s" and b: "b < 7" and full: "\<And>a. active_slab (ALLOCATOR s) ! b = Some a \<Longrightarrow> kmem s (a + 8) = 0"
  shows "heap_inv g (set_active b None s)" "pmm_avail (set_active b None s) = pmm_avail s"
proof -
  note i = heap_invD[OF inv]
  have "heap_lists (kmem s) (HHDM_OFFSET s) (pmm_total s) ((active_slab (ALLOCATOR s))[b := None])
      (partial_slabs (ALLOCATOR s)) (slabs_of g) (used_of g)" using full by (intro heap_forget[OF i(4) b]) blast
  with heap_write[OF inv, of "set_active b None s" "used_of g"]
  show "heap_inv g (set_active b None s)" "pmm_avail (set_active b None s) = pmm_avail s" by simp_all
qed

lemma alloc_small_partial:
  fixes s :: "'a hkernel_scheme"
  assumes inv: "heap_inv g s" and b: "b < 7" and none: "active_slab (ALLOCATOR s) ! b = None"
    and p: "partial_slabs (ALLOCATOR s) ! b = Some a"
  shows "\<exists>s1 p s'. take_partial b s = Some (Some a, s1) \<and> length (active_slab (ALLOCATOR s1)) = 7 \<and>
    pop_first b a s1 = Some (p, s') \<and> small_post g s b p s'"
proof -
  note i = heap_invD[OF inv]
  note d = heap_listsD[OF i(4)]
  obtain f where f: "a = fptr (HHDM_OFFSET s) f" "slabs_of g f = Some b" "f < pmm_total s"
    "kmem s (fptr (HHDM_OFFSET s) f + 8) \<noteq> 0"
    and hl: "heap_lists ((kmem s)(a := 0)) (HHDM_OFFSET s) (pmm_total s) ((active_slab (ALLOCATOR s))[b := Some a])
      ((partial_slabs (ALLOCATOR s))[b := dec_ptr (kmem s a)]) (slabs_of g) (used_of g)"
    by (rule heap_activate[OF i(4) b none p])
  define s1 where "s1 = s\<lparr>ALLOCATOR := (ALLOCATOR s)\<lparr>partial_slabs := (partial_slabs (ALLOCATOR s))[b := dec_ptr (kmem s a)]\<rparr>,
     kmem := (kmem s)(a := 0)\<rparr>"
  define s2 where "s2 = set_active b (Some a) s1"
  have t: "take_partial b s = Some (Some a, s1)"
    using b d(3) p by (simp add: take_partial_def s1_def set_slab_next_def)
  have w: "fptr (HHDM_OFFSET s) f \<in> slab_words (HHDM_OFFSET s) g" by (rule slab_header_word(1)[OF inv f(2)])
  then have "agree_off (frame_words (HHDM_OFFSET s) (dom (slabs_of g))) (kmem s) (kmem s2)"
    "agree_off (small_words g s) (kmem s) (kmem s2)"
    by (auto simp: s2_def s1_def f(1) agree_off_def slab_words_def small_words_def)
  moreover from heap_write[OF inv _ _ this(1), of "used_of g"] hl
  have "heap_inv g s2" "pmm_avail s2 = pmm_avail s" by (simp_all add: s2_def s1_def)
  moreover have ne: "kmem s2 (fptr (HHDM_OFFSET s) f + 8) = kmem s (fptr (HHDM_OFFSET s) f + 8)"
    using fptr_next_neq[OF d(1) f(3) f(3)] by (simp add: s2_def s1_def f(1))
  ultimately have "small_post g s b (kmem s2 (a + 8)) (pop_obj a (kmem s2 (a + 8)) s2)"
    unfolding f(1) using f b d(2) by (intro pop_small_post[OF inv b, of f s2]) (simp_all add: s2_def s1_def fun_upd_idem)
  moreover have "pop_first b a s1 = Some (kmem s2 (a + 8), pop_obj a (kmem s2 (a + 8)) s2)"
    using ne f(4) by (simp add: pop_first_def s2_def f(1))
  ultimately show ?thesis using t d(2) by (auto simp: s1_def)
qed

lemma objects_nonempty: "b < 7 \<Longrightarrow> objects h b f \<noteq> {}"
  by (erule bucket_cases) (auto simp: objects_def slots_def lessThan_empty_iff)

lemma heap_lists_alloc:
  assumes inv: "heap_inv g s" and ag: "agree_off (frame_words (HHDM_OFFSET s) S) (kmem s) m'"
    and S: "S \<subseteq> {..<pmm_total s}" "S \<inter> dom (slabs_of g) = {}"
  shows "heap_lists m' (HHDM_OFFSET s) (pmm_total s) (active_slab (ALLOCATOR s)) (partial_slabs (ALLOCATOR s))
    (slabs_of g) (used_of g)"
proof (rule heap_lists_frame[OF heap_invD(4)[OF inv]])
  have "dom (slabs_of g) \<subseteq> {..<pmm_total s}" using heap_invD(10)[OF inv] by (auto simp: heap_frames_def)
  from frame_words_disjoint[OF heap_invD(8)[OF inv] S(1) this S(2)] ag
  show "\<forall>a\<in>frame_words (HHDM_OFFSET s) (dom (slabs_of g)) - used_words (HHDM_OFFSET s) (slabs_of g) (used_of g). m' a = kmem s a"
    unfolding agree_off_def by blast
qed

text \<open>The frame \<open>refill\<close> received from the allocator becomes a slab.\<close>

lemma refill_frame:
  fixes s0 :: "'a hkernel_scheme"
  assumes inv: "heap_inv g s" and b: "b < 7" and f: "f \<in> pmm_avail s" and ok0: "pmm_ok s0"
    and av0: "pmm_avail s0 = pmm_avail s - {f}" and same: "pmm_total s0 = pmm_total s" "pmm_hhdm s0 = pmm_hhdm s"
    "HHDM_OFFSET s0 = HHDM_OFFSET s" "ALLOCATOR s0 = ALLOCATOR s"
    and ag: "agree_off (frame_words (pmm_hhdm s) (pmm_avail s)) (kmem s) (kmem s0)"
    and none: "active_slab (ALLOCATOR s) ! b = None"
    and ch: "chain m1 (enc_ptr head) (map (obj (HHDM_OFFSET s) b f) [0..<slots b])"
    and ag1: "agree_off (objects (HHDM_OFFSET s) b f) (kmem s0) m1"
  defines "base \<equiv> fptr (HHDM_OFFSET s) f"
  defines "s1 \<equiv> s0\<lparr>kmem := set_slab_free (set_slab_next m1 base None) base head\<rparr>"
  defines "s2 \<equiv> set_active b (Some base) s1"
  shows "heap_inv (g\<lparr>slabs_of := (slabs_of g)(f \<mapsto> b)\<rparr>) s2" "pmm_avail s2 = pmm_avail s - {f}"
    "agree_off (small_words g s) (kmem s) (kmem s2)" "kmem s2 (base + 8) \<noteq> 0"
proof -
  note i = heap_invD[OF inv]
  let ?h = "HHDM_OFFSET s" and ?n = "pmm_total s"
  have fn: "f < ?n" "f \<notin> heap_frames g" "slabs_of g f = None"
    using f i(7,9) by (auto simp: heap_frames_def)
  have hl: "heap_lists (kmem s0) ?h ?n (active_slab (ALLOCATOR s)) (partial_slabs (ALLOCATOR s)) (slabs_of g) (used_of g)"
    using ag[unfolded i(2)] i(7,9) by (intro heap_lists_alloc[OF inv]) (auto simp: heap_frames_def)
  note U = used_words_fresh(1)[OF hl fn(3,1) b]
  have k2: "kmem s2 = set_slab_free (set_slab_next m1 base None) base head" by (simp add: s2_def s1_def)
  have agf: "agree_off (frame_words ?h {f}) (kmem s0) (kmem s2)"
    using ag1 objects_frame_words[OF b, of f "{f}" ?h] header_frame_words[of f "{f}" ?h]
    by (auto simp: agree_off_def k2 set_slab_free_def set_slab_next_def base_def)
  have so: "slab_ok (kmem s2) ?h b f (used_of g)"
    unfolding k2 base_def by (rule refill_slab_ok[OF i(8) fn(1) b U ch])
  have hl2: "heap_lists (kmem s2) ?h ?n ((active_slab (ALLOCATOR s))[b := Some base]) (partial_slabs (ALLOCATOR s))
      ((slabs_of g)(f \<mapsto> b)) (used_of g)"
    unfolding base_def by (rule heap_fresh[OF hl b none fn(1,3) agf so])
  have w: "pmm_ok s2" "pmm_avail s2 = pmm_avail s0" "pmm_total s2 = pmm_total s0" "pmm_hhdm s2 = pmm_hhdm s0"
    using pmm_tables.write_ok[OF ok0, of s2 "{f}"] agf fn(1) same i(2) av0 by (auto simp: s2_def s1_def)
  then show "pmm_avail s2 = pmm_avail s - {f}" using av0 by simp
  show "kmem s2 (base + 8) \<noteq> 0"
    using slab_full_iff[OF so] U objects_nonempty[OF b, of ?h f] by (auto simp: base_def)
  show "agree_off (small_words g s) (kmem s) (kmem s2)"
  proof -
    have "frame_words ?h {f} \<subseteq> frame_words ?h (pmm_avail s)" using f by (intro frame_words_mono) simp
    then show ?thesis using ag[unfolded i(2)] agf unfolding agree_off_def small_words_def by auto
  qed
  show "heap_inv (g\<lparr>slabs_of := (slabs_of g)(f \<mapsto> b)\<rparr>) s2"
    using hl2 w same av0 i(2,3,5-7) fn(2) f unfolding heap_inv_def heap_frames_def
    by (auto simp: s2_def s1_def)
qed

lemma refill_ok:
  fixes s :: "'a hkernel_scheme"
  assumes inv: "heap_inv g s" and b: "b < 7" and none: "active_slab (ALLOCATOR s) ! b = None"
  obtains "refill b s = Some (None, s)" "pmm_avail s = {}"
  | f s1 where "refill b s = Some (Some (fptr (HHDM_OFFSET s) f), s1)" "f \<in> pmm_avail s"
      "length (active_slab (ALLOCATOR s1)) = 7" "hrest s1 = hrest s"
      "heap_inv (g\<lparr>slabs_of := (slabs_of g)(f \<mapsto> b)\<rparr>) (set_active b (Some (fptr (HHDM_OFFSET s) f)) s1)"
      "pmm_avail (set_active b (Some (fptr (HHDM_OFFSET s) f)) s1) = pmm_avail s - {f}"
      "agree_off (small_words g s) (kmem s) (kmem s1)" "kmem s1 (fptr (HHDM_OFFSET s) f + 8) \<noteq> 0"
proof -
  note i = heap_invD[OF inv]
  note rs = refill_sizes[OF b]
  have sl: "unat (word_of_nat (slots b) :: u64) = slots b" "0 < slots b"
    using slots_less[of b] by (simp add: unat_of_nat64) (rule bucket_cases[OF b]; simp add: slots_def)
  from i(1) show thesis
  proof (cases rule: pmm_pages.alloc_one_cases)
    case none
    then show thesis using that(1) rs(1) by (simp add: refill_def)
  next
    case (one a s0)
    let ?h = "HHDM_OFFSET s" and ?f = "frame_of a"
    note k = kernel_more_hrest[OF one(8)]
    have f: "?f < pmm_total s" using one(4) i(9) by auto
    have al: "aligned a" using one(3) by (simp add: aligned_def)
    have base: "add64 a ?h = Some (fptr ?h ?f)" using table_mut_ok[OF i(8) al f] aligned_fptr[OF al] by simp
    obtain head m1 where r: "refill_loop (fptr ?h ?f) (2 ^ (4 + b)) (2 ^ (4 + b)) (slots b) None (kmem s0) = Some (head, m1)"
       "chain m1 (enc_ptr head) (map (obj ?h b ?f) [0..<slots b])" "agree_off (objects ?h b ?f) (kmem s0) m1"
      using refill_loop_ok[OF i(8) f b, of "slots b" "kmem s0" None] by auto
    have c: "ucast (2 ^ (4 + b) :: u32) = (2 ^ (4 + b) :: u64)" by (rule bucket_cases[OF b]) simp_all
    have "(0 :: u64) < word_of_nat (slots b)" using sl by (simp add: word_less_nat_alt)
    define s1 where "s1 = s0\<lparr>kmem := set_slab_free (set_slab_next m1 (fptr ?h ?f) None) (fptr ?h ?f) head\<rparr>"
    have r1: "refill b s = Some (Some (fptr ?h ?f), s1)"
      using rs one(1) base r(1) sl(1) k(1) \<open>0 < word_of_nat (slots b)\<close>
      by (simp add: refill_def Let_def phys_to_virt_def c s1_def)
    note rf = refill_frame[OF inv b one(4,2,5,6,7) k(1,2) one(9) none r(2,3), folded s1_def]
    have "length (active_slab (ALLOCATOR s1)) = 7" "hrest s1 = hrest s"
      using k heap_listsD(2)[OF i(4)] one(6,7) by (simp_all add: s1_def)
    then show thesis by (rule that(2)[OF r1 one(4) _ _ rf(1,2) rf(3,4)[unfolded set_active_simps]])
  qed
qed

lemma no_free_object:
  assumes "heap_lists m h n A P slabs U" "b < 7" "A ! b = None" "P ! b = None"
  shows "\<forall>f. slabs f = Some b \<longrightarrow> objects h b f \<subseteq> U"
  using heap_listsD(5)[OF assms(1,2)] assms(3,4) by (auto simp: bucket_ok_def partial_set_def)

lemma small_post_forget:
  assumes "small_post g (set_active b None s) b p s'" "pmm_avail (set_active b None s) = pmm_avail s"
  shows "small_post g s b p s'"
  using assms(1) unfolding small_post_def set_active_simps assms(2) .

theorem alloc_small_ok:
  fixes s :: "'a hkernel_scheme"
  assumes inv: "heap_inv g s" and b: "b < 7"
  shows "\<exists>p s'. alloc_small b s = Some (p, s') \<and> small_post g s b p s'"
proof (cases "\<exists>a. active_slab (ALLOCATOR s) ! b = Some a \<and> kmem s (a + 8) \<noteq> 0")
  case True
  then show ?thesis using alloc_small_fast[OF inv b] by blast
next
  case False
  then have full: "\<And>a. active_slab (ALLOCATOR s) ! b = Some a \<Longrightarrow> kmem s (a + 8) = 0" by blast
  note l = heap_listsD(2,3)[OF heap_invD(4)[OF inv]]
  note slow = alloc_small_slow[of s b, OF l(1) b]
  define t where "t = set_active b None s"
  have t: "heap_inv g t" "pmm_avail t = pmm_avail s" using forget_inv[OF inv b] full unfolding t_def by blast+
  have none: "active_slab (ALLOCATOR t) ! b = None" using l(1) b by (simp add: t_def)
  show ?thesis
  proof (cases "partial_slabs (ALLOCATOR t) ! b")
    case (Some a)
    obtain s1 p s' where r: "take_partial b t = Some (Some a, s1)" "length (active_slab (ALLOCATOR s1)) = 7"
      "pop_first b a s1 = Some (p, s')" "small_post g t b p s'" using alloc_small_partial[OF t(1) b none Some] by blast
    then have "alloc_small b s = Some (p, s')" using slow full b by (simp add: t_def[symmetric])
    then show ?thesis using small_post_forget[of g b s p s'] r(4) t(2) unfolding t_def by blast
  next
    case None
    then have tp: "take_partial b t = Some (None, t)" using b l(2) by (simp add: take_partial_def t_def)
    from t(1) b none show ?thesis
    proof (cases rule: refill_ok)
      case 1
      then have "alloc_small b s = Some (0, t)" using slow full tp by (simp add: t_def[symmetric])
      moreover have "small_post g t b 0 t"
        using 1 t(1) no_free_object[OF heap_invD(4)[OF t(1)] b none None] by (simp add: small_post_def)
      ultimately show ?thesis using small_post_forget[of g b s 0 t] t(2) unfolding t_def by blast
    next
      case (2 f s1)
      let ?a = "fptr (HHDM_OFFSET t) f" and ?p = "kmem s1 (fptr (HHDM_OFFSET t) f + 8)"
      let ?s' = "pop_obj ?a ?p (set_active b (Some ?a) s1)"
      have "small_post g t b ?p ?s'"
        using pop_small_post[OF t(1) b _ 2(5), simplified] 2 b by simp
      moreover have "alloc_small b s = Some (?p, ?s')"
        using slow full tp 2(1,3,8) b by (simp add: t_def[symmetric] pop_first_def)
      ultimately show ?thesis using small_post_forget[of g b s] t(2) unfolding t_def by blast
    qed
  qed
qed

lemma slab_mask:
  assumes "4096 dvd unat h" "fits h n" "f < n" "j < 4096"
  shows "(fptr h f + word_of_nat j) AND SLAB_MASK = fptr h f"
proof -
  let ?p = "fptr h f + word_of_nat j"
  have u: "unat ?p = (unat h div 4096 + f) * 4096 + j"
    using unat_fptr_off[OF assms(2-4)] assms(1) by (auto elim!: dvdE)
  have m: "SLAB_MASK = NOT (mask 12)" by (simp add: SLAB_MASK_def mask_eq_exp_minus_1)
  have "?p AND NOT (mask 12) = push_bit 12 (drop_bit 12 ?p)"
    by (intro bit_eqI) (auto simp: bit_simps bit_mask)
  also have "push_bit 12 (drop_bit 12 ?p) = fptr h f"
  proof -
    have d: "unat (drop_bit 12 ?p) = unat h div 4096 + f" using u assms(4) by (simp add: unat_drop_bit64)
    have "unat (drop_bit 12 ?p) * 2 ^ 12 < 2 ^ 64" unfolding d using u unat_lt64[of ?p] by simp
    from unat_push_bit64[OF this] d have "unat (push_bit 12 (drop_bit 12 ?p)) = unat h + f * 4096"
      using assms(1) by (auto elim!: dvdE)
    then show ?thesis using unat_fptr[OF assms(2,3)] by (simp add: word_unat_eq_iff)
  qed
  finally show ?thesis by (simp add: m)
qed

lemma dealloc_small_ok:
  fixes s :: "'a hkernel_scheme"
  assumes inv: "heap_inv g s" and f: "slabs_of g f = Some b" and p: "p \<in> objects (HHDM_OFFSET s) b f" "p \<in> used_of g"
  shows "\<exists>s'. dealloc_small b (p AND SLAB_MASK) p s = Some s' \<and> hrest s' = hrest s \<and>
    heap_inv (g\<lparr>used_of := used_of g - {p}\<rparr>) s' \<and> pmm_avail s' = pmm_avail s \<and>
    agree_off (insert p (slab_words (HHDM_OFFSET s) g)) (kmem s) (kmem s')"
proof -
  note i = heap_invD[OF inv]
  note d = heap_listsD[OF i(4)]
  let ?h = "HHDM_OFFSET s" let ?a = "fptr ?h f"
  have fb: "f < pmm_total s" "b < 7" using d(4)[OF f] by blast+
  have mask: "p AND SLAB_MASK = ?a"
    using p(1) fb(2) by (rule objectsE) (use slab_mask[OF i(3,8) fb(1)] in auto)
  let ?m = "(kmem s)(p := kmem s (?a + 8), ?a + 8 := p)"
  let ?was = "kmem s (?a + 8) = 0" and ?act = "active_slab (ALLOCATOR s) ! b = Some ?a"
  define s' where "s' = (if ?was \<and> \<not> ?act
    then s\<lparr>kmem := ?m(?a := enc_ptr (partial_slabs (ALLOCATOR s) ! b)),
           ALLOCATOR := (ALLOCATOR s)\<lparr>partial_slabs := (partial_slabs (ALLOCATOR s))[b := Some ?a]\<rparr>\<rparr>
    else s\<lparr>kmem := ?m\<rparr>)"
  have r: "dealloc_small b (p AND SLAB_MASK) p s = Some s'"
    using d(2,3) fb(2) unfolding mask
    by (auto simp: dealloc_small_def s'_def set_FreeObj_next_def set_slab_free_def set_slab_next_def Let_def dec_ptr_def)
  have hl: "heap_lists (kmem s') ?h (pmm_total s) (active_slab (ALLOCATOR s')) (partial_slabs (ALLOCATOR s'))
      (slabs_of g) (used_of g - {p})"
    using heap_push[OF i(4) f p] by (auto simp: s'_def)
  have ag: "agree_off (insert p (slab_words ?h g)) (kmem s) (kmem s')"
    using slab_header_word[OF inv f] by (auto simp: agree_off_def s'_def)
  have "p \<in> frame_words ?h (dom (slabs_of g))" using objects_frame_words[OF fb(2), of f "dom (slabs_of g)" ?h] p(1) f by blast
  then have "agree_off (frame_words ?h (dom (slabs_of g))) (kmem s) (kmem s')"
    using ag unfolding agree_off_def slab_words_def by auto
  from heap_write[OF inv _ _ this hl] have "heap_inv (g\<lparr>used_of := used_of g - {p}\<rparr>) s'" "pmm_avail s' = pmm_avail s"
    by (simp_all add: s'_def)
  then show ?thesis using r ag by (auto simp: s'_def)
qed

section \<open>Large blocks\<close>

definition order_of :: "Layout \<Rightarrow> nat" where
  "order_of l = log2_ceil (need_of l) - 12"

lemma order_of_le: "need_of l \<le> 2 ^ 23 \<Longrightarrow> order_of l \<le> MAX_ORDER"
  using log2_ceil_le[of "need_of l" 23] by (simp add: order_of_def)

lemma bigs_ok_insert:
  assumes "bigs_ok n B" "k \<le> MAX_ORDER" "2 ^ k dvd f" "run f k \<subseteq> {..<n}" "big_frames B \<inter> run f k = {}"
  shows "bigs_ok n (insert (f, k) B)"
proof -
  have "run f k \<inter> run f' k' = {}" "run f' k' \<inter> run f k = {}" if "(f', k') \<in> B" for f' k'
    using assms(5) that by (auto simp: big_frames_def)
  then show ?thesis using assms(1-4) unfolding bigs_ok_def by blast
qed

lemma big_frames_insert [simp]: "big_frames (insert (f, k) B) = run f k \<union> big_frames B"
  by (simp add: big_frames_def)

lemma big_frames_remove:
  assumes "bigs_ok n B" "(f, k) \<in> B"
  shows "big_frames (B - {(f, k)}) = big_frames B - run f k"
proof -
  have "run f k \<inter> run f' k' = {}" if "(f', k') \<in> B" "(f', k') \<noteq> (f, k)" for f' k'
    using assms that unfolding bigs_ok_def by fastforce
  then show ?thesis unfolding big_frames_def using assms(2) by fastforce
qed

lemma frame_fptr:
  assumes "fits h n" "f < n"
  shows "sub64 (fptr h f) h = Some (word_of_nat (f * 4096))" "unat (word_of_nat (f * 4096) :: u64) = f * 4096"
    "frame_of (word_of_nat (f * 4096)) = f"
proof -
  have u: "unat (fptr h f) = unat h + f * 4096" by (rule unat_fptr[OF assms])
  then show "sub64 (fptr h f) h = Some (word_of_nat (f * 4096))" by (simp add: sub64_def word_le_nat_alt fptr_def)
  have "f * 4096 < 2 ^ 64" using u unat_lt64[of "fptr h f"] by linarith
  then show "unat (word_of_nat (f * 4096) :: u64) = f * 4096" by (rule unat_of_nat64)
  then show "frame_of (word_of_nat (f * 4096)) = f" by (simp add: frame_of_def)
qed

lemma alloc_large_ok:
  fixes s :: "'a hkernel_scheme"
  assumes inv: "heap_inv g s" and need: "need_of l \<le> 2 ^ 23"
  obtains "alloc_large l s = Some (0, s)" "\<forall>f. 2 ^ order_of l dvd f \<longrightarrow> \<not> run f (order_of l) \<subseteq> pmm_avail s"
  | f s' where "alloc_large l s = Some (fptr (HHDM_OFFSET s) f, s')" "hrest s' = hrest s" "2 ^ order_of l dvd f"
      "run f (order_of l) \<subseteq> pmm_avail s" "pmm_avail s' = pmm_avail s - run f (order_of l)"
      "heap_inv (g\<lparr>bigs_of := insert (f, order_of l) (bigs_of g)\<rparr>) s'"
      "agree_off (frame_words (HHDM_OFFSET s) (pmm_avail s)) (kmem s) (kmem s')"
proof -
  note i = heap_invD[OF inv]
  let ?k = "order_of l" and ?h = "HHDM_OFFSET s"
  note k = order_of_le[OF need]
  have ord: "order_for_large l = Some (Some ?k)" using need by (simp add: order_for_large_eq order_of_def)
  obtain r s' where r: "pmm_alloc_pages ?k s = Some (r, s')" using pmm_pages.alloc_total[OF i(1) k] by blast
  show thesis
  proof (cases r)
    case None
    then have "s' = s" "\<forall>f. 2 ^ ?k dvd f \<longrightarrow> \<not> run f ?k \<subseteq> pmm_avail s"
      using pmm_pages.alloc_refused[OF i(1) k, of s'] r by auto
    then show thesis using that(1) ord r None by (simp add: alloc_large_def)
  next
    case (Some a)
    let ?f = "frame_of a"
    have gr: "pmm_ok s'" "4096 dvd unat a" "2 ^ ?k dvd ?f" "run ?f ?k \<subseteq> pmm_avail s" "pmm_avail s' = pmm_avail s - run ?f ?k"
      using pmm_pages.alloc_granted[OF i(1) k, of a s'] r Some by auto
    have mem: "pmm_hhdm s' = pmm_hhdm s" "pmm_total s' = pmm_total s" "kernel.more s' = kernel.more s"
      "agree_off (frame_words ?h (pmm_avail s)) (kmem s) (kmem s')"
      using pmm_pages.alloc_mem[OF i(1) k, of a s'] r Some by (auto simp: i(2))
    note km = kernel_more_hrest[OF mem(3)]
    have al: "aligned a" using gr(2) by (simp add: aligned_def)
    have f: "?f < pmm_total s" using gr(4) i(9) run_start[of ?f ?k] by blast
    have "alloc_large l s = Some (fptr ?h ?f, s')"
      using ord r Some table_mut_ok[OF i(8) al f] aligned_fptr[OF al] km(1)
      by (simp add: alloc_large_def phys_to_virt_def)
    moreover have hl: "heap_lists (kmem s') ?h (pmm_total s) (active_slab (ALLOCATOR s)) (partial_slabs (ALLOCATOR s))
        (slabs_of g) (used_of g)" using mem(4) i(7,9) by (intro heap_lists_alloc[OF inv]) (auto simp: heap_frames_def)
    moreover have "bigs_ok (pmm_total s) (insert (?f, ?k) (bigs_of g))"
      using gr(3,4) k i(7,9) by (intro bigs_ok_insert[OF i(5)]) (auto simp: heap_frames_def)
    ultimately have "heap_inv (g\<lparr>bigs_of := insert (?f, ?k) (bigs_of g)\<rparr>) s'"
      using gr mem km i(2,3,6,7) unfolding heap_inv_def heap_frames_def by auto
    then show thesis
      using \<open>alloc_large l s = _\<close> gr(3-5) mem km(3) by (intro that(2)) auto
  qed
qed

lemma dealloc_large_ok:
  fixes s :: "'a hkernel_scheme"
  assumes inv: "heap_inv g s" and B: "(f, order_of l) \<in> bigs_of g" and need: "need_of l \<le> 2 ^ 23"
  shows "\<exists>s'. dealloc_large (fptr (HHDM_OFFSET s) f) l s = Some s' \<and> hrest s' = hrest s \<and>
    heap_inv (g\<lparr>bigs_of := bigs_of g - {(f, order_of l)}\<rparr>) s' \<and> pmm_avail s' = pmm_avail s \<union> run f (order_of l) \<and>
    agree_off (frame_words (HHDM_OFFSET s) (pmm_avail s \<union> run f (order_of l))) (kmem s) (kmem s')"
proof -
  note i = heap_invD[OF inv]
  let ?k = "order_of l" and ?h = "HHDM_OFFSET s"
  let ?a = "word_of_nat (f * 4096) :: u64"
  have b: "?k \<le> MAX_ORDER" "2 ^ ?k dvd f" "run f ?k \<subseteq> {..<pmm_total s}" using i(5) B by (auto simp: bigs_ok_def)
  have sub: "run f ?k \<subseteq> big_frames (bigs_of g)" using B by (auto simp: big_frames_def)
  then have own: "run f ?k \<subseteq> {..<pmm_total s} - pmm_avail s" "run f ?k \<inter> dom (slabs_of g) = {}"
    using b(3) i(6,7) by (auto simp: heap_frames_def)
  have f: "f < pmm_total s" using b(3) run_start[of f ?k] by blast
  note fp = frame_fptr[OF i(8) f]
  have ord: "order_for_large l = Some (Some ?k)" using need by (simp add: order_for_large_eq order_of_def)
  obtain s' where s': "pmm_free_pages ?a ?k s = Some s'" "pmm_ok s'" "pmm_avail s' = pmm_avail s \<union> run f ?k"
    using pmm_pages.release_ok[OF i(1) b(1), of ?a] fp(2,3) b(2) own(1) by auto
  have mem: "pmm_hhdm s' = pmm_hhdm s" "pmm_total s' = pmm_total s" "kernel.more s' = kernel.more s"
      "agree_off (frame_words ?h (pmm_avail s \<union> run f ?k)) (kmem s) (kmem s')"
    using pmm_pages.release_mem[OF i(1) s'(1)] s'(3) by (auto simp: i(2))
  note km = kernel_more_hrest[OF mem(3)]
  have "dealloc_large (fptr ?h f) l s = Some s'" using ord fp(1) s'(1) by (simp add: dealloc_large_def virt_to_phys_def)
  moreover have "heap_lists (kmem s') ?h (pmm_total s) (active_slab (ALLOCATOR s)) (partial_slabs (ALLOCATOR s))
      (slabs_of g) (used_of g)"
    using i(7,9) own by (intro heap_lists_alloc[OF inv mem(4)]) (auto simp: heap_frames_def)
  moreover have "bigs_ok (pmm_total s) (bigs_of g - {(f, ?k)})" using i(5) by (auto simp: bigs_ok_def)
  ultimately have "heap_inv (g\<lparr>bigs_of := bigs_of g - {(f, ?k)}\<rparr>) s'"
    using mem km i(2,3,6,7) s'(2,3) own(2) big_frames_remove[OF i(5) B] unfolding heap_inv_def heap_frames_def by auto
  then show ?thesis using \<open>dealloc_large _ l s = _\<close> s'(3) mem km(3) by auto
qed

end
