(* ===== verification/Heap_Props.thy ===== *)
theory Heap_Props
  imports Heap_Correct
begin

text \<open>
  The heap as its clients see it: the contract of a block allocator, the theorem that every
  client session keeps the contents of its live blocks, the proof that the kernel heap meets the
  contract, and the properties of kernel/src/mm/heap.rs.
\<close>

section \<open>The contract of a block allocator\<close>

text \<open>
  A session allocates, is refused, gives blocks back and writes words of the blocks it holds.
  \<open>H\<close> is the set of live blocks (address and layout), \<open>V\<close> the last value written to each word of a
  live block.
\<close>

inductive session ::
    "('s \<Rightarrow> 'l \<Rightarrow> (u64 \<times> 's) option) \<Rightarrow> ('s \<Rightarrow> u64 \<Rightarrow> 'l \<Rightarrow> 's option) \<Rightarrow> ('s \<Rightarrow> u64 \<Rightarrow> u64 \<Rightarrow> 's) \<Rightarrow>
     (u64 \<Rightarrow> 'l \<Rightarrow> u64 set) \<Rightarrow> 's \<Rightarrow> 's \<Rightarrow> (u64 \<times> 'l) set \<Rightarrow> (u64 \<rightharpoonup> u64) \<Rightarrow> bool"
  for alloc and dealloc and poke and region and s0 where
  start: "session alloc dealloc poke region s0 s0 {} Map.empty"
| allocate: "session alloc dealloc poke region s0 s H V \<Longrightarrow> alloc s l = Some (p, s') \<Longrightarrow> p \<noteq> 0 \<Longrightarrow>
     session alloc dealloc poke region s0 s' (insert (p, l) H) V"
| refuse: "session alloc dealloc poke region s0 s H V \<Longrightarrow> alloc s l = Some (0, s') \<Longrightarrow>
     session alloc dealloc poke region s0 s' H V"
| give_back: "session alloc dealloc poke region s0 s H V \<Longrightarrow> (p, l) \<in> H \<Longrightarrow> dealloc s p l = Some s' \<Longrightarrow>
     session alloc dealloc poke region s0 s' (H - {(p, l)}) (V |` (- region p l))"
| put: "session alloc dealloc poke region s0 s H V \<Longrightarrow> (p, l) \<in> H \<Longrightarrow> a \<in> region p l \<Longrightarrow>
     session alloc dealloc poke region s0 (poke s a w) H (V(a \<mapsto> w))"

locale block_allocator =
  fixes alloc :: "'s \<Rightarrow> 'l \<Rightarrow> (u64 \<times> 's) option"
    and dealloc :: "'s \<Rightarrow> u64 \<Rightarrow> 'l \<Rightarrow> 's option"
    and poke :: "'s \<Rightarrow> u64 \<Rightarrow> u64 \<Rightarrow> 's"
    and region :: "u64 \<Rightarrow> 'l \<Rightarrow> u64 set"
    and ok :: "'s \<Rightarrow> (u64 \<times> 'l) set \<Rightarrow> bool"
    and memory :: "'s \<Rightarrow> mem"
  assumes alloc_total: "ok s H \<Longrightarrow> \<exists>p s'. alloc s l = Some (p, s')"
    and alloc_ok: "ok s H \<Longrightarrow> alloc s l = Some (p, s') \<Longrightarrow> ok s' (if p = 0 then H else insert (p, l) H)"
    and alloc_fresh: "ok s H \<Longrightarrow> alloc s l = Some (p, s') \<Longrightarrow> p \<noteq> 0 \<Longrightarrow> (p, l) \<notin> H"
    and alloc_keeps: "ok s H \<Longrightarrow> alloc s l = Some (p, s') \<Longrightarrow> (q, k) \<in> H \<Longrightarrow> a \<in> region q k \<Longrightarrow>
      memory s' a = memory s a"
    and dealloc_ok: "ok s H \<Longrightarrow> (p, l) \<in> H \<Longrightarrow> \<exists>s'. dealloc s p l = Some s' \<and> ok s' (H - {(p, l)})"
    and dealloc_keeps: "ok s H \<Longrightarrow> (p, l) \<in> H \<Longrightarrow> dealloc s p l = Some s' \<Longrightarrow> (q, k) \<in> H - {(p, l)} \<Longrightarrow>
      a \<in> region q k \<Longrightarrow> memory s' a = memory s a"
    and write_ok: "ok s H \<Longrightarrow> (p, l) \<in> H \<Longrightarrow> a \<in> region p l \<Longrightarrow>
      ok (poke s a w) H \<and> memory (poke s a w) = (memory s)(a := w)"
    and ok_separate: "ok s H \<Longrightarrow> (p, l) \<in> H \<Longrightarrow> (q, k) \<in> H \<Longrightarrow> (p, l) \<noteq> (q, k) \<Longrightarrow> region p l \<inter> region q k = {}"
begin

definition tracks :: "'s \<Rightarrow> (u64 \<times> 'l) set \<Rightarrow> (u64 \<rightharpoonup> u64) \<Rightarrow> bool" where
  "tracks s H V \<longleftrightarrow> ok s H \<and>
     (\<forall>a w. V a = Some w \<longrightarrow> memory s a = w \<and> (\<exists>p l. (p, l) \<in> H \<and> a \<in> region p l))"

lemma tracks_alloc:
  assumes t: "tracks s H V" and al: "alloc s l = Some (p, s')"
  shows "tracks s' (if p = 0 then H else insert (p, l) H) V"
proof -
  have ok: "ok s H" using t by (simp add: tracks_def)
  show ?thesis using alloc_ok[OF ok al] alloc_keeps[OF ok al] t unfolding tracks_def by (metis insertCI)
qed

lemma tracks_dealloc:
  assumes t: "tracks s H V" and p: "(p, l) \<in> H" and de: "dealloc s p l = Some s'"
  shows "tracks s' (H - {(p, l)}) (V |` (- region p l))"
proof -
  have ok: "ok s H" using t by (simp add: tracks_def)
  have "memory s' a = w \<and> (\<exists>q k. (q, k) \<in> H - {(p, l)} \<and> a \<in> region q k)"
    if V: "V a = Some w" "a \<notin> region p l" for a w
  proof -
    obtain q k where q: "(q, k) \<in> H - {(p, l)}" "a \<in> region q k" "memory s a = w"
      using t V unfolding tracks_def by blast
    with dealloc_keeps[OF ok p de q(1,2)] show ?thesis by auto
  qed
  moreover have "ok s' (H - {(p, l)})" using dealloc_ok[OF ok p] de by auto
  ultimately show ?thesis by (auto simp: tracks_def restrict_map_def split: if_splits)
qed

lemma session_invariant:
  assumes "session alloc dealloc poke region s0 s H V" "ok s0 {}"
  shows "tracks s H V"
  using assms
proof (induction rule: session.induct)
  case start
  then show ?case by (simp add: tracks_def)
next
  case (allocate s H V l p s')
  then show ?case using tracks_alloc[of s H V l p s'] by simp
next
  case (refuse s H V l s')
  then show ?case using tracks_alloc[of s H V l 0 s'] by simp
next
  case (give_back s H V p l s')
  then show ?case using tracks_dealloc by blast
next
  case (put s H V p l a w)
  then have t: "tracks s H V" and ok: "ok s H" by (simp_all add: tracks_def)
  note w = write_ok[OF ok put(2,3), of w]
  have "memory (poke s a w) b = u \<and> (\<exists>p l. (p, l) \<in> H \<and> b \<in> region p l)" if "(V(a \<mapsto> w)) b = Some u" for b u
    using w that put(2,3) t by (cases "b = a") (auto simp: tracks_def)
  with w show ?case by (simp add: tracks_def)
qed

theorem session_safe:
  assumes "session alloc dealloc poke region s0 s H V" "ok s0 {}"
  shows "\<forall>a w. V a = Some w \<longrightarrow> memory s a = w"
    and "(p, l) \<in> H \<Longrightarrow> (q, k) \<in> H \<Longrightarrow> (p, l) \<noteq> (q, k) \<Longrightarrow> region p l \<inter> region q k = {}"
    and "(p, l) \<in> H \<Longrightarrow> \<exists>s'. dealloc s p l = Some s'" and "\<exists>r. alloc s l = Some r"
proof -
  note i = session_invariant[OF assms, unfolded tracks_def]
  show "\<forall>a w. V a = Some w \<longrightarrow> memory s a = w" using i by blast
  show "(p, l) \<in> H \<Longrightarrow> (q, k) \<in> H \<Longrightarrow> (p, l) \<noteq> (q, k) \<Longrightarrow> region p l \<inter> region q k = {}" using i ok_separate by blast
  show "(p, l) \<in> H \<Longrightarrow> \<exists>s'. dealloc s p l = Some s'" using i dealloc_ok by blast
  show "\<exists>r. alloc s l = Some r" using i alloc_total by blast
qed

end

section \<open>Live blocks of the kernel heap\<close>

definition region :: "u64 \<Rightarrow> Layout \<Rightarrow> u64 set" where
  "region p l = {p + word_of_nat j | j. j < unat (lsize l)}"

definition bucket_of :: "Layout \<Rightarrow> nat" where
  "bucket_of l = log2_ceil (max (need_of l) 16) - 4"

lemma bucket_of_bound:
  assumes "need_of l \<le> 1024"
  shows "bucket_of l < 7" "need_of l \<le> 2 ^ (4 + bucket_of l)"
proof -
  have c: "log2_ceil (max (need_of l) 16) \<le> 10" "4 \<le> log2_ceil (max (need_of l) 16)"
    using assms log2_ceil_le[of "max (need_of l) 16" 10] log2_ceil_le[of "max (need_of l) 16" 3] by auto
  then show "bucket_of l < 7" by (simp add: bucket_of_def)
  have "4 + bucket_of l = log2_ceil (max (need_of l) 16)" using c by (simp add: bucket_of_def)
  then have "max (need_of l) 16 \<le> 2 ^ (4 + bucket_of l)" using log2_ceil_le[of "max (need_of l) 16" "4 + bucket_of l"] by simp
  then show "need_of l \<le> 2 ^ (4 + bucket_of l)" by (rule max.cobounded1[THEN order_trans])
qed

lemma order_of_bound: "need_of l \<le> 4096 * 2 ^ order_of l"
proof -
  have "log2_ceil (need_of l) \<le> 12 + order_of l" by (simp add: order_of_def)
  then have "need_of l \<le> 2 ^ (12 + order_of l)" unfolding log2_ceil_le .
  then show ?thesis by (simp add: power_add)
qed

text \<open>Where the block \<open>(p, l)\<close> lies: an object of a slab of its bucket, or a block of frames.\<close>

definition placed :: "heap_view \<Rightarrow> u64 \<Rightarrow> u64 \<Rightarrow> Layout \<Rightarrow> bool" where
  "placed g h p l \<longleftrightarrow>
     (if need_of l \<le> 1024
      then \<exists>f. slabs_of g f = Some (bucket_of l) \<and> p \<in> objects h (bucket_of l) f \<and> p \<in> used_of g
      else need_of l \<le> 2 ^ 23 \<and> (\<exists>f. p = fptr h f \<and> (f, order_of l) \<in> bigs_of g))"

definition heap_ok :: "'a hkernel_scheme \<Rightarrow> (u64 \<times> Layout) set \<Rightarrow> bool" where
  "heap_ok s H \<longleftrightarrow> inj_on fst H \<and>
     (\<exists>g. heap_inv g s \<and> (\<forall>p l. (p, l) \<in> H \<longrightarrow> placed g (HHDM_OFFSET s) p l))"

lemma run_words: "j < 4096 * 2 ^ k \<Longrightarrow> fptr h f + word_of_nat j \<in> frame_words h (run f k)"
proof -
  assume j: "j < 4096 * 2 ^ k"
  have "f + j div 4096 \<in> run f k" using j by (simp add: run_def div_less_iff_less_mult mult.commute)
  moreover have "fptr h (f + j div 4096) + word_of_nat (j mod 4096) = fptr h f + word_of_nat j"
  proof -
    have "word_of_nat j = (word_of_nat (j div 4096 * 4096 + j mod 4096) :: u64)" by simp
    also have "\<dots> = word_of_nat (j div 4096 * 4096) + word_of_nat (j mod 4096)" by (rule of_nat_add)
    finally show ?thesis by (simp add: fptr_def algebra_simps)
  qed
  ultimately show ?thesis using frame_words_mem[of "f + j div 4096" "run f k" "j mod 4096" h] by simp
qed

lemma placed_cases:
  assumes "placed g h p l"
  obtains (small) f where "need_of l \<le> 1024" "slabs_of g f = Some (bucket_of l)" "p \<in> objects h (bucket_of l) f"
      "p \<in> used_of g" "region p l \<subseteq> obj_words p (bucket_of l)" "bucket_of l < 7"
  | (big) f where "1024 < need_of l" "need_of l \<le> 2 ^ 23" "p = fptr h f" "(f, order_of l) \<in> bigs_of g"
      "region p l \<subseteq> frame_words h (run f (order_of l))" "run f (order_of l) \<subseteq> big_frames (bigs_of g)"
proof (cases "need_of l \<le> 1024")
  case True
  have "unat (lsize l) \<le> 2 ^ (4 + bucket_of l)" using bucket_of_bound(2)[OF True] by (simp add: need_of_def)
  then have "region p l \<subseteq> obj_words p (bucket_of l)" by (fastforce simp: region_def obj_words_def)
  with True assms bucket_of_bound(1)[OF True] show thesis by (auto simp: placed_def intro: small)
next
  case False
  have sz: "unat (lsize l) \<le> 4096 * 2 ^ order_of l" using order_of_bound[of l] by (simp add: need_of_def)
  have "region (fptr h f) l \<subseteq> frame_words h (run f (order_of l))" for f
    using run_words[of _ "order_of l" h f] sz unfolding region_def by fastforce
  moreover obtain f where "need_of l \<le> 2 ^ 23" "p = fptr h f" "(f, order_of l) \<in> bigs_of g"
    using False assms by (auto simp: placed_def)
  moreover from this(3) have "run f (order_of l) \<subseteq> big_frames (bigs_of g)" by (auto simp: big_frames_def)
  ultimately show thesis using False by (intro big[of f]) simp_all
qed

text \<open>The words of a live block lie in frames of the heap, and no operation of the heap writes them.\<close>

lemma placed_words:
  assumes inv: "heap_inv g s" and pl: "placed g (HHDM_OFFSET s) p l" and a: "a \<in> region p l"
  shows "a \<in> frame_words (HHDM_OFFSET s) (heap_frames g)" "a \<notin> slab_words (HHDM_OFFSET s) g"
proof -
  note i = heap_invD[OF inv]
  from pl have "a \<in> frame_words (HHDM_OFFSET s) (heap_frames g) \<and> a \<notin> slab_words (HHDM_OFFSET s) g"
  proof (cases rule: placed_cases)
    case (small f)
    have "a \<in> used_words (HHDM_OFFSET s) (slabs_of g) (used_of g)" using small a unfolding used_words_def by blast
    moreover have "a \<in> frame_words (HHDM_OFFSET s) {f}" using obj_words_frame[OF small(3,6)] small(5) a by blast
    moreover have "{f} \<subseteq> heap_frames g" using small(2) by (auto simp: heap_frames_def)
    ultimately show ?thesis using frame_words_mono[of "{f}" "heap_frames g"] by (auto simp: slab_words_def)
  next
    case (big f)
    have "run f (order_of l) \<subseteq> heap_frames g" using big(6) by (auto simp: heap_frames_def)
    moreover have "frame_words (HHDM_OFFSET s) (dom (slabs_of g)) \<inter> frame_words (HHDM_OFFSET s) (big_frames (bigs_of g)) = {}"
      using i(6,10) by (intro frame_words_disjoint[OF i(8)]) (auto simp: heap_frames_def)
    moreover have "a \<in> frame_words (HHDM_OFFSET s) (big_frames (bigs_of g))"
      using big(5,6) a frame_words_mono by blast
    ultimately show ?thesis
      using frame_words_mono[of "big_frames (bigs_of g)" "heap_frames g"] by (auto simp: slab_words_def heap_frames_def)
  qed
  then show "a \<in> frame_words (HHDM_OFFSET s) (heap_frames g)" "a \<notin> slab_words (HHDM_OFFSET s) g" by blast+
qed

lemma placed_not_free:
  assumes inv: "heap_inv g s" and pl: "placed g (HHDM_OFFSET s) p l" and a: "a \<in> region p l"
  shows "a \<notin> frame_words (HHDM_OFFSET s) (pmm_avail s)"
  using placed_words(1)[OF assms] frame_words_disjoint[OF heap_invD(8,10,9,7)[OF inv]] by blast

lemma placed_separate:
  assumes inv: "heap_inv g s" and p: "placed g (HHDM_OFFSET s) p l" and q: "placed g (HHDM_OFFSET s) q k" and ne: "p \<noteq> q"
  shows "region p l \<inter> region q k = {}"
proof -
  note i = heap_invD[OF inv]
  let ?h = "HHDM_OFFSET s"
  note fd = frame_words_disjoint[OF i(8)]
  note sl = heap_listsD(4)[OF i(4)]
  have sb: "frame_words ?h {f} \<inter> frame_words ?h (run f' k') = {}"
    if "f \<in> dom (slabs_of g)" "run f' k' \<subseteq> big_frames (bigs_of g)" for f f' k'
    using that i(6,10) by (intro fd) (auto simp: heap_frames_def)
  from p show ?thesis
  proof (cases rule: placed_cases)
    case (small f)
    note w = obj_words_frame[OF small(3,6)]
    note p' = small
    from q show ?thesis
    proof (cases rule: placed_cases)
      case (small f')
      show ?thesis
      proof (cases "f = f'")
        case True
        then have "bucket_of k = bucket_of l" using p'(2) small(2) by simp
        then have "obj_words p (bucket_of l) \<inter> obj_words q (bucket_of l) = {}"
          using obj_words_disjoint[OF i(8) _ p'(6,3) _ ne] small(3) True sl[OF p'(2)] by simp
        then show ?thesis using p'(5) small(5) \<open>bucket_of k = bucket_of l\<close> by auto
      next
        case False
        then have "frame_words ?h {f} \<inter> frame_words ?h {f'} = {}"
          using sl[OF p'(2)] sl[OF small(2)] by (intro fd) auto
        then show ?thesis using w p'(5) small(5) obj_words_frame[OF small(3,6)] by blast
      qed
    next
      case (big f')
      then show ?thesis using sb[of f f' "order_of k"] p'(2,5) w by blast
    qed
  next
    case (big f)
    note p' = big
    from q show ?thesis
    proof (cases rule: placed_cases)
      case (small f')
      then show ?thesis using sb[of f' f "order_of l"] p'(5,6) obj_words_frame[OF small(3,6)] by blast
    next
      case (big f')
      have "run f (order_of l) \<inter> run f' (order_of k) = {}"
        using i(5) p'(3,4) big(3,4) ne unfolding bigs_ok_def by (metis prod.inject)
      then have "frame_words ?h (run f (order_of l)) \<inter> frame_words ?h (run f' (order_of k)) = {}"
        using i(5) p'(4) big(4) by (intro fd) (auto simp: bigs_ok_def)
      then show ?thesis using p'(5) big(5) by blast
    qed
  qed
qed

section \<open>The heap meets the contract\<close>

lemma placed_mono:
  assumes "placed g h q k" "\<And>f b. slabs_of g f = Some b \<Longrightarrow> slabs_of g' f = Some b"
    "q \<in> used_of g \<Longrightarrow> q \<in> used_of g'" "\<And>f. q = fptr h f \<Longrightarrow> (f, order_of k) \<in> bigs_of g \<Longrightarrow> (f, order_of k) \<in> bigs_of g'"
  shows "placed g' h q k"
  using assms unfolding placed_def by (auto split: if_splits)

lemma object_fresh:
  assumes inv: "heap_inv g s" and p: "p \<in> objects (HHDM_OFFSET s) b f - used_of g" "b < 7" "f < pmm_total s"
    and q: "placed g (HHDM_OFFSET s) q k"
  shows "q \<noteq> p"
  using q
proof (cases rule: placed_cases)
  case (small f')
  then show ?thesis using p(1) by auto
next
  case (big f')
  have "f' \<in> heap_frames g" using subsetD[OF big(6) run_start] by (simp add: heap_frames_def)
  then have "f' < pmm_total s" using heap_invD(10)[OF inv] by blast
  then show ?thesis using header_not_obj(1)[OF heap_invD(8)[OF inv] p(3) _ p(2)] p(1) big(3) by blast
qed

lemma block_fresh:
  assumes inv: "heap_inv g s" and f: "f \<in> pmm_avail s" and q: "placed g (HHDM_OFFSET s) q k"
  shows "q \<noteq> fptr (HHDM_OFFSET s) f"
proof -
  note i = heap_invD[OF inv]
  have fn: "f < pmm_total s" using f i(9) by blast
  from q show ?thesis
  proof (cases rule: placed_cases)
    case (small f')
    then show ?thesis using header_not_obj(1)[OF i(8) _ fn small(6), of f'] heap_listsD(4)[OF i(4) small(2)] by blast
  next
    case (big f')
    have "f' \<in> heap_frames g" using subsetD[OF big(6) run_start] by (simp add: heap_frames_def)
    then have "f' \<noteq> f" "f' < pmm_total s" using f i(7,10) by auto
    then show ?thesis using fptr_inj[OF i(8) _ fn, of f'] big(3) by simp
  qed
qed

text \<open>What \<open>heap_alloc\<close> does, small and large requests together.\<close>

definition alloc_post :: "'a hkernel_scheme \<Rightarrow> (u64 \<times> Layout) set \<Rightarrow> Layout \<Rightarrow> u64 \<Rightarrow> 'a hkernel_scheme \<Rightarrow> bool" where
  "alloc_post s H l p s' \<longleftrightarrow> hrest s' = hrest s \<and>
     heap_ok s' (if p = 0 then H else insert (p, l) H) \<and> (p \<noteq> 0 \<longrightarrow> p \<notin> fst ` H) \<and>
     (\<forall>q k a. (q, k) \<in> H \<longrightarrow> a \<in> region q k \<longrightarrow> kmem s' a = kmem s a)"

definition refusal :: "'a hkernel_scheme \<Rightarrow> Layout \<Rightarrow> bool" where
  "refusal s l \<longleftrightarrow> need_of l > 2 ^ 23 \<or>
     (if need_of l \<le> 1024 then pmm_avail s = {}
      else \<forall>f. 2 ^ order_of l dvd f \<longrightarrow> \<not> run f (order_of l) \<subseteq> pmm_avail s)"

lemma heap_okI:
  "inj_on fst H \<Longrightarrow> heap_inv g s \<Longrightarrow> (\<And>p l. (p, l) \<in> H \<Longrightarrow> placed g (HHDM_OFFSET s) p l) \<Longrightarrow> heap_ok s H"
  unfolding heap_ok_def by blast

lemma inj_fst_insert: "inj_on fst H \<Longrightarrow> p \<notin> fst ` H \<Longrightarrow> inj_on fst (insert (p, l) H)"
  unfolding inj_on_insert by auto

lemma inj_fstD: "inj_on fst H \<Longrightarrow> (p, l) \<in> H \<Longrightarrow> (p, k) \<in> H \<Longrightarrow> l = k"
  using inj_onD[of fst H "(p, l)" "(p, k)"] by simp

lemma hhdm_hrest: "hrest s' = hrest s \<Longrightarrow> HHDM_OFFSET s' = HHDM_OFFSET s"
  by (simp add: hrest_def)

lemma alloc_keeps_live:
  assumes inv: "heap_inv g s" and ag: "agree_off (frame_words (HHDM_OFFSET s) (pmm_avail s) \<union> slab_words (HHDM_OFFSET s) g) (kmem s) m'"
    and pl: "\<And>p l. (p, l) \<in> H \<Longrightarrow> placed g (HHDM_OFFSET s) p l"
  shows "\<forall>q k a. (q, k) \<in> H \<longrightarrow> a \<in> region q k \<longrightarrow> m' a = kmem s a"
  using placed_words(2)[OF inv pl] placed_not_free[OF inv pl] ag unfolding agree_off_def by blast

lemma small_alloc_post:
  assumes inv: "heap_inv g s" and inj: "inj_on fst H" and pl: "\<And>p l. (p, l) \<in> H \<Longrightarrow> placed g (HHDM_OFFSET s) p l"
    and need: "need_of l \<le> 1024" and post: "small_post g s (bucket_of l) p s'"
  shows "alloc_post s H l p s'"
proof -
  have keep: "\<forall>q k a. (q, k) \<in> H \<longrightarrow> a \<in> region q k \<longrightarrow> kmem s' a = kmem s a"
    using post pl by (intro alloc_keeps_live[OF inv]) (simp_all add: small_post_def)
  show ?thesis
  proof (cases "p = 0")
    case True
    then have r: "hrest s' = hrest s" "heap_inv g s'" using post by (simp_all add: small_post_def)
    then have "heap_ok s' H" using pl hhdm_hrest[OF r(1)] by (intro heap_okI[OF inj]) auto
    then show ?thesis using keep True r(1) by (simp add: alloc_post_def)
  next
    case False
    note b = bucket_of_bound(1)[OF need]
    let ?h = "HHDM_OFFSET s"
    obtain f where f: "slabs_of g f = Some (bucket_of l) \<or> f \<in> pmm_avail s" "p \<in> objects ?h (bucket_of l) f - used_of g"
      "heap_inv (g\<lparr>slabs_of := (slabs_of g)(f \<mapsto> bucket_of l), used_of := insert p (used_of g)\<rparr>) s'"
      using post False unfolding small_post_def by auto
    let ?g = "g\<lparr>slabs_of := (slabs_of g)(f \<mapsto> bucket_of l), used_of := insert p (used_of g)\<rparr>"
    have r: "hrest s' = hrest s" "HHDM_OFFSET s' = ?h" using post hhdm_hrest by (auto simp: small_post_def)
    have fn: "f < pmm_total s" "slabs_of g f \<in> {None, Some (bucket_of l)}"
      using f(1) heap_invD(7,9)[OF inv] heap_listsD(4)[OF heap_invD(4)[OF inv]] by (auto simp: heap_frames_def)
    have fresh: "p \<notin> fst ` H" using object_fresh[OF inv f(2) b fn(1)] pl by force
    have "placed ?g ?h q k" if "(q, k) \<in> H" for q k
      using fn(2) by (intro placed_mono[OF pl[OF that]]) auto
    moreover have "placed ?g ?h p l" using need f(2) by (auto simp: placed_def)
    ultimately have "heap_ok s' (insert (p, l) H)"
      using f(3) r(2) by (intro heap_okI[OF inj_fst_insert[OF inj fresh]]) auto
    then show ?thesis using keep False r(1) fresh by (simp add: alloc_post_def)
  qed
qed

lemma large_alloc_post:
  fixes s :: "'a hkernel_scheme"
  assumes inv: "heap_inv g s" and inj: "inj_on fst H" and pl: "\<And>p l. (p, l) \<in> H \<Longrightarrow> placed g (HHDM_OFFSET s) p l"
    and need: "1024 < need_of l" "need_of l \<le> 2 ^ 23"
  shows "\<exists>p s'. alloc_large l s = Some (p, s') \<and> alloc_post s H l p s' \<and> (p = 0 \<longrightarrow> refusal s l)"
  using inv need(2)
proof (cases rule: alloc_large_ok)
  case 1
  then show ?thesis using heap_okI[OF inj inv pl] need(1) by (simp add: alloc_post_def refusal_def)
next
  case (2 f s')
  let ?h = "HHDM_OFFSET s" and ?g = "g\<lparr>bigs_of := insert (f, order_of l) (bigs_of g)\<rparr>"
  have f: "f \<in> pmm_avail s" "f < pmm_total s" using 2(4) run_start[of f "order_of l"] heap_invD(9)[OF inv] by blast+
  have nz: "fptr ?h f \<noteq> 0" using fptr_not_null[OF heap_invD(8)[OF inv] f(2)] .
  have fresh: "fptr ?h f \<notin> fst ` H" using block_fresh[OF inv f(1)] pl by force
  note h = hhdm_hrest[OF 2(2)]
  have "placed ?g ?h q k" if "(q, k) \<in> H" for q k by (rule placed_mono[OF pl[OF that]]) auto
  moreover have "placed ?g ?h (fptr ?h f) l" using need by (auto simp: placed_def)
  ultimately have "heap_ok s' (insert (fptr ?h f, l) H)"
    using 2(6) h by (intro heap_okI[OF inj_fst_insert[OF inj fresh]]) auto
  moreover have "\<forall>q k a. (q, k) \<in> H \<longrightarrow> a \<in> region q k \<longrightarrow> kmem s' a = kmem s a"
    using 2(7) pl by (intro alloc_keeps_live[OF inv]) (auto simp: agree_off_def)
  ultimately have "alloc_post s H l (fptr ?h f) s'" using 2(2) fresh nz by (simp add: alloc_post_def)
  then show ?thesis using 2(1) nz by blast
qed

lemma heap_alloc_ok:
  fixes s :: "'a hkernel_scheme"
  assumes "heap_ok s H"
  shows "\<exists>p s'. heap_alloc l s = Some (p, s') \<and> alloc_post s H l p s' \<and> (p = 0 \<longrightarrow> refusal s l)"
proof -
  obtain g where inv: "heap_inv g s" and inj: "inj_on fst H" and pl: "\<And>p l. (p, l) \<in> H \<Longrightarrow> placed g (HHDM_OFFSET s) p l"
    using assms unfolding heap_ok_def by blast
  consider "need_of l \<le> 1024" | "1024 < need_of l" "need_of l \<le> 2 ^ 23" | "2 ^ 23 < need_of l" by linarith
  then show ?thesis
  proof cases
    case 1
    obtain p s' where "alloc_small (bucket_of l) s = Some (p, s')" "small_post g s (bucket_of l) p s'"
      using alloc_small_ok[OF inv bucket_of_bound(1)[OF 1]] by blast
    moreover have "p = 0 \<longrightarrow> refusal s l" using calculation(2) 1 by (simp add: small_post_def refusal_def)
    ultimately show ?thesis
      using small_alloc_post[OF inv inj pl 1] 1 by (simp add: heap_alloc_def bucket_for_eq bucket_of_def)
  next
    case 2
    then show ?thesis using large_alloc_post[OF inv inj pl 2] by (simp add: heap_alloc_def bucket_for_eq)
  next
    case 3
    then have "heap_alloc l s = Some (0, s)" by (simp add: heap_alloc_def bucket_for_eq alloc_large_def order_for_large_eq)
    then show ?thesis using assms 3 by (auto simp: alloc_post_def refusal_def)
  qed
qed

lemma placed_start:
  assumes inv: "heap_inv g s" and p: "placed g (HHDM_OFFSET s) p l" "need_of l \<le> 1024"
    and q: "placed g (HHDM_OFFSET s) q k" "p \<noteq> q"
  shows "p \<notin> region q k"
proof -
  let ?l = "l\<lparr>lsize := max (lsize l) 1\<rparr>"
  have u: "unat (max (lsize l) 1) = max (unat (lsize l)) 1" by (simp add: unat_max)
  then have "need_of ?l \<le> 1024" "bucket_of ?l = bucket_of l"
    using p(2) by (auto simp: need_of_def bucket_of_def max_def)
  then have "placed g (HHDM_OFFSET s) p ?l" using p by (simp add: placed_def)
  moreover have "p \<in> region p ?l" using u by (auto simp: region_def intro!: exI[of _ 0])
  ultimately show ?thesis using placed_separate[OF inv _ q(1)] q(2) by blast
qed

lemma heap_dealloc_ok:
  fixes s :: "'a hkernel_scheme"
  assumes ok: "heap_ok s H" and p: "(p, l) \<in> H"
  shows "\<exists>s'. heap_dealloc p l s = Some s' \<and> hrest s' = hrest s \<and> heap_ok s' (H - {(p, l)}) \<and>
    (\<forall>q k a. (q, k) \<in> H - {(p, l)} \<longrightarrow> a \<in> region q k \<longrightarrow> kmem s' a = kmem s a) \<and> pmm_avail s \<subseteq> pmm_avail s'"
proof -
  obtain g where inv: "heap_inv g s" and inj: "inj_on fst H" and pl: "\<And>p l. (p, l) \<in> H \<Longrightarrow> placed g (HHDM_OFFSET s) p l"
    using ok unfolding heap_ok_def by blast
  note i = heap_invD[OF inv]
  have inj': "inj_on fst (H - {(p, l)})" using inj by (rule inj_on_subset) blast
  have ne: "q \<noteq> p" if "(q, k) \<in> H - {(p, l)}" for q k using that p inj_fstD[OF inj] by auto
  from pl[OF p] show ?thesis
  proof (cases rule: placed_cases)
    case (small f)
    have nz: "p \<noteq> 0" using obj_not_null[OF i(8) _ small(6), of f] heap_listsD(4)[OF i(4) small(2)] small(3) by blast
    obtain s' where s': "dealloc_small (bucket_of l) (p AND SLAB_MASK) p s = Some s'" "hrest s' = hrest s"
      "heap_inv (g\<lparr>used_of := used_of g - {p}\<rparr>) s'" "pmm_avail s' = pmm_avail s"
      "agree_off (insert p (slab_words (HHDM_OFFSET s) g)) (kmem s) (kmem s')"
      using dealloc_small_ok[OF inv small(2,3,4)] by blast
    have "placed (g\<lparr>used_of := used_of g - {p}\<rparr>) (HHDM_OFFSET s) q k" if "(q, k) \<in> H - {(p, l)}" for q k
      using ne[OF that] that by (intro placed_mono[OF pl]) auto
    then have "heap_ok s' (H - {(p, l)})" using s'(3) hhdm_hrest[OF s'(2)] by (intro heap_okI[OF inj']) auto
    moreover have "kmem s' a = kmem s a" if "(q, k) \<in> H - {(p, l)}" "a \<in> region q k" for q k a
    proof -
      have q: "(q, k) \<in> H" "p \<noteq> q" using that(1) ne[OF that(1)] by auto
      have "a \<noteq> p" "a \<notin> slab_words (HHDM_OFFSET s) g"
        using placed_start[OF inv pl[OF p] small(1) pl[OF q(1)] q(2)] placed_words(2)[OF inv pl[OF q(1)] that(2)] that(2) by auto
      then show ?thesis using s'(5) by (simp add: agree_off_def)
    qed
    ultimately show ?thesis
      using s'(1,2,4) nz small(1) by (auto simp: heap_dealloc_def bucket_for_eq bucket_of_def)
  next
    case (big f)
    have "f \<in> heap_frames g" using subsetD[OF big(6) run_start] by (simp add: heap_frames_def)
    then have nz: "p \<noteq> 0" using fptr_not_null[OF i(8), of f] i(10) big(3) by auto
    obtain s' where s': "dealloc_large p l s = Some s'" "hrest s' = hrest s"
      "heap_inv (g\<lparr>bigs_of := bigs_of g - {(f, order_of l)}\<rparr>) s'" "pmm_avail s' = pmm_avail s \<union> run f (order_of l)"
      "agree_off (frame_words (HHDM_OFFSET s) (pmm_avail s \<union> run f (order_of l))) (kmem s) (kmem s')"
      using dealloc_large_ok[OF inv big(4,2)] unfolding big(3) by blast
    let ?g = "g\<lparr>bigs_of := bigs_of g - {(f, order_of l)}\<rparr>"
    have pl': "placed ?g (HHDM_OFFSET s) q k" if "(q, k) \<in> H - {(p, l)}" for q k
      using ne[OF that] that big(3) by (intro placed_mono[OF pl]) auto
    then have "heap_ok s' (H - {(p, l)})" using s'(3) hhdm_hrest[OF s'(2)] by (intro heap_okI[OF inj']) auto
    moreover have "kmem s' a = kmem s a" if "(q, k) \<in> H - {(p, l)}" "a \<in> region q k" for q k a
      using placed_not_free[OF s'(3), of q k a] pl'[OF that(1)] that(2) s'(4,5) hhdm_hrest[OF s'(2)]
      by (simp add: agree_off_def)
    ultimately show ?thesis
      using s'(1,2,4) nz big(1) by (auto simp: heap_dealloc_def bucket_for_eq)
  qed
qed

lemma heap_write_ok:
  fixes s :: "'a hkernel_scheme"
  assumes ok: "heap_ok s H" and p: "(p, l) \<in> H" "a \<in> region p l"
  shows "heap_ok (store a w s) H"
proof -
  obtain g where inv: "heap_inv g s" and inj: "inj_on fst H" and pl: "\<And>p l. (p, l) \<in> H \<Longrightarrow> placed g (HHDM_OFFSET s) p l"
    using ok unfolding heap_ok_def by blast
  note i = heap_invD[OF inv]
  note aw = placed_words[OF inv pl[OF p(1)] p(2)]
  have h: "HHDM_OFFSET (store a w s) = HHDM_OFFSET s" "ALLOCATOR (store a w s) = ALLOCATOR s" by (simp_all add: store_def)
  have "agree_off (frame_words (pmm_hhdm s) (heap_frames g)) (kmem s) (kmem (store a w s))"
    using aw(1) i(2) by (auto simp: agree_off_def)
  note t = pmm_tables.write_ok[OF i(1) _ this i(10,7)]
  have "heap_lists (kmem (store a w s)) (HHDM_OFFSET s) (pmm_total s) (active_slab (ALLOCATOR s))
      (partial_slabs (ALLOCATOR s)) (slabs_of g) (used_of g)"
    using aw(2) by (intro heap_lists_frame[OF i(4)]) (auto simp: slab_words_def)
  then have "heap_inv g (store a w s)" using i(2,3,5-7) t h by (simp add: heap_inv_def)
  then show ?thesis using pl h by (intro heap_okI[OF inj]) auto
qed

text \<open>Alignment, for layouts whose alignment is a power of two.\<close>

lemma placed_aligned:
  assumes inv: "heap_inv g s" and pl: "placed g (HHDM_OFFSET s) p l"
    and al: "unat (lalign l) = 2 ^ j" "2 ^ j dvd unat (HHDM_OFFSET s)"
  shows "2 ^ j dvd unat p"
proof -
  note i = heap_invD[OF inv]
  have le: "2 ^ j \<le> need_of l" using al(1) by (simp add: need_of_def)
  have dvd: "2 ^ j dvd (2 :: nat) ^ n" if "need_of l \<le> 2 ^ n" for n
  proof -
    have "(2 :: nat) ^ j \<le> 2 ^ n" using le that by (rule order_trans)
    then show ?thesis by (simp add: le_imp_power_dvd)
  qed
  from pl show ?thesis
  proof (cases rule: placed_cases)
    case (small f)
    obtain k where k: "p = fptr (HHDM_OFFSET s) f + word_of_nat k" "k < 4096" "2 ^ (4 + bucket_of l) dvd k"
      using small(3,6) by (rule objectsE)
    have "unat p = unat (HHDM_OFFSET s) + f * 2 ^ 12 + k"
      using unat_fptr_off[OF i(8) _ k(2), of f] heap_listsD(4)[OF i(4) small(2)] k(1) by simp
    moreover have "2 ^ j dvd k" using dvd[OF bucket_of_bound(2)[OF small(1)]] k(3) by (rule dvd_trans)
    moreover have "2 ^ j dvd f * 2 ^ 12" using dvd[of 12] small(1) by (intro dvd_mult) simp
    ultimately show ?thesis using al(2) by (simp add: dvd_add)
  next
    case (big f)
    have "f < pmm_total s" using subsetD[OF big(6) run_start] i(10) by (auto simp: heap_frames_def)
    then have u: "unat p = unat (HHDM_OFFSET s) + 2 ^ 12 * f" using unat_fptr[OF i(8)] big(3) by simp
    have "2 ^ order_of l dvd f" using i(5) big(4) by (auto simp: bigs_ok_def)
    then have "2 ^ (12 + order_of l) dvd 2 ^ 12 * f" by (simp add: power_add)
    moreover have "2 ^ j dvd (2 :: nat) ^ (12 + order_of l)" using order_of_bound[of l] by (intro dvd) (simp add: power_add)
    ultimately have "2 ^ j dvd 2 ^ 12 * f" using dvd_trans by blast
    then show ?thesis using al(2) u by (simp add: dvd_add)
  qed
qed

interpretation kernel_heap: block_allocator "\<lambda>s l. heap_alloc l s" "\<lambda>s p l. heap_dealloc p l s" "\<lambda>s a w. store a w s"
  region heap_ok kmem
proof (unfold_locales, goal_cases)
  case (1 s H l)
  then show ?case using heap_alloc_ok[of s H l] by blast
next
  case (2 s H l p s')
  then show ?case using heap_alloc_ok[of s H l] by (auto simp: alloc_post_def)
next
  case (3 s H l p s')
  then show ?case using heap_alloc_ok[of s H l] by (force simp: alloc_post_def)
next
  case (4 s H l p s' q k a)
  then show ?case using heap_alloc_ok[of s H l] by (auto simp: alloc_post_def)
next
  case (5 s H p l)
  then show ?case using heap_dealloc_ok[of s H p l] by blast
next
  case (6 s H p l s' q k a)
  then show ?case using heap_dealloc_ok[of s H p l] by auto
next
  case (7 s H p l a w)
  then show ?case using heap_write_ok by simp
next
  case (8 s H p l q k)
  then obtain g where g: "heap_inv g s" "inj_on fst H" "\<And>p l. (p, l) \<in> H \<Longrightarrow> placed g (HHDM_OFFSET s) p l"
    unfolding heap_ok_def by blast
  have "p \<noteq> q" using 8 inj_fstD[OF g(2)] by auto
  then show ?case using placed_separate[OF g(1)] g(3) 8 by blast
qed

end
