(* ===== verification/Vmm_Theorems.thy ===== *)
theory Vmm_Theorems
  imports Vmm_Props
begin

text \<open>
  The theorems on the virtual memory manager (kernel/src/mm/vmm.rs): \<open>translate\<close>, \<open>map\<close> and
  \<open>unmap\<close>, with a small concrete kernel on which each of them is instantiated.
\<close>

section \<open>Concrete kernels\<close>

text \<open>A machine with \<open>n\<close> frames; frame 1 holds an empty PML4, the frames from 2 on are free.\<close>

definition boot_pages :: "nat \<Rightarrow> (mem \<times> Pmm) option" where
  "boot_pages n = do {
     p \<leftarrow> Pmm_new (replicate n 0) (word_of_nat n) 0xffff800000000000;
     add_range (\<lambda>_. 0) p 2 (word_of_nat (n - 2)) }"

definition boot_vmm :: Vmm where
  "boot_vmm = Vmm_new 0x1000"

definition boot_kernel :: "nat \<Rightarrow> vkernel" where
  "boot_kernel n = (case boot_pages n of
     Some (m, p) \<Rightarrow> \<lparr>kmem = m, PMM = Some p, HHDM_OFFSET = 0xffff800000000000, VMM = Some boot_vmm,
                      CR3 = 0x1000, tlb = []\<rparr>
   | None \<Rightarrow> \<lparr>kmem = (\<lambda>_. 0), PMM = None, HHDM_OFFSET = 0, VMM = None, CR3 = 0, tlb = []\<rparr>)"

lemma boot_kernel_inv:
  assumes n: "2 \<le> n" "n \<le> 16"
  shows "vm_inv boot_vmm (boot_kernel n)" "vm_tables boot_vmm (boot_kernel n) = {1}"
    "pmm_avail (boot_kernel n) = {2..<n}" "vm_walk boot_vmm (boot_kernel n) w = None"
    "HHDM_OFFSET (boot_kernel n) = 0xffff800000000000" "tlb (boot_kernel n) = []" "VMM (boot_kernel n) = Some boot_vmm"
    "CR3 (boot_kernel n) = 0x1000"
proof -
  let ?h = "0xffff800000000000 :: u64"
  define c :: u64 where "c = word_of_nat (n - 2)"
  have u: "unat (word_of_nat n :: u64) = n" "unat c = n - 2"
    using n unfolding c_def by (intro unat_of_nat64; simp)+
  have fit: "fits ?h n" using n by (simp add: fits_def)
  obtain p0 where p0: "Pmm_new (replicate n 0) (word_of_nat n) ?h = Some p0" "pmm_inv (\<lambda>_. 0) p0"
    "labels p0 = Map.empty" "total_frames p0 = word_of_nat n" "hhdm_offset p0 = ?h"
    by (rule Pmm_new_inv[of ?h "word_of_nat n" "replicate n 0" "\<lambda>_. 0"]) (simp_all add: fit u)
  have two: "unat (2 :: u64) = 2" and s2: "2 + unat c = n" using u n by simp_all
  have "range_legal p0 2 (unat c)" using p0 u n by (auto simp: range_legal_def)
  then obtain m p where mp: "add_range (\<lambda>_. 0) p0 2 c = Some (m, p)"
      "free_result (\<lambda>_. 0) p0 {2..<n} m p"
    using add_range_ok[OF p0(2), of 2 c, unfolded two s2] n by (simp split: if_splits) blast
  have k: "boot_kernel n = \<lparr>kmem = m, PMM = Some p, HHDM_OFFSET = ?h, VMM = Some boot_vmm, CR3 = 0x1000, tlb = []\<rparr>"
    using mp p0 by (simp only: boot_kernel_def boot_pages_def flip: c_def) simp
  have r: "pmm_inv m p" "dom (labels p) = {2..<n}" "total_frames p = word_of_nat n" "hhdm_offset p = ?h"
    "agree_off (link_words ?h {2..<n}) (\<lambda>_. 0) m"
    using mp(2) p0 by (auto simp: free_result_def)
  have al: "aligned 0x1000" "frame_of 0x1000 = 1" by (simp_all add: aligned_def frame_of_def)
  have sub: "{2..<n} \<subseteq> {..<n}" by auto
  have "slot_of ?h 0x1000 i \<notin> frame_words ?h {2..<n}" if "i < 512" for i
    using frame_word_iff[OF fit sub, of 1 "8 * i"] that n by (simp add: slot_of_fptr[OF al(1)] al(2))
  then have z: "m (slot_of ?h 0x1000 i) = 0" if "i < 512" for i
    using that r(5) link_words_frame_words unfolding agree_off_def by blast
  then have np: "\<forall>i<512. \<not> present (m (slot_of ?h 0x1000 i))" by simp
  note zt = zero_table[OF np] and zk = zero_tree_ok[OF np al(1), of n 3]
  show t: "vm_tables boot_vmm (boot_kernel n) = {1}"
    using zt(4)[of 3] al by (simp add: vm_tables_def k boot_vmm_def Vmm_new_def)
  show "pmm_avail (boot_kernel n) = {2..<n}" by (simp add: pmm_avail_def k r)
  then show "vm_inv boot_vmm (boot_kernel n)" unfolding vm_inv_def t
    using r zk al u n by (simp add: pmm_view_defs k boot_vmm_def Vmm_new_def)
  show "vm_walk boot_vmm (boot_kernel n) w = None"
    using zt(2)[of 3 w] by (simp add: vm_walk_def k boot_vmm_def Vmm_new_def)
  show "HHDM_OFFSET (boot_kernel n) = ?h" "tlb (boot_kernel n) = []" "VMM (boot_kernel n) = Some boot_vmm"
    "CR3 (boot_kernel n) = 0x1000"
    by (simp_all add: k)
qed

abbreviation small_kernel :: vkernel where
  "small_kernel \<equiv> boot_kernel 16"

abbreviation small_vmm :: Vmm where
  "small_vmm \<equiv> boot_vmm"

lemmas small_kernel_inv = boot_kernel_inv[of 16, simplified]

section \<open>Theorems\<close>

text \<open>
  C40. \<open>translate\<close> never panics and agrees with the walk of the page tables: it answers for
  canonical addresses only, takes the address of the leaf entry the walk reaches at
  whatever level it is, adds the offset within that page, and reports the flag bits of
  the entry.
\<close>

theorem translate_is_walk:
  assumes "x86_ok X" "vm_inv v s"
  shows "Vmm_translate X v w s = Some (
    if \<not> is_canonical w then None
    else case lookup (kmem s) (HHDM_OFFSET s) 3 (top_level v) w of
      None \<Rightarrow> None
    | Some (level, e) \<Rightarrow>
        Some (entry_addr e + take_bit (12 + 9 * level) w, PTFlags_from_bits_truncate X e))"
  using translate_eq[OF assms, of w] by (simp add: vm_walk_def page_translation_def split: option.splits)

theorem translate_is_walk_witness:
  "Vmm_translate amd64 small_vmm 0x1234 small_kernel = Some None"
  using translate_is_walk[OF amd64_ok small_kernel_inv(1), of "0x1234"]
    small_kernel_inv(4)[of "0x1234"] by (simp add: vm_walk_def)

text \<open>
  C8. A successful \<open>map\<close> establishes exactly the requested mapping: afterwards every
  canonical address of the page translates to the corresponding physical address with
  the flags of the new entry, the translation of every other canonical address is
  what it was, the page was flushed from the look-aside buffer, and the state is well formed again.
\<close>

theorem map_translates:
  assumes x: "x86_ok X" and inv: "vm_inv v s" and pa: "unat phys < 2 ^ 52" and fl: "flags AND ADDRESS_MASK = 0"
    and ok: "Vmm_map X v virt phys flags sz s = Some (Inr (), s')" and w: "is_canonical w"
  shows "vm_inv v s' \<and> tlb s' = tlb s @ [Flush virt] \<and>
    Vmm_translate X v w s' =
      (if in_page virt sz w
       then Some (Some (phys + (w - virt), PTFlags_from_bits_truncate X (leaf_bits X flags sz)))
       else Vmm_translate X v w s)"
proof -
  have g: "map_guard X virt phys sz = None"
    using ok by (auto simp: Vmm_map_eq[OF x] split: option.splits)
  note gd = map_guard_None[OF x g]
  obtain r s1 where r: "Vmm_map X v virt phys flags sz s = Some (r, s1)"
    "pmm_tables.map_post virt (phys OR leaf_bits X flags sz) (page_level sz) 3 (top_level v) s r s1"
    by (rule Vmm_map_ok[OF x inv g pa fl])
  then have e: "r = Inr ()" "s1 = s'" using ok by simp_all
  note p = map_post_vm[OF inv r(2)[unfolded e]]
  note le = leaf_entry[OF x fl gd(3) pa, of sz]
  have wk: "vm_walk v s' w = (if in_page virt sz w then Some (page_level sz, phys OR leaf_bits X flags sz) else vm_walk v s w)"
    using p(9)[of w] in_page_iff[OF gd(2,1) w] by simp
  have "take_bit (12 + 9 * page_level sz) w = w - virt" if "in_page virt sz w"
    using that page_offset_word[OF gd(2)] by (simp add: in_page_def)
  then show ?thesis
    using p(1,9) w translate_eq[OF x inv, of w] translate_eq[OF x p(1), of w] wk le(4,5)
    by (simp add: page_translation_def)
qed

lemma small_map_runs:
  obtains s' where "Vmm_map amd64 small_vmm 0x400000 0x5000 2 Base small_kernel = Some (Inr (), s')"
proof -
  have "map_option fst (Vmm_map amd64 small_vmm 0x400000 0x5000 2 Base small_kernel) = Some (Inr ())"
    by code_simp
  then show thesis using that by (cases "Vmm_map amd64 small_vmm 0x400000 0x5000 2 Base small_kernel") auto
qed

lemma small_addresses:
  "is_canonical 0x400000" "is_canonical 0x400123" "in_page 0x400000 Base 0x400123"
  "\<not> in_page 0x400000 Base 0x1234" "is_canonical 0x1234" "(2 :: u64) AND ADDRESS_MASK = 0" "unat (0x5000 :: u64) < 2 ^ 52"
  by (simp_all add: is_canonical_def in_page_def ADDRESS_MASK_def)

theorem map_translates_witness:
  "\<exists>s'. Vmm_map amd64 small_vmm 0x400000 0x5000 2 Base small_kernel = Some (Inr (), s') \<and>
     Vmm_translate amd64 small_vmm 0x400123 s' = Some (Some (0x5123, 3)) \<and>
     Vmm_translate amd64 small_vmm 0x1234 s' = Some None"
proof -
  obtain s' where s': "Vmm_map amd64 small_vmm 0x400000 0x5000 2 Base small_kernel = Some (Inr (), s')"
    by (rule small_map_runs)
  note sa = small_addresses
  note t = map_translates[OF amd64_ok small_kernel_inv(1) sa(7,6) s']
  have "Vmm_translate amd64 small_vmm 0x1234 small_kernel = Some None"
    using translate_eq[OF amd64_ok small_kernel_inv(1), of "0x1234"] small_kernel_inv(4)[of "0x1234"] by simp
  then show ?thesis
    using s' t[OF sa(2)] t[OF sa(5)] sa(3,4) by (auto simp: amd64_def amd64_flags_def)
qed

text \<open>
  C9. The result of \<open>map\<close> is determined: it refuses a non-canonical
  address, then a misaligned one; it reports \<open>AlreadyMapped\<close> exactly when the walk meets a
  present entry where the page would go or a larger page above it; it reports
  \<open>OutOfMemory\<close> exactly when fewer frames are free than tables are missing on the way; past
  all that it panics when the physical address has more than 52 bits and
  succeeds in every other case.  So an address an entry can hold never makes it panic.  (The flags are a value of the crate's
  flag type, which has no bit in the address field.)
\<close>

theorem map_outcome:
  assumes x: "x86_ok X" and inv: "vm_inv v s" and fl: "flags AND ADDRESS_MASK = 0"
  shows "map_option fst (Vmm_map X v virt phys flags sz s) =
    (if \<not> is_canonical virt then Some (Inl NonCanonical)
     else if \<not> (2 ^ (12 + 9 * page_level sz) dvd unat virt \<and> 2 ^ (12 + 9 * page_level sz) dvd unat phys)
       then Some (Inl Misaligned)
     else if occupied (kmem s) (HHDM_OFFSET s) (page_level sz) virt 3 (top_level v) then Some (Inl AlreadyMapped)
     else if card (pmm_avail s) < missing (kmem s) (HHDM_OFFSET s) (page_level sz) virt 3 (top_level v)
       then Some (Inl OutOfMemory)
     else if 2 ^ 52 \<le> unat phys then None
     else Some (Inr ()))"
proof (cases "map_guard X virt phys sz")
  case None
  obtain e r s' where r:
    "Vmm_map X v virt phys flags sz s = (if r = Inr () \<and> 2 ^ 52 \<le> unat phys then None else Some (r, s'))"
    "pmm_tables.map_post virt e (page_level sz) 3 (top_level v) s r s'"
    by (rule Vmm_map_result[OF x inv None fl])
  have "is_canonical virt" "2 ^ (12 + 9 * page_level sz) dvd unat virt" "2 ^ (12 + 9 * page_level sz) dvd unat phys"
    using None by (simp_all add: map_guard_def bytes_multiple[OF x] split: if_splits)
  then show ?thesis using r(1) map_post_vm(10)[OF inv r(2)] by simp
next
  case (Some e)
  then have "Vmm_map X v virt phys flags sz s = Some (Inl e, s)" by (simp add: Vmm_map_eq[OF x])
  then show ?thesis using Some by (simp add: map_guard_def bytes_multiple[OF x] split: if_splits)
qed

theorem map_outcome_witness:
  "map_option fst (Vmm_map amd64 small_vmm 0x400800 0x5000 2 Base small_kernel) = Some (Inl Misaligned) \<and>
   map_option fst (Vmm_map amd64 small_vmm 0x800000000000 0x5000 2 Base small_kernel) = Some (Inl NonCanonical)"
  using map_outcome[OF amd64_ok small_kernel_inv(1) small_addresses(6), of "0x400800" "0x5000" Base]
    map_outcome[OF amd64_ok small_kernel_inv(1) small_addresses(6), of "0x800000000000" "0x5000" Base]
  by (auto simp: is_canonical_def)

text \<open>
  C10. A failed \<open>map\<close> leaves no trace: whatever the error, and in particular when the
  allocator runs out after some of the missing tables were already created, every address
  translates as before, the tables occupy the same frames, the same frames are free, memory outside
  the tables and the free frames is unchanged, the manager and CR3 are the same and
  no invalidation was issued.
\<close>

theorem map_failure_clean:
  assumes x: "x86_ok X" and inv: "vm_inv v s" and fl: "flags AND ADDRESS_MASK = 0"
    and err: "Vmm_map X v virt phys flags sz s = Some (Inl e, s')"
  shows "vm_inv v s' \<and> Vmm_translate X v w s' = Vmm_translate X v w s \<and> vm_tables v s' = vm_tables v s \<and>
    pmm_avail s' = pmm_avail s \<and> tlb s' = tlb s \<and>
    agree_off (frame_words (HHDM_OFFSET s) (vm_tables v s \<union> pmm_avail s)) (kmem s) (kmem s') \<and>
    HHDM_OFFSET s' = HHDM_OFFSET s \<and> VMM s' = VMM s \<and> CR3 s' = CR3 s"
proof (cases "map_guard X virt phys sz")
  case None
  obtain le r s1 where r:
    "Vmm_map X v virt phys flags sz s = (if r = Inr () \<and> 2 ^ 52 \<le> unat phys then None else Some (r, s1))"
    "pmm_tables.map_post virt le (page_level sz) 3 (top_level v) s r s1"
    by (rule Vmm_map_result[OF x inv None fl])
  then have e: "r = Inl e" "s1 = s'" using err by (auto split: if_splits)
  note p = map_post_vm[OF inv r(2)[unfolded e]]
  have "e = AlreadyMapped \<or> e = OutOfMemory" using p(10) by (auto split: if_splits)
  then show ?thesis
  proof
    assume "e = OutOfMemory"
    then have o: "pmm_avail s' = pmm_avail s" "tlb s' = tlb s" "vm_walk v s' = vm_walk v s" using p(8) by simp_all
    have "vm_tables v s' = vm_tables v s"
      using p(1,3) inv o(1) unfolding vm_inv_def by blast
    then show ?thesis using o p(1,4-6,11) translate_eq[OF x inv, of w] translate_eq[OF x p(1), of w] by simp
  qed (use p(7) inv in simp)
next
  case (Some g)
  then have "s' = s" using err by (simp add: Vmm_map_eq[OF x])
  then show ?thesis using inv by simp
qed

theorem map_failure_clean_witness:
  "\<exists>s'. Vmm_map amd64 boot_vmm 0x400000 0x5000 2 Base (boot_kernel 4) = Some (Inl OutOfMemory, s') \<and>
     vm_tables boot_vmm s' = {1} \<and> pmm_avail s' = {2, 3}"
proof -
  have inv: "vm_inv boot_vmm (boot_kernel 4)" "vm_tables boot_vmm (boot_kernel 4) = {1}"
    "pmm_avail (boot_kernel 4) = {2, 3}" using boot_kernel_inv[of 4] by auto
  have "map_option fst (Vmm_map amd64 boot_vmm 0x400000 0x5000 2 Base (boot_kernel 4)) = Some (Inl OutOfMemory)"
    by code_simp
  then obtain s' where s': "Vmm_map amd64 boot_vmm 0x400000 0x5000 2 Base (boot_kernel 4) = Some (Inl OutOfMemory, s')"
    by (cases "Vmm_map amd64 boot_vmm 0x400000 0x5000 2 Base (boot_kernel 4)") auto
  with map_failure_clean[OF amd64_ok inv(1) small_addresses(6) s'] inv(2,3) show ?thesis by simp
qed

text \<open>
  C11. \<open>unmap\<close> never panics and is exact.  It succeeds precisely when the walk for the address
  ends in a page of the requested size; then no address of the page translates any more,
  every other canonical address translates as before, and the tables on the way that hold nothing else, \<open>vm_emptied\<close>, are
  tables no longer and exactly they are added to the free frames; memory outside
  the tables and the free frames is unchanged, and the page was flushed, followed
  by one full flush per table that was given back.  Otherwise it reports the reason and
  leaves the state untouched.
\<close>

theorem unmap_exact:
  assumes x: "x86_ok X" and inv: "vm_inv v s"
  shows "\<exists>r s'. Vmm_unmap X v virt sz s = Some (r, s') \<and>
    (case r of
      Inl e \<Rightarrow> s' = s \<and> e = (if \<not> is_canonical virt then UnmapNonCanonical
        else if \<not> 2 ^ (12 + 9 * page_level sz) dvd unat virt then UnmapMisaligned else NotMapped)
    | Inr _ \<Rightarrow> vm_inv v s' \<and>
        (let E = emptied (kmem s) (HHDM_OFFSET s) (page_level sz) virt 3 (top_level v) in
         E \<subseteq> vm_tables v s \<and> vm_tables v s' = vm_tables v s - E \<and> pmm_avail s' = pmm_avail s \<union> E \<and>
         tlb s' = tlb s @ Flush virt # replicate (card E) FlushAll) \<and>
        agree_off (frame_words (HHDM_OFFSET s) (vm_tables v s \<union> pmm_avail s)) (kmem s) (kmem s') \<and>
        (\<forall>w. is_canonical w \<longrightarrow> Vmm_translate X v w s' =
          (if in_page virt sz w then Some None else Vmm_translate X v w s))) \<and>
    (r = Inr () \<longleftrightarrow> is_canonical virt \<and> 2 ^ (12 + 9 * page_level sz) dvd unat virt \<and>
      (\<exists>e. lookup (kmem s) (HHDM_OFFSET s) 3 (top_level v) virt = Some (page_level sz, e)))"
proof (cases "unmap_guard X virt sz")
  case None
  then have g: "is_canonical virt" "2 ^ (12 + 9 * page_level sz) dvd unat virt"
    by (simp_all add: unmap_guard_def bytes_multiple[OF x] split: if_splits)
  obtain r s' where r: "Vmm_unmap X v virt sz s = Some (r, s')"
    "pmm_tables.unmap_post virt (page_level sz) 3 (top_level v) s r s'" by (rule Vmm_unmap_ok[OF x inv None])
  note p = unmap_post_vm[OF inv r(2)]
  have tr: "Vmm_translate X v w s' = (if in_page virt sz w then Some None else Vmm_translate X v w s)"
    if "is_canonical w" "r = Inr ()" for w
    using p(8)[OF that(2), of w] that(1) in_page_iff[OF g(2,1) that(1)] translate_eq[OF x inv, of w]
      translate_eq[OF x p(1), of w] by simp
  show ?thesis
  proof (cases r)
    case (Inl e)
    then have "s' = s" "e = NotMapped" using p(7,9) by (auto split: if_splits)
    then show ?thesis using r(1) Inl g p(9) by (simp add: vm_walk_def split: if_splits)
  next
    case (Inr u)
    then have ok: "r = Inr ()" by simp
    have "\<exists>e. lookup (kmem s) (HHDM_OFFSET s) 3 (top_level v) virt = Some (page_level sz, e)"
      using p(9) ok by (simp add: vm_walk_def split: if_splits)
    then show ?thesis using r(1) ok g p(1,10) p(8)[OF ok] p(11)[OF ok] tr[OF _ ok]
      unfolding vm_emptied_def Let_def by (intro exI[of _ r] exI[of _ s']) simp
  qed
next
  case (Some e)
  then have "Vmm_unmap X v virt sz s = Some (Inl e, s)" by (simp add: Vmm_unmap_eq[OF x])
  then show ?thesis using Some by (simp add: unmap_guard_def bytes_multiple[OF x] split: if_splits)
qed

lemma small_mapped:
  obtains s1 where "Vmm_map amd64 small_vmm 0x400000 0x5000 2 Base small_kernel = Some (Inr (), s1)"
    "vm_inv small_vmm s1" "vm_walk small_vmm s1 0x400000 = Some (0, 0x5003)"
    "vm_tables small_vmm s1 \<union> pmm_avail s1 = {1..<16}"
proof -
  obtain s1 where s1: "Vmm_map amd64 small_vmm 0x400000 0x5000 2 Base small_kernel = Some (Inr (), s1)"
    by (rule small_map_runs)
  then have g: "map_guard amd64 0x400000 0x5000 Base = None"
    by (auto simp: Vmm_map_eq[OF amd64_ok] split: option.splits)
  obtain r s' where r: "Vmm_map amd64 small_vmm 0x400000 0x5000 2 Base small_kernel = Some (r, s')"
    "pmm_tables.map_post 0x400000 (0x5000 OR leaf_bits amd64 2 Base) (page_level Base) 3 (top_level small_vmm) small_kernel r s'"
    by (rule Vmm_map_ok[OF amd64_ok small_kernel_inv(1) g small_addresses(7,6)])
  note p = map_post_vm[OF small_kernel_inv(1) r(2)]
  have e: "r = Inr ()" "s' = s1" using r(1) s1 by simp_all
  have "vm_walk small_vmm s1 0x400000 = Some (0, 0x5003)"
    using p(9)[OF e(1), of "0x400000"] e(2) by (simp add: same_page_def amd64_def)
  moreover have "vm_tables small_vmm s1 \<union> pmm_avail s1 = {1..<16}"
    unfolding e(2)[symmetric] p(3) small_kernel_inv(2,3) by auto
  ultimately show thesis using that[OF s1] p(1) e(2) by simp
qed

theorem unmap_exact_witness:
  "\<exists>s1 s2. Vmm_map amd64 small_vmm 0x400000 0x5000 2 Base small_kernel = Some (Inr (), s1) \<and>
     Vmm_unmap amd64 small_vmm 0x400000 Base s1 = Some (Inr (), s2) \<and>
     Vmm_translate amd64 small_vmm 0x400123 s2 = Some None \<and> vm_tables small_vmm s2 \<union> pmm_avail s2 = {1..<16}"
proof -
  obtain s1 where s1: "Vmm_map amd64 small_vmm 0x400000 0x5000 2 Base small_kernel = Some (Inr (), s1)"
    "vm_inv small_vmm s1" "vm_walk small_vmm s1 0x400000 = Some (0, 0x5003)"
    "vm_tables small_vmm s1 \<union> pmm_avail s1 = {1..<16}" by (rule small_mapped)
  note sa = small_addresses
  from unmap_exact[OF amd64_ok s1(2), of "0x400000" Base] s1(3) sa(1) obtain E s2 where
    s2: "Vmm_unmap amd64 small_vmm 0x400000 Base s1 = Some (Inr (), s2)" "Vmm_translate amd64 small_vmm 0x400123 s2 = Some None"
    "E \<subseteq> vm_tables small_vmm s1" "vm_tables small_vmm s2 = vm_tables small_vmm s1 - E" "pmm_avail s2 = pmm_avail s1 \<union> E"
    using sa(2,3) by (auto simp: vm_walk_def Let_def split: sum.splits)
  then have "vm_tables small_vmm s2 \<union> pmm_avail s2 = {1..<16}" using s1(4) by blast
  then show ?thesis using s1(1) s2(1,2) by blast
qed

lemma not_occupied_unmapped:
  "\<not> occupied m h t v l pa \<Longrightarrow> t \<le> l \<Longrightarrow> same_page t l v w \<Longrightarrow> lookup m h l pa w = None"
proof (induction l arbitrary: pa)
  case 0
  then show ?case by (simp add: Let_def same_page_def)
next
  case (Suc l)
  have i: "level_index (Suc l) w = level_index (Suc l) v" using Suc.prems(2,3) by (simp add: same_page_def)
  show ?case
  proof (cases "Suc l = t")
    case True
    then show ?thesis using Suc.prems(1) i by (auto simp: Let_def)
  next
    case False
    then have "t \<le> l" using Suc.prems(2) by simp
    then show ?thesis using Suc.prems i Suc.IH same_page_Suc[of t l v w] by (auto simp: Let_def)
  qed
qed

text \<open>
  C12. Mapping a page and unmapping it again restores every translation: the \<open>unmap\<close> succeeds,
  and afterwards every canonical address translates as it did before the \<open>map\<close>.
\<close>

theorem map_unmap_roundtrip:
  assumes x: "x86_ok X" and inv: "vm_inv v s" and pa: "unat phys < 2 ^ 52" and fl: "flags AND ADDRESS_MASK = 0"
    and ok: "Vmm_map X v virt phys flags sz s = Some (Inr (), s1)"
  shows "\<exists>s2. Vmm_unmap X v virt sz s1 = Some (Inr (), s2) \<and> vm_inv v s2 \<and>
    (\<forall>w. is_canonical w \<longrightarrow> Vmm_translate X v w s2 = Vmm_translate X v w s)"
proof -
  have g: "map_guard X virt phys sz = None" using ok by (auto simp: Vmm_map_eq[OF x] split: option.splits)
  note gd = map_guard_None[OF x g]
  have g': "unmap_guard X virt sz = None" using gd by (simp add: unmap_guard_def bytes_multiple[OF x])
  obtain r s' where r: "Vmm_map X v virt phys flags sz s = Some (r, s')"
    "pmm_tables.map_post virt (phys OR leaf_bits X flags sz) (page_level sz) 3 (top_level v) s r s'"
    by (rule Vmm_map_ok[OF x inv g pa fl])
  then have e: "r = Inr ()" "s' = s1" using ok by simp_all
  note p = map_post_vm[OF inv r(2)[unfolded e]]
  have no: "\<not> occupied (kmem s) (HHDM_OFFSET s) (page_level sz) virt 3 (top_level v)"
    using p(10) by (auto split: if_splits)
  obtain r2 s2 where u: "Vmm_unmap X v virt sz s1 = Some (r2, s2)"
    "pmm_tables.unmap_post virt (page_level sz) 3 (top_level v) s1 r2 s2" by (rule Vmm_unmap_ok[OF x p(1) g'])
  note q = unmap_post_vm[OF p(1) u(2)]
  have "vm_walk v s1 virt = Some (page_level sz, phys OR leaf_bits X flags sz)"
    using p(9)[of virt] by (simp add: same_page_def)
  then have ok2: "r2 = Inr ()" using q(9) by simp
  have "vm_walk v s2 w = vm_walk v s w" for w
    using q(8)[OF ok2, of w] p(9)[of w] not_occupied_unmapped[OF no page_level_le(2), of w]
    by (simp add: vm_walk_def)
  then have "Vmm_translate X v w s2 = Vmm_translate X v w s" for w
    using translate_eq[OF x inv, of w] translate_eq[OF x q(1), of w] by simp
  then show ?thesis using u(1) ok2 q(1) by blast
qed

theorem map_unmap_roundtrip_witness:
  "\<exists>s1 s2. Vmm_map amd64 small_vmm 0x400000 0x5000 2 Base small_kernel = Some (Inr (), s1) \<and>
     Vmm_unmap amd64 small_vmm 0x400000 Base s1 = Some (Inr (), s2) \<and>
     Vmm_translate amd64 small_vmm 0x400123 s2 = Vmm_translate amd64 small_vmm 0x400123 small_kernel"
proof -
  obtain s1 where s1: "Vmm_map amd64 small_vmm 0x400000 0x5000 2 Base small_kernel = Some (Inr (), s1)"
    by (rule small_map_runs)
  from map_unmap_roundtrip[OF amd64_ok small_kernel_inv(1) small_addresses(7,6) s1] s1 small_addresses(2)
  show ?thesis by blast
qed

lemma leaf_bits_named:
  assumes x: "x86_ok X"
  shows "PTFlags_from_bits_truncate X (leaf_bits X flags sz) AND NAMED_FLAGS = (flags OR 1) AND NAMED_FLAGS"
proof -
  obtain all where a: "\<And>w. PTFlags_from_bits_truncate X w = w AND all" "NAMED_FLAGS AND all = NAMED_FLAGS"
    using trunc_and[OF x86_trunc(1)[OF x]] by metis
  have "(w OR 129) AND NAMED_FLAGS = (w OR 1) AND NAMED_FLAGS" for w :: u64
    by (simp add: bit.conj_disj_distrib2 NAMED_FLAGS_def)
  moreover have "(w AND COMMON_FLAGS OR 1) AND NAMED_FLAGS = (w OR 1) AND NAMED_FLAGS" for w :: u64
  proof -
    have "w AND NAMED_FLAGS = w AND COMMON_FLAGS OR (w AND 1)"
      by (simp add: NAMED_FLAGS_def COMMON_FLAGS_def flip: bit.conj_disj_distrib)
    moreover have "COMMON_FLAGS AND NAMED_FLAGS = COMMON_FLAGS" by (simp add: NAMED_FLAGS_def COMMON_FLAGS_def)
    moreover have "w AND 1 OR (1 :: u64) = 1" by (simp add: or.commute)
    ultimately show ?thesis by (simp add: bit.conj_disj_distrib2 and.assoc or.assoc NAMED_FLAGS_def)
  qed
  ultimately have "leaf_bits X flags sz AND NAMED_FLAGS = (flags OR 1) AND NAMED_FLAGS"
    by (cases sz) (simp_all add: x86_simps[OF x] big_leaf[OF x])
  then show ?thesis using a by (simp add: and.assoc and.commute[of all])
qed

text \<open>
  C13. Access rights: the flags \<open>translate\<close> reports for a freshly mapped page agree with the
  requested ones on every flag the kernel uses (write, user, caching, global, no-execute),
  and the present flag is set, for all three page sizes.
\<close>

theorem map_access_rights:
  assumes x: "x86_ok X" and inv: "vm_inv v s" and pa: "unat phys < 2 ^ 52" and fl: "flags AND ADDRESS_MASK = 0"
    and ok: "Vmm_map X v virt phys flags sz s = Some (Inr (), s')"
  shows "\<exists>fl'. Vmm_translate X v virt s' = Some (Some (phys, fl')) \<and>
    fl' AND 0x800000000000011F = (flags OR 1) AND 0x800000000000011F"
proof -
  have g: "map_guard X virt phys sz = None" using ok by (auto simp: Vmm_map_eq[OF x] split: option.splits)
  note gd = map_guard_None[OF x g]
  obtain r s1 where r: "Vmm_map X v virt phys flags sz s = Some (r, s1)"
    "pmm_tables.map_post virt (phys OR leaf_bits X flags sz) (page_level sz) 3 (top_level v) s r s1"
    by (rule Vmm_map_ok[OF x inv g pa fl])
  then have e: "r = Inr ()" "s1 = s'" using ok by simp_all
  note p = map_post_vm[OF inv r(2)[unfolded e]]
  note le = leaf_entry[OF x fl gd(3) pa, of sz]
  have "vm_walk v s' virt = Some (page_level sz, phys OR leaf_bits X flags sz)"
    using p(9)[of virt] by (simp add: same_page_def)
  moreover have "take_bit (12 + 9 * page_level sz) virt = 0"
    using page_offset_word[OF gd(2), of virt] by simp
  ultimately have t: "Vmm_translate X v virt s' = Some (Some (phys, PTFlags_from_bits_truncate X (leaf_bits X flags sz)))"
    using translate_eq[OF x p(1), of virt] gd(1) le(4,5) by (simp add: page_translation_def)
  then show ?thesis using leaf_bits_named[OF x, of flags sz] by (simp add: NAMED_FLAGS_def)
qed

theorem map_access_rights_witness:
  "\<exists>s1 fl. Vmm_map amd64 small_vmm 0x400000 0x5000 2 Base small_kernel = Some (Inr (), s1) \<and>
     Vmm_translate amd64 small_vmm 0x400000 s1 = Some (Some (0x5000, fl)) \<and> fl AND 0x800000000000011F = 3"
proof -
  obtain s1 where s1: "Vmm_map amd64 small_vmm 0x400000 0x5000 2 Base small_kernel = Some (Inr (), s1)"
    by (rule small_map_runs)
  from map_access_rights[OF amd64_ok small_kernel_inv(1) small_addresses(7,6) s1] s1
  show ?thesis by auto
qed

end
