(* ===== verification/Heap_Theorems.thy ===== *)
theory Heap_Theorems
  imports Heap_Props Vmm_Theorems
begin

text \<open>
  The theorems on the kernel heap (kernel/src/mm/heap.rs), with a small concrete kernel on
  which each of them is instantiated.
\<close>

section \<open>A fresh heap\<close>

lemma fresh_heap_ok:
  assumes "pmm_ok s" "pmm_hhdm s = HHDM_OFFSET s" "4096 dvd unat (HHDM_OFFSET s)" "ALLOCATOR s = Heap_new"
  shows "heap_ok s {}"
proof -
  let ?g = "\<lparr>slabs_of = Map.empty, used_of = {}, bigs_of = {}\<rparr>"
  have "fits (HHDM_OFFSET s) (pmm_total s)" using pmm_pages.frames_fit[OF assms(1)] assms(2) by simp
  then have "heap_inv ?g s"
    using assms by (auto simp: heap_inv_def heap_lists_def bucket_ok_def partial_set_def bigs_ok_def big_frames_def
        heap_frames_def Heap_new_def)
  then show ?thesis by (intro heap_okI) auto
qed

definition heap_kernel :: hkernel where
  "heap_kernel = vkernel.extend (boot_kernel 16) (hkernel.fields Heap_new)"

lemma heap_kernel_simps:
  "kmem heap_kernel = kmem (boot_kernel 16)" "PMM heap_kernel = PMM (boot_kernel 16)"
  "HHDM_OFFSET heap_kernel = 0xffff800000000000" "ALLOCATOR heap_kernel = Heap_new"
  using boot_kernel_inv(5)[of 16] by (simp_all add: heap_kernel_def vkernel.defs hkernel.defs)

lemma heap_kernel_ok:
  "heap_ok heap_kernel {}" "pmm_avail heap_kernel = {2..<16}"
proof -
  have "pmm_ok (boot_kernel 16)" "pmm_hhdm (boot_kernel 16) = 0xffff800000000000"
    using boot_kernel_inv(1,5)[of 16] by (simp_all add: vm_inv_def)
  then show "heap_ok heap_kernel {}"
    by (intro fresh_heap_ok) (simp_all add: heap_kernel_simps pmm_ok_def pmm_hhdm_def)
  show "pmm_avail heap_kernel = {2..<16}" using boot_kernel_inv(3)[of 16] by (simp add: pmm_avail_def heap_kernel_simps)
qed

section \<open>Theorems\<close>

text \<open>
  C15. Memory safety of the global allocator: after any sequence of allocations, releases and
  writes to live blocks, starting with a fresh heap, every word a client wrote to a live block
  still has its value, the live blocks do not overlap, every live block can be released and
  no request makes the allocator panic.
\<close>

theorem heap_session_integrity:
  assumes "pmm_ok s0" "pmm_hhdm s0 = HHDM_OFFSET s0" "4096 dvd unat (HHDM_OFFSET s0)" "ALLOCATOR s0 = Heap_new"
    and "session (\<lambda>s l. heap_alloc l s) (\<lambda>s p l. heap_dealloc p l s) (\<lambda>s a w. store a w s) region s0 s H V"
  shows "(\<forall>a w. V a = Some w \<longrightarrow> kmem s a = w) \<and>
    (\<forall>p l q k. (p, l) \<in> H \<longrightarrow> (q, k) \<in> H \<longrightarrow> (p, l) \<noteq> (q, k) \<longrightarrow> region p l \<inter> region q k = {}) \<and>
    (\<forall>p l. (p, l) \<in> H \<longrightarrow> heap_dealloc p l s \<noteq> None) \<and> (\<forall>l. heap_alloc l s \<noteq> None)"
  using kernel_heap.session_safe[OF assms(5) fresh_heap_ok[OF assms(1-4)]] by blast

theorem heap_session_integrity_witness:
  "\<exists>p s H V. session (\<lambda>s l. heap_alloc l s) (\<lambda>s p l. heap_dealloc p l s) (\<lambda>s a w. store a w s) region heap_kernel s H V \<and>
     H = {(p, \<lparr>lsize = 24, lalign = 8\<rparr>)} \<and> V = [p \<mapsto> 7] \<and> kmem s p = 7"
proof -
  let ?l = "\<lparr>lsize = 24, lalign = 8\<rparr> :: Layout"
  let ?S = "session (\<lambda>s l. heap_alloc l s) (\<lambda>s p l. heap_dealloc p l s) (\<lambda>s a w. store a w s) region heap_kernel"
  obtain p s where s: "heap_alloc ?l heap_kernel = Some (p, s)" "p = 0 \<longrightarrow> refusal heap_kernel ?l"
    using heap_alloc_ok[OF heap_kernel_ok(1), of ?l] by blast
  have "need_of ?l = 24" by (simp add: need_of_def)
  then have "p \<noteq> 0" using s(2) heap_kernel_ok(2) by (auto simp: refusal_def)
  have "?S heap_kernel {} Map.empty" by (rule session.start)
  from session.allocate[OF this s(1) \<open>p \<noteq> 0\<close>] have "?S s {(p, ?l)} Map.empty" .
  moreover have "p \<in> region p ?l" by (auto simp: region_def intro!: exI[of _ 0])
  ultimately have r: "?S (store p 7 s) {(p, ?l)} [p \<mapsto> 7]" using session.put[of _ _ _ _ _ s _ _ p ?l p 7] by blast
  have "pmm_ok heap_kernel" "pmm_hhdm heap_kernel = HHDM_OFFSET heap_kernel"
    using boot_kernel_inv(1,5)[of 16] by (simp_all add: vm_inv_def heap_kernel_simps pmm_ok_def pmm_hhdm_def)
  from heap_session_integrity[OF this _ _ r] have "kmem (store p 7 s) p = 7" by (simp add: heap_kernel_simps)
  with r show ?thesis by blast
qed

text \<open>
  C16. \<open>alloc\<close> never panics.  A block it grants is new, is aligned as the layout asks when the base of the direct
  map is a multiple of that alignment, does not overlap any live block and lies outside the free frames; a request is
  refused only if its size or alignment exceeds the largest block, \<open>2^MAX_ORDER\<close> frames, or no frame is left for a new slab, or no free block of the
  needed order exists.  The contents of live blocks are kept.  (The largest block is 8 MiB, lemma \<open>largest_block\<close>; the comment beside \<open>MAX_ORDER\<close> says 2 MiB.)
\<close>

theorem heap_alloc_correct:
  fixes s :: "'a hkernel_scheme"
  assumes "heap_ok s H" "unat (lalign l) = 2 ^ j"
  shows "\<exists>p s'. heap_alloc l s = Some (p, s') \<and> (\<forall>q k a. (q, k) \<in> H \<longrightarrow> a \<in> region q k \<longrightarrow> kmem s' a = kmem s a) \<and>
    (if p = 0
     then heap_ok s' H \<and> (need_of l > 4096 * 2 ^ MAX_ORDER \<or> need_of l \<le> 1024 \<and> pmm_avail s = {} \<or>
            need_of l > 1024 \<and> (\<forall>f. 2 ^ order_of l dvd f \<longrightarrow> \<not> run f (order_of l) \<subseteq> pmm_avail s))
     else heap_ok s' (insert (p, l) H) \<and> p \<notin> fst ` H \<and> (2 ^ j dvd unat (HHDM_OFFSET s) \<longrightarrow> 2 ^ j dvd unat p) \<and>
          (\<forall>q k. (q, k) \<in> H \<longrightarrow> region p l \<inter> region q k = {}) \<and>
          region p l \<inter> frame_words (HHDM_OFFSET s) (pmm_avail s') = {})"
proof -
  obtain p s' where p: "heap_alloc l s = Some (p, s')" "alloc_post s H l p s'" "p = 0 \<longrightarrow> refusal s l"
    using heap_alloc_ok[OF assms(1)] by blast
  note post = p(2)[unfolded alloc_post_def]
  show ?thesis
  proof (cases "p = 0")
    case True
    then show ?thesis using p(1,3) post by (auto simp: refusal_def split: if_splits)
  next
    case False
    then have ok: "heap_ok s' (insert (p, l) H)" and fresh: "p \<notin> fst ` H" using post by auto
    have h: "HHDM_OFFSET s' = HHDM_OFFSET s" using post hhdm_hrest by blast
    obtain g where g: "heap_inv g s'" "placed g (HHDM_OFFSET s') p l" using ok unfolding heap_ok_def by blast
    have "2 ^ j dvd unat (HHDM_OFFSET s) \<longrightarrow> 2 ^ j dvd unat p" using placed_aligned[OF g assms(2)] h by simp
    moreover have "region p l \<inter> frame_words (HHDM_OFFSET s) (pmm_avail s') = {}" using placed_not_free[OF g] h by auto
    moreover have "region p l \<inter> region q k = {}" if "(q, k) \<in> H" for q k
      using kernel_heap.ok_separate[OF ok, of p l q k] that fresh by force
    ultimately show ?thesis using p(1) post ok fresh False by auto
  qed
qed

theorem heap_alloc_correct_witness:
  "\<exists>p s'. heap_alloc \<lparr>lsize = 100, lalign = 64\<rparr> heap_kernel = Some (p, s') \<and> p \<noteq> 0 \<and> 64 dvd unat p"
proof -
  let ?l = "\<lparr>lsize = 100, lalign = 64\<rparr> :: Layout"
  have n: "need_of ?l = 100" by (simp add: need_of_def)
  have "unat (lalign ?l) = 2 ^ 6" and h: "(2 :: nat) ^ 6 dvd unat (HHDM_OFFSET heap_kernel)" by (simp_all add: heap_kernel_simps)
  from heap_alloc_correct[OF heap_kernel_ok(1) this(1)] h show ?thesis
    by (auto simp: n heap_kernel_ok(2) split: if_splits)
qed

text \<open>
  C17. \<open>dealloc\<close> of a live block succeeds, keeps the contents of all other live blocks, and leaves a
  heap in which the released block is no longer live.
\<close>

theorem heap_dealloc_correct:
  fixes s :: "'a hkernel_scheme"
  assumes "heap_ok s H" "(p, l) \<in> H"
  shows "\<exists>s'. heap_dealloc p l s = Some s' \<and> heap_ok s' (H - {(p, l)}) \<and> pmm_avail s \<subseteq> pmm_avail s' \<and>
    (\<forall>q k a. (q, k) \<in> H - {(p, l)} \<longrightarrow> a \<in> region q k \<longrightarrow> kmem s' a = kmem s a)"
  using heap_dealloc_ok[OF assms] by blast

theorem heap_dealloc_correct_witness:
  "\<exists>p s s'. heap_alloc \<lparr>lsize = 5000, lalign = 8\<rparr> heap_kernel = Some (p, s) \<and> p \<noteq> 0 \<and>
     heap_dealloc p \<lparr>lsize = 5000, lalign = 8\<rparr> s = Some s' \<and> heap_ok s' {}"
proof -
  let ?l = "\<lparr>lsize = 5000, lalign = 8\<rparr> :: Layout"
  have n: "need_of ?l = 5000" by (simp add: need_of_def)
  have "log2_ceil 5000 = 13"
  proof (rule log2_ceil_eqI)
    fix j :: nat assume "j < 13"
    then have "(2 :: nat) ^ j \<le> 2 ^ 12" by (intro power_increasing) simp_all
    then show "2 ^ j < (5000 :: nat)" by simp
  qed simp
  then have o: "order_of ?l = 1" by (simp add: order_of_def n)
  obtain p s where s: "heap_alloc ?l heap_kernel = Some (p, s)" "alloc_post heap_kernel {} ?l p s" "p = 0 \<longrightarrow> refusal heap_kernel ?l"
    using heap_alloc_ok[OF heap_kernel_ok(1), of ?l] by blast
  have "run 2 1 \<subseteq> pmm_avail heap_kernel" by (auto simp: heap_kernel_ok(2) run_def)
  then have "p \<noteq> 0" using s(3) by (auto simp: refusal_def n o intro!: exI[of _ 2])
  then have ok: "heap_ok s {(p, ?l)}" using s(2) by (simp add: alloc_post_def)
  from heap_dealloc_correct[OF ok, of p ?l] s(1) \<open>p \<noteq> 0\<close> show ?thesis by auto
qed

text \<open>
  C19. \<open>bucket_for\<close> never panics; it selects the smallest size class (16 to 1024 bytes) that holds the
  size and the alignment, and declines exactly the requests no class holds.
\<close>

theorem bucket_for_best:
  "bucket_for l = Some (if unat (lsize l) \<le> 1024 \<and> unat (lalign l) \<le> 1024
     then Some (LEAST b. unat (lsize l) \<le> 2 ^ (4 + b) \<and> unat (lalign l) \<le> 2 ^ (4 + b)) else None)"
proof -
  have "(LEAST b. unat (lsize l) \<le> 2 ^ (4 + b) \<and> unat (lalign l) \<le> 2 ^ (4 + b)) = log2_ceil (max (need_of l) 16) - 4"
  proof (rule Least_equality)
    have "max (need_of l) 16 \<le> 2 ^ (4 + b) \<longleftrightarrow> unat (lsize l) \<le> 2 ^ (4 + b) \<and> unat (lalign l) \<le> 2 ^ (4 + b)" for b
      by (auto simp: need_of_def power_add)
    then have le: "log2_ceil (max (need_of l) 16) \<le> 4 + b \<longleftrightarrow> unat (lsize l) \<le> 2 ^ (4 + b) \<and> unat (lalign l) \<le> 2 ^ (4 + b)" for b
      unfolding log2_ceil_le .
    show "unat (lsize l) \<le> 2 ^ (4 + (log2_ceil (max (need_of l) 16) - 4)) \<and>
        unat (lalign l) \<le> 2 ^ (4 + (log2_ceil (max (need_of l) 16) - 4))"
      unfolding le[symmetric] by simp
    show "log2_ceil (max (need_of l) 16) - 4 \<le> b" if "unat (lsize l) \<le> 2 ^ (4 + b) \<and> unat (lalign l) \<le> 2 ^ (4 + b)" for b
      using that unfolding le[symmetric] by simp
  qed
  then show ?thesis by (simp add: bucket_for_eq need_of_def)
qed

text \<open>The largest block the allocator knows: 8 MiB, where the comment beside \<open>MAX_ORDER\<close> (kernel/src/mm/pmm.rs) says 2 MiB.\<close>

lemma largest_block: "4096 * 2 ^ MAX_ORDER = 8 * 1024 * (1024 :: nat)" "4096 * 2 ^ MAX_ORDER \<noteq> 2 * 1024 * (1024 :: nat)"
  by simp_all

text \<open>
  C20. \<open>order_for_large\<close> never panics, whatever the size; it selects the smallest block of frames that
  holds the size and the alignment, and declines exactly the requests above the largest block, \<open>2^MAX_ORDER\<close> frames.
\<close>

theorem order_for_large_best:
  "order_for_large l = Some (if unat (lsize l) \<le> 4096 * 2 ^ MAX_ORDER \<and> unat (lalign l) \<le> 4096 * 2 ^ MAX_ORDER
     then Some (LEAST k. unat (lsize l) \<le> 4096 * 2 ^ k \<and> unat (lalign l) \<le> 4096 * 2 ^ k) else None)"
proof -
  have "(LEAST k. unat (lsize l) \<le> 4096 * 2 ^ k \<and> unat (lalign l) \<le> 4096 * 2 ^ k) = log2_ceil (need_of l) - 12"
  proof (rule Least_equality)
    have "need_of l \<le> 2 ^ (12 + k) \<longleftrightarrow> unat (lsize l) \<le> 4096 * 2 ^ k \<and> unat (lalign l) \<le> 4096 * 2 ^ k" for k
      by (simp add: need_of_def power_add)
    then have le: "log2_ceil (need_of l) \<le> 12 + k \<longleftrightarrow> unat (lsize l) \<le> 4096 * 2 ^ k \<and> unat (lalign l) \<le> 4096 * 2 ^ k" for k
      unfolding log2_ceil_le .
    show "unat (lsize l) \<le> 4096 * 2 ^ (log2_ceil (need_of l) - 12) \<and> unat (lalign l) \<le> 4096 * 2 ^ (log2_ceil (need_of l) - 12)"
      unfolding le[symmetric] by simp
    show "log2_ceil (need_of l) - 12 \<le> k" if "unat (lsize l) \<le> 4096 * 2 ^ k \<and> unat (lalign l) \<le> 4096 * 2 ^ k" for k
      using that unfolding le[symmetric] by simp
  qed
  then show ?thesis by (simp add: order_for_large_eq need_of_def)
qed

text \<open>
  C18. A released block can be had again: right after \<open>dealloc\<close> of a block, \<open>alloc\<close> with the same layout
  succeeds, even when memory is otherwise exhausted.
\<close>

theorem heap_reuse:
  fixes s :: "'a hkernel_scheme"
  assumes ok: "heap_ok s H" and p: "(p, l) \<in> H" and d: "heap_dealloc p l s = Some s'"
  shows "\<exists>p' s''. heap_alloc l s' = Some (p', s'') \<and> p' \<noteq> 0"
proof -
  obtain g where inv: "heap_inv g s" and pl: "placed g (HHDM_OFFSET s) p l" using ok p unfolding heap_ok_def by blast
  note i = heap_invD[OF inv]
  from pl show ?thesis
  proof (cases rule: placed_cases)
    case (small f)
    have "p \<noteq> 0" using obj_not_null[OF i(8) _ small(6), of f] heap_listsD(4)[OF i(4) small(2)] small(3) by blast
    then have "dealloc_small (bucket_of l) (p AND SLAB_MASK) p s = Some s'"
      using d small(1) by (simp add: heap_dealloc_def bucket_for_eq bucket_of_def)
    then have s': "heap_inv (g\<lparr>used_of := used_of g - {p}\<rparr>) s'" "hrest s' = hrest s"
      using dealloc_small_ok[OF inv small(2,3,4)] by auto
    obtain p' s'' where a: "alloc_small (bucket_of l) s' = Some (p', s'')"
      "small_post (g\<lparr>used_of := used_of g - {p}\<rparr>) s' (bucket_of l) p' s''"
      using alloc_small_ok[OF s'(1) small(6)] by blast
    have "p' \<noteq> 0" using a(2) small(2,3) hhdm_hrest[OF s'(2)] by (auto simp: small_post_def split: if_splits)
    then show ?thesis using a(1) small(1) by (simp add: heap_alloc_def bucket_for_eq bucket_of_def)
  next
    case (big f)
    have "f \<in> heap_frames g" using subsetD[OF big(6) run_start] by (simp add: heap_frames_def)
    then have "p \<noteq> 0" using fptr_not_null[OF i(8), of f] i(10) big(3) by auto
    then have "dealloc_large p l s = Some s'" using d big(1) by (simp add: heap_dealloc_def bucket_for_eq)
    then have s': "heap_inv (g\<lparr>bigs_of := bigs_of g - {(f, order_of l)}\<rparr>) s'" "pmm_avail s' = pmm_avail s \<union> run f (order_of l)"
      using dealloc_large_ok[OF inv big(4,2)] big(3) by auto
    have "2 ^ order_of l dvd f" using i(5) big(4) by (auto simp: bigs_ok_def)
    then have "\<not> refusal s' l" using s'(2) big(1,2) by (auto simp: refusal_def)
    moreover have "heap_ok s' {}" using s'(1) by (intro heap_okI) auto
    ultimately show ?thesis using heap_alloc_ok[of s' "{}" l] by blast
  qed
qed

theorem heap_reuse_witness:
  "\<exists>p s s' p' s''. heap_alloc \<lparr>lsize = 100, lalign = 64\<rparr> heap_kernel = Some (p, s) \<and>
     heap_dealloc p \<lparr>lsize = 100, lalign = 64\<rparr> s = Some s' \<and>
     heap_alloc \<lparr>lsize = 100, lalign = 64\<rparr> s' = Some (p', s'') \<and> p' \<noteq> 0"
proof -
  let ?l = "\<lparr>lsize = 100, lalign = 64\<rparr> :: Layout"
  have n: "need_of ?l = 100" by (simp add: need_of_def)
  obtain p s where s: "heap_alloc ?l heap_kernel = Some (p, s)" "alloc_post heap_kernel {} ?l p s" "p = 0 \<longrightarrow> refusal heap_kernel ?l"
    using heap_alloc_ok[OF heap_kernel_ok(1), of ?l] by blast
  then have "p \<noteq> 0" by (auto simp: refusal_def n heap_kernel_ok(2))
  then have ok: "heap_ok s {(p, ?l)}" using s(2) by (simp add: alloc_post_def)
  obtain s' where "heap_dealloc p ?l s = Some s'" using heap_dealloc_ok[OF ok] by blast
  with heap_reuse[OF ok _ this] s(1) show ?thesis by blast
qed

end
