(* ===== verification/Vmm_Clone.thy ===== *)
theory Vmm_Clone
  imports Vmm_Props
begin

text \<open>
  The copy of the boot loader's page tables (\<open>clone_table\<close>, \<open>free_cloned_table\<close> and
  \<open>take_ownership\<close> of kernel/src/mm/vmm.rs): the copy translates like the original and shares no
  table with it, and a copy that fails gives back every frame it took.
\<close>

section \<open>Entries\<close>

lemma clone_entry_simps:
  "ENTRY_ADDR_MASK = ADDRESS_MASK" "e AND 1 = 0 \<longleftrightarrow> \<not> present e" "is_leaf l e \<longleftrightarrow> leaf l e"
proof -
  show "ENTRY_ADDR_MASK = ADDRESS_MASK" by (simp add: ENTRY_ADDR_MASK_def ADDRESS_MASK_def)
  have b: "e AND push_bit n 1 \<noteq> 0 \<longleftrightarrow> bit e n" if "n < 64" for n
  proof
    assume "bit e n"
    then have "bit (e AND push_bit n 1) n" using that by (simp add: bit_simps)
    then show "e AND push_bit n 1 \<noteq> 0" by force
  next
    assume "e AND push_bit n 1 \<noteq> 0"
    then obtain k where "bit (e AND push_bit n 1) k" by (metis bit_eqI bit_0_eq bot_apply bot_bool_def)
    then show "bit e n" by (auto simp: bit_simps bit_1_iff)
  qed
  show "e AND 1 = 0 \<longleftrightarrow> \<not> present e" using b[of 0] by (auto simp: present_def)
  show "is_leaf l e \<longleftrightarrow> leaf l e" using b[of 7] by (auto simp: is_leaf_def leaf_def)
qed

lemma cloned_entry:
  assumes c: "aligned c" "frame_of c < 2 ^ 40" and e: "present e" "\<not> leaf l e"
  shows "present ((c AND ADDRESS_MASK) OR (e AND NOT ADDRESS_MASK))"
    "\<not> leaf l ((c AND ADDRESS_MASK) OR (e AND NOT ADDRESS_MASK))"
    "entry_addr ((c AND ADDRESS_MASK) OR (e AND NOT ADDRESS_MASK)) = c"
proof -
  have b: "bit (c OR (e AND NOT ADDRESS_MASK)) n = bit e n" if "n < 12" for n
    using that bit_aligned_or[OF c(1)] bit_mask[of n] by (simp add: bit_simps)
  note m = mask_id[OF c]
  show "present ((c AND ADDRESS_MASK) OR (e AND NOT ADDRESS_MASK))"
    "\<not> leaf l ((c AND ADDRESS_MASK) OR (e AND NOT ADDRESS_MASK))"
    using e b unfolding m by (simp_all add: present_def leaf_def)
  show "entry_addr ((c AND ADDRESS_MASK) OR (e AND NOT ADDRESS_MASK)) = c"
    unfolding m by (rule entry_addr_or[OF m]) (simp add: and.assoc)
qed

section \<open>Giving a copy back\<close>

text \<open>The number of tables a walk of all entries visits, a table counted once for every entry that refers to it.\<close>

primrec tcount :: "mem \<Rightarrow> u64 \<Rightarrow> nat \<Rightarrow> u64 \<Rightarrow> nat" where
  "tcount m h 0 pa = 1"
| "tcount m h (Suc l) pa = 1 + (\<Sum>i<512. case child m h (Suc l) pa i of None \<Rightarrow> 0 | Some c \<Rightarrow> tcount m h l c)"

definition scount :: "mem \<Rightarrow> u64 \<Rightarrow> nat \<Rightarrow> u64 \<Rightarrow> nat \<Rightarrow> nat" where
  "scount m h l pa i = (case child m h l pa i of None \<Rightarrow> 0 | Some c \<Rightarrow> tcount m h (l - 1) c)"

lemma tcount_eq: "tcount m h l pa = 1 + (\<Sum>i<512. scount m h l pa i)"
  by (cases l) (simp_all add: scount_def cong: option.case_cong)

lemma tcount_prefix: "i < 512 \<Longrightarrow> 1 + (\<Sum>j<i. scount m h l pa j) + scount m h l pa i \<le> tcount m h l pa"
  using sum_mono2[of "{..<512}" "{..<Suc i}" "scount m h l pa"] by (simp add: tcount_eq)

lemma walk_local:
  assumes "aligned pa" "\<forall>a\<in>frame_words h (tframes m h l pa). m' a = m a"
  shows "tframes m' h l pa = tframes m h l pa \<and> tcount m' h l pa = tcount m h l pa \<and>
    (\<forall>v. lookup m' h l pa v = lookup m h l pa v)"
  using assms
proof (induction l arbitrary: pa)
  case 0
  have "m' (slot_of h pa i) = m (slot_of h pa i)" if "i < 512" for i
    using 0(2) slot_in_frame[OF 0(1) that root_in_tframes] by blast
  from this[OF level_index_less] show ?case unfolding lookup.simps tframes.simps tcount.simps by metis
next
  case (Suc l)
  have slots: "m' (slot_of h pa i) = m (slot_of h pa i)" if "i < 512" for i
    using Suc.prems(2) slot_in_frame[OF Suc.prems(1) that root_in_tframes] by blast
  have ch: "child m' h (Suc l) pa i = child m h (Suc l) pa i" if "i < 512" for i
    using slots[OF that] by (rule child_same)
  have IH: "tframes m' h l c = tframes m h l c \<and> tcount m' h l c = tcount m h l c \<and>
      (\<forall>v. lookup m' h l c v = lookup m h l c v)"
    if c: "child m h (Suc l) pa i = Some c" "i < 512" for i c
  proof (rule Suc.IH)
    show "aligned c" using c(1) by (auto simp: child_def Let_def split: if_splits)
    have "tframes m h l c \<subseteq> tframes m h (Suc l) pa"
      using sub_tframes[OF c(2), of m h "Suc l" pa] c(1) by (simp add: sub_def)
    then show "\<forall>a\<in>frame_words h (tframes m h l c). m' a = m a"
      using Suc.prems(2) frame_words_mono by blast
  qed
  have "sub m' h (Suc l) pa i = sub m h (Suc l) pa i" if "i < 512" for i
    using ch[OF that] IH that by (auto simp: sub_def split: option.splits)
  then have "tframes m' h (Suc l) pa = tframes m h (Suc l) pa" unfolding tframes_eq[of _ h "Suc l"] by simp
  moreover have "scount m' h (Suc l) pa i = scount m h (Suc l) pa i" if "i < 512" for i
    using ch[OF that] IH that by (auto simp: scount_def split: option.splits)
  then have "tcount m' h (Suc l) pa = tcount m h (Suc l) pa" unfolding tcount_eq[of _ h "Suc l"] by simp
  moreover have "lookup m' h (Suc l) pa v = lookup m h (Suc l) pa v" for v
    using slots[OF level_index_less, of "Suc l" v] IH[OF _ level_index_less, of "Suc l" v]
    by (auto simp: Let_def child_def)
  ultimately show ?case by blast
qed

text \<open>What the walk to a table at \<open>pa\<close> has given back once the entries below \<open>i\<close> are done.\<close>

definition freed :: "mem \<Rightarrow> u64 \<Rightarrow> nat \<Rightarrow> u64 \<Rightarrow> nat \<Rightarrow> nat set" where
  "freed m h l pa i = (\<Union>j<i. sub m h l pa j)"

lemma freed_simps [simp]: "freed m h l pa 0 = {}" "freed m h l pa (Suc i) = freed m h l pa i \<union> sub m h l pa i"
  by (auto simp: freed_def lessThan_Suc)

lemma freed_tframes: "tframes m h l pa = insert (frame_of pa) (freed m h l pa 512)"
  by (simp add: tframes_eq freed_def)

lemma freed_disjoint:
  assumes t: "tree_ok m h n l pa" and i: "i < 512"
  shows "sub m h l pa i \<inter> freed m h l pa i = {}" "frame_of pa \<notin> freed m h l pa i"
proof -
  have d: "\<forall>i<512. \<forall>j<512. i \<noteq> j \<longrightarrow> sub m h l pa i \<inter> sub m h l pa j = {}" using t tree_ok_eq by blast
  have "sub m h l pa i \<inter> sub m h l pa j = {}" if "j < i" for j
    using d[rule_format, of i j] i that by simp
  then show "sub m h l pa i \<inter> freed m h l pa i = {}" by (auto simp: freed_def)
  have "frame_of pa \<notin> sub m h l pa j" if "j < i" for j
    using t i that unfolding tree_ok_eq[of m h n l pa] by (meson less_trans)
  then show "frame_of pa \<notin> freed m h l pa i" by (auto simp: freed_def)
qed

definition free_post :: "nat set \<Rightarrow> 'a vkernel_scheme \<Rightarrow> 'a vkernel_scheme \<Rightarrow> bool" where
  "free_post F s s' \<longleftrightarrow> pmm_ok s' \<and> pmm_avail s' = pmm_avail s \<union> F \<and> pmm_hhdm s' = pmm_hhdm s \<and>
     pmm_total s' = pmm_total s \<and> kernel.more s' = kernel.more s \<and>
     agree_off (frame_words (pmm_hhdm s) (pmm_avail s \<union> F)) (kmem s) (kmem s')"

lemma free_post_trans:
  assumes "free_post F s s1" "free_post G s1 s2"
  shows "free_post (F \<union> G) s s2"
proof -
  have a: "agree_off (frame_words (pmm_hhdm s) (pmm_avail s \<union> F)) (kmem s) (kmem s1)"
    "agree_off (frame_words (pmm_hhdm s) (pmm_avail s \<union> F \<union> G)) (kmem s1) (kmem s2)"
    using assms by (simp_all add: free_post_def)
  have "agree_off (frame_words (pmm_hhdm s) (pmm_avail s \<union> (F \<union> G))) (kmem s) (kmem s2)"
    by (rule agree_off_trans[OF a]) (rule frame_words_mono, blast)+
  then show ?thesis using assms by (auto simp: free_post_def)
qed

lemma free_cloned_loop_ok:
  fixes s0 :: "'a vkernel_scheme"
  assumes x: "x86_ok X" and inv: "pmm_tables.tree_inv s0 l pa"
    and IH: "\<And>(s :: 'a vkernel_scheme) c. l \<noteq> 0 \<Longrightarrow> pmm_tables.tree_inv s (l - 1) c \<Longrightarrow>
      \<exists>s'. free_cloned_table X c (pmm_hhdm s) (l - 1) s = Some s' \<and> free_post (tframes (kmem s) (pmm_hhdm s) (l - 1) c) s s'"
  defines "m \<equiv> kmem s0" and "h \<equiv> pmm_hhdm s0"
  shows "i \<le> 512 \<Longrightarrow> free_post (freed m h l pa i) s0 s \<Longrightarrow>
    \<exists>s'. free_cloned_loop X (pa + h) h l i s = Some s' \<and> free_post (freed m h l pa 512) s0 s'"
proof (induction "512 - i" arbitrary: i s)
  case 0
  then have "i = 512" by simp
  with 0 show ?case by (subst free_cloned_loop.simps) (simp add: x86_simps[OF x])
next
  case (Suc k)
  then have i: "i < 512" by simp
  note b = pmm_tables.tree_inv_basic[OF inv, folded m_def h_def]
  note fp = Suc.prems(2)[unfolded free_post_def, folded m_def h_def]
  have sub_i: "sub m h l pa i \<subseteq> tframes m h l pa" by (rule sub_tframes[OF i])
  have fr: "freed m h l pa i \<subseteq> tframes m h l pa" using Suc.prems(1) by (auto simp: freed_def tframes_eq)
  have dj: "sub m h l pa i \<inter> freed m h l pa i = {}" "frame_of pa \<notin> freed m h l pa i"
    by (rule freed_disjoint[OF b(6) i])+
  have off: "frame_words h (insert (frame_of pa) (sub m h l pa i)) \<inter> frame_words h (pmm_avail s0 \<union> freed m h l pa i) = {}"
    by (rule frame_words_disjoint[OF b(2)]) (use b(4,5,8,11,12) sub_i fr dj in blast)+
  have same: "kmem s a = m a" if "a \<in> frame_words h (insert (frame_of pa) (sub m h l pa i))" for a
    using off fp that unfolding agree_off_def by blast
  have e: "kmem s (slot_of h pa i) = m (slot_of h pa i)"
    by (rule same) (rule slot_in_frame[OF b(3) i], simp)
  have slot: "pa + h + 8 * word_of_nat i = slot_of h pa i" by (simp add: slot_of_def)
  obtain s1 where s1: "(if \<not> present (m (slot_of h pa i)) then Some s
      else if \<not> leaf l (m (slot_of h pa i)) then free_cloned_table X (entry_addr (m (slot_of h pa i))) h (l - 1) s
      else Some s) = Some s1" "free_post (freed m h l pa (Suc i)) s0 s1"
  proof (cases "child m h l pa i")
    case None
    then have "sub m h l pa i = {}" by (simp add: sub_def)
    with None show thesis using Suc.prems(2) by (intro that[of s]) (auto simp: child_def Let_def split: if_splits)
  next
    case (Some c)
    then have c: "present (m (slot_of h pa i))" "\<not> leaf l (m (slot_of h pa i))" "c = entry_addr (m (slot_of h pa i))"
      by (auto simp: child_def Let_def split: if_splits)
    have sb: "sub m h l pa i = tframes m h (l - 1) c" using Some by (simp add: sub_def)
    have l0: "l \<noteq> 0" using c(2) by (auto simp: leaf_def)
    have "\<forall>a\<in>frame_words h (tframes m h (l - 1) c). kmem s a = m a"
      using same frame_words_mono[of "tframes m h (l - 1) c" "insert (frame_of pa) (sub m h l pa i)" h] sb by blast
    from tree_local[OF _ this] have tl: "tframes (kmem s) h (l - 1) c = tframes m h (l - 1) c"
      "tree_ok (kmem s) h (pmm_total s0) (l - 1) c"
      using b(6) Some i unfolding tree_ok_eq[of m h "pmm_total s0" l] by blast+
    have "pmm_tables.tree_inv s (l - 1) c"
      unfolding pmm_tables.tree_inv_def using fp tl b(10,8) dj sb sub_i by auto
    from IH[OF l0 this] obtain s1 where "free_cloned_table X c h (l - 1) s = Some s1" "free_post (sub m h l pa i) s s1"
      using fp tl(1) sb by auto
    then show thesis using free_post_trans[OF Suc.prems(2)] c by (intro that[of s1]) auto
  qed
  have "free_cloned_loop X (pa + h) h l i s = free_cloned_loop X (pa + h) h l (Suc i) s1"
    using s1(1) i e by (subst free_cloned_loop.simps)
      (simp add: x86_simps[OF x] slot clone_entry_simps entry_addr_def[symmetric] Let_def split: if_splits)
  moreover have "k = 512 - Suc i" using Suc.hyps(2) by simp
  ultimately show ?case using Suc.hyps(1)[OF _ _ s1(2)] i by simp
qed

lemma free_cloned_ok:
  fixes s :: "'a vkernel_scheme"
  assumes x: "x86_ok X"
  shows "pmm_tables.tree_inv s l pa \<Longrightarrow> \<exists>s'. free_cloned_table X pa (pmm_hhdm s) l s = Some s' \<and>
    free_post (tframes (kmem s) (pmm_hhdm s) l pa) s s'"
proof (induction l arbitrary: pa s rule: less_induct)
  case (less l)
  note inv = less.prems
  have IH: "\<exists>s'. free_cloned_table X c (pmm_hhdm s) (l - 1) s = Some s' \<and> free_post (tframes (kmem s) (pmm_hhdm s) (l - 1) c) s s'"
    if "l \<noteq> 0" "pmm_tables.tree_inv s (l - 1) c" for c and s :: "'a vkernel_scheme"
    using less.IH[of "l - 1" s c] that by simp
  note b = pmm_tables.tree_inv_basic[OF inv]
  let ?h = "pmm_hhdm s" and ?F = "freed (kmem s) (pmm_hhdm s) l pa 512"
  have "free_post {} s s" using b(1) by (simp add: free_post_def)
  then obtain s1 where s1: "free_cloned_loop X (pa + ?h) ?h l 0 s = Some s1" "free_post ?F s s1"
    using free_cloned_loop_ok[OF x inv IH, of 0 s] by auto
  have "frame_of pa \<notin> ?F" using b(6) unfolding tree_ok_eq[of "kmem s" ?h "pmm_total s" l] by (auto simp: freed_def)
  then have r: "pmm_ok s1" "4096 dvd unat pa" "frame_of pa < pmm_total s1" "frame_of pa \<notin> pmm_avail s1"
    using s1(2) b(3,4,5) by (auto simp: free_post_def aligned_def)
  obtain s2 where s2: "pmm_free_pages pa 0 s1 = Some s2" "free_post {frame_of pa} s1 s2"
    by (rule pmm_pages.release_one[OF r]) (auto simp: free_post_def)
  have "free_cloned_table X pa ?h l s = Some s2"
    using s1(1) s2(1) b(7) by (subst free_cloned_table.simps) (simp add: frame_is_page)
  moreover have "free_post (tframes (kmem s) ?h l pa) s s2"
    using free_post_trans[OF s1(2) s2(2)] by (simp add: freed_tframes)
  ultimately show ?case by blast
qed

section \<open>The copy\<close>

text \<open>
  The tables at \<open>src\<close> can be read while frames are taken: all of them are frames the allocator
  knows of and none is free.  Several entries of the source may refer to the same table.
\<close>

definition readable :: "'a vkernel_scheme \<Rightarrow> nat \<Rightarrow> u64 \<Rightarrow> bool" where
  "readable s l src \<longleftrightarrow> pmm_ok s \<and> pmm_total s \<le> 2 ^ 40 \<and> aligned src \<and>
     tframes (kmem s) (pmm_hhdm s) l src \<subseteq> {..<pmm_total s} - pmm_avail s"

definition same_machine :: "'a vkernel_scheme \<Rightarrow> 'a vkernel_scheme \<Rightarrow> bool" where
  "same_machine s s' \<longleftrightarrow> pmm_hhdm s' = pmm_hhdm s \<and> pmm_total s' = pmm_total s \<and> kernel.more s' = kernel.more s \<and>
     agree_off (frame_words (pmm_hhdm s) (pmm_avail s)) (kmem s) (kmem s')"

definition copied :: "'a vkernel_scheme \<Rightarrow> nat \<Rightarrow> u64 \<Rightarrow> u64 \<Rightarrow> nat \<Rightarrow> 'a vkernel_scheme \<Rightarrow> bool" where
  "copied s0 l src d i s \<longleftrightarrow> same_machine s0 s \<and> pmm_tables.tree_inv s l d \<and>
     card (pmm_avail s) + 1 + (\<Sum>j<i. scount (kmem s0) (pmm_hhdm s0) l src j) = card (pmm_avail s0) \<and>
     tframes (kmem s) (pmm_hhdm s) l d \<union> pmm_avail s = pmm_avail s0 \<and>
     (\<forall>j<512. i \<le> j \<longrightarrow> kmem s (slot_of (pmm_hhdm s) d j) = 0) \<and>
     (\<forall>v. level_index l v < i \<longrightarrow>
        lookup (kmem s) (pmm_hhdm s) l d v = lookup (kmem s0) (pmm_hhdm s0) l src v)"

definition clone_post :: "'a vkernel_scheme \<Rightarrow> nat \<Rightarrow> u64 \<Rightarrow> u64 option \<Rightarrow> 'a vkernel_scheme \<Rightarrow> bool" where
  "clone_post s l src r s' \<longleftrightarrow> pmm_ok s' \<and> same_machine s s' \<and>
     (case r of None \<Rightarrow> pmm_avail s' = pmm_avail s \<and> card (pmm_avail s) < tcount (kmem s) (pmm_hhdm s) l src
      | Some d \<Rightarrow> pmm_tables.tree_inv s' l d \<and>
          card (pmm_avail s') + tcount (kmem s) (pmm_hhdm s) l src = card (pmm_avail s) \<and>
          tframes (kmem s') (pmm_hhdm s) l d \<union> pmm_avail s' = pmm_avail s \<and>
          (\<forall>v. lookup (kmem s') (pmm_hhdm s) l d v = lookup (kmem s) (pmm_hhdm s) l src v))"

lemma readable_same:
  assumes r: "readable s0 l src" and m: "same_machine s0 s" and a: "pmm_avail s \<subseteq> pmm_avail s0" and o: "pmm_ok s"
  shows "readable s l src" "tframes (kmem s) (pmm_hhdm s0) l src = tframes (kmem s0) (pmm_hhdm s0) l src"
    "lookup (kmem s) (pmm_hhdm s0) l src v = lookup (kmem s0) (pmm_hhdm s0) l src v"
    "tcount (kmem s) (pmm_hhdm s0) l src = tcount (kmem s0) (pmm_hhdm s0) l src"
    "i < 512 \<Longrightarrow> kmem s (slot_of (pmm_hhdm s0) src i) = kmem s0 (slot_of (pmm_hhdm s0) src i)"
proof -
  let ?F = "tframes (kmem s0) (pmm_hhdm s0) l src"
  have r': "pmm_ok s0" "pmm_total s0 \<le> 2 ^ 40" "aligned src" "?F \<subseteq> {..<pmm_total s0} - pmm_avail s0"
    using r by (auto simp: readable_def)
  have "frame_words (pmm_hhdm s0) ?F \<inter> frame_words (pmm_hhdm s0) (pmm_avail s0) = {}"
    by (rule frame_words_disjoint[of _ "pmm_total s0"])
      (use r'(4) pmm_pages.frames_fit[OF r'(1)] pmm_pages.avail_total[OF r'(1)] in blast)+
  then have w: "\<forall>a\<in>frame_words (pmm_hhdm s0) ?F. kmem s a = kmem s0 a"
    using m unfolding same_machine_def agree_off_def by blast
  note l = walk_local[OF r'(3) w]
  show "tframes (kmem s) (pmm_hhdm s0) l src = ?F"
    "lookup (kmem s) (pmm_hhdm s0) l src v = lookup (kmem s0) (pmm_hhdm s0) l src v"
    "tcount (kmem s) (pmm_hhdm s0) l src = tcount (kmem s0) (pmm_hhdm s0) l src" using l by blast+
  then show "readable s l src" using r' a m o by (auto simp: readable_def same_machine_def)
  show "i < 512 \<Longrightarrow> kmem s (slot_of (pmm_hhdm s0) src i) = kmem s0 (slot_of (pmm_hhdm s0) src i)"
    using w slot_in_frame[OF r'(3) _ root_in_tframes] by blast
qed

lemma readable_child:
  assumes "readable s l src" "child (kmem s) (pmm_hhdm s) l src i = Some c" "i < 512"
  shows "readable s (l - 1) c"
proof -
  have "tframes (kmem s) (pmm_hhdm s) (l - 1) c \<subseteq> tframes (kmem s) (pmm_hhdm s) l src"
    using sub_tframes[OF assms(3), of "kmem s" "pmm_hhdm s" l src] assms(2) by (simp add: sub_def)
  moreover have "aligned c" using assms(2) by (auto simp: child_def Let_def split: if_splits)
  ultimately show ?thesis using assms(1) by (auto simp: readable_def)
qed

text \<open>One more entry of the copy: it is a leaf or nothing, or the root of a tree built from free frames.\<close>

lemma copied_step:
  fixes s0 s s' :: "'a vkernel_scheme"
  defines "h \<equiv> pmm_hhdm s0"
  assumes c: "copied s0 l src d i s" and i: "i < 512"
    and s': "pmm_ok s'" "pmm_hhdm s' = h" "pmm_total s' = pmm_total s0" "kernel.more s' = kernel.more s0"
    and ag: "agree_off (insert (slot_of h d i) (frame_words h (pmm_avail s))) (kmem s) (kmem s')"
    and new: "\<And>c. child (kmem s') h l d i = Some c \<Longrightarrow> tree_ok (kmem s') h (pmm_total s0) (l - 1) c"
    and part: "sub (kmem s') h l d i \<union> pmm_avail s' = pmm_avail s" "sub (kmem s') h l d i \<inter> pmm_avail s' = {}"
    and lk: "\<And>v. level_index l v = i \<Longrightarrow> lookup (kmem s') h l d v = lookup (kmem s0) h l src v"
    and cnt: "card (pmm_avail s') + scount (kmem s0) h l src i = card (pmm_avail s)"
  shows "copied s0 l src d (Suc i) s'"
proof -
  have sm: "same_machine s0 s" and inv: "pmm_tables.tree_inv s l d"
    and av: "tframes (kmem s) h l d \<union> pmm_avail s = pmm_avail s0"
    and num: "card (pmm_avail s) + 1 + (\<Sum>j<i. scount (kmem s0) h l src j) = card (pmm_avail s0)"
    and z: "\<forall>j<512. i \<le> j \<longrightarrow> kmem s (slot_of h d j) = 0"
    and old: "\<forall>v. level_index l v < i \<longrightarrow> lookup (kmem s) h l d v = lookup (kmem s0) h l src v"
    using c unfolding copied_def same_machine_def h_def by auto
  have hs: "pmm_hhdm s = h" "pmm_total s = pmm_total s0" using sm by (auto simp: same_machine_def h_def)
  note b = pmm_tables.tree_inv_basic[OF inv, unfolded hs]
  have "child (kmem s) h l d i = None" using z i by (simp add: child_def Let_def)
  then have sb: "sub (kmem s) h l d i = {}" by (simp add: sub_def)
  note g = pmm_tables.graft[OF inv i, unfolded hs sb Un_empty_left, OF s'(1-3) ag new part]
  have zs: "kmem s' (slot_of h d j) = 0" if j: "j < 512" "Suc i \<le> j" for j
  proof -
    have "slot_of h d j \<noteq> slot_of h d i" using slot_inj[OF b(2,3,4) j(1) i] j(2) by simp
    moreover have "slot_of h d j \<notin> frame_words h (pmm_avail s)"
      using pmm_tables.slot_word[OF inv j(1), unfolded hs] b(5,12) by blast
    ultimately show ?thesis using ag z j by (simp add: agree_off_def)
  qed
  have "agree_off (frame_words h (pmm_avail s0)) (kmem s0) (kmem s')"
    using sm g(4) unfolding av same_machine_def h_def[symmetric] by (auto simp: agree_off_def)
  then have "same_machine s0 s'" using s' by (simp add: same_machine_def h_def)
  moreover have "lookup (kmem s') h l d v = lookup (kmem s0) h l src v" if "level_index l v < Suc i" for v
    using that lk[of v] g(5)[of v] old by (cases "level_index l v = i") auto
  ultimately show ?thesis using g(1,2) av zs s'(2) cnt num by (auto simp: copied_def h_def)
qed

lemma copied_facts:
  assumes "copied s0 l src d i s"
  shows "same_machine s0 s" "pmm_hhdm s = pmm_hhdm s0" "pmm_total s = pmm_total s0" "kernel.more s = kernel.more s0"
    "pmm_tables.tree_inv s l d" "pmm_ok s" "pmm_avail s \<subseteq> pmm_avail s0"
    "tframes (kmem s) (pmm_hhdm s0) l d \<union> pmm_avail s = pmm_avail s0"
    "frame_of d \<notin> pmm_avail s" "frame_of d < pmm_total s0"
    "i < 512 \<Longrightarrow> kmem s (slot_of (pmm_hhdm s0) d i) = 0"
  using assms pmm_tables.tree_inv_basic(1,4,5)[of s l d] by (auto simp: copied_def same_machine_def)

text \<open>An entry that is absent or a leaf is copied as it is.\<close>

lemma copy_leaf:
  fixes s0 s :: "'a vkernel_scheme"
  defines "h \<equiv> pmm_hhdm s0"
  assumes c: "copied s0 l src d i s" and i: "i < 512" and e: "e = kmem s0 (slot_of h src i)" "\<not> present e \<or> leaf l e"
    and s': "s' = (if present e then store (slot_of h d i) e s else s)"
  shows "copied s0 l src d (Suc i) s'"
proof -
  note f = copied_facts[OF c, folded h_def]
  have st: "PMM s' = PMM s" "kernel.more s' = kernel.more s" "kmem s' = (kmem s)(slot_of h d i := if present e then e else 0)"
    using f(11)[OF i] by (auto simp: s' store_def)
  note o = pmm_tables.store_slot_ok[OF f(5) i st(1), unfolded f(2), OF st(3)]
  have ch: "child (kmem s') h l d i = None" using e(2) by (auto simp: child_def Let_def st(3))
  then have "sub (kmem s') h l d i = {}" by (simp add: sub_def)
  moreover have "scount (kmem s0) h l src i = 0" using e by (auto simp: scount_def child_def Let_def)
  moreover have "lookup (kmem s') h l d v = lookup (kmem s0) h l src v" if "level_index l v = i" for v
    using e that unfolding lookup_eq[of _ h l _ v] Let_def by (auto simp: st(3))
  ultimately show ?thesis
    using o st(2,3) f(3,4) ch unfolding h_def by (intro copied_step[OF c i]) (auto simp: agree_off_def)
qed

text \<open>A table entry is copied with the address of the copy of its table.\<close>

lemma copy_table:
  fixes s0 s s1 :: "'a vkernel_scheme"
  defines "h \<equiv> pmm_hhdm s0"
  assumes c: "copied s0 l src d i s" and i: "i < 512" and e: "present e" "\<not> leaf l e" "e = kmem s0 (slot_of h src i)"
    and r: "readable s0 l src"
    and post: "clone_post s (l - 1) (entry_addr e) (Some n) s1"
    and s': "s' = store (slot_of h d i) ((n AND ADDRESS_MASK) OR (e AND NOT ADDRESS_MASK)) s1"
  shows "copied s0 l src d (Suc i) s'"
proof -
  let ?w = "(n AND ADDRESS_MASK) OR (e AND NOT ADDRESS_MASK)" and ?slot = "slot_of h d i"
  note f = copied_facts[OF c, folded h_def]
  note b = pmm_tables.tree_inv_basic[OF f(5), unfolded f(2,3)]
  have inv1: "pmm_tables.tree_inv s1 (l - 1) n" and part: "tframes (kmem s1) h (l - 1) n \<union> pmm_avail s1 = pmm_avail s"
    and lk1: "\<And>v. lookup (kmem s1) h (l - 1) n v = lookup (kmem s) h (l - 1) (entry_addr e) v"
    and h1: "pmm_hhdm s1 = h" "pmm_total s1 = pmm_total s0" "kernel.more s1 = kernel.more s0"
    and ag1: "agree_off (frame_words h (pmm_avail s)) (kmem s) (kmem s1)"
    and n1: "card (pmm_avail s1) + tcount (kmem s) h (l - 1) (entry_addr e) = card (pmm_avail s)"
    using post f(2,3,4) unfolding clone_post_def same_machine_def by auto
  note b1 = pmm_tables.tree_inv_basic[OF inv1, unfolded h1]
  have sl: "?slot \<in> frame_words h {frame_of d}" by (rule slot_in_frame[OF b(3) i singletonI])
  have k': "kmem s' = (kmem s1)(?slot := ?w)" "PMM s' = PMM s1" "kernel.more s' = kernel.more s1"
    by (simp_all add: s' store_def)
  have "agree_off (frame_words (pmm_hhdm s1) {frame_of d}) (kmem s1) (kmem s')"
    using sl h1(1) by (auto simp: k' agree_off_def)
  from pmm_tables.write_ok[OF b1(1) k'(2) this] have o: "pmm_ok s'" "pmm_avail s' = pmm_avail s1"
    "pmm_total s' = pmm_total s0" "pmm_hhdm s' = h"
    using f(9,10) part h1 by auto
  note ent = cloned_entry[OF b1(3,9) e(1,2)]
  have ks: "kmem s' ?slot = ?w" by (simp add: k')
  have ch: "child (kmem s') h l d i = Some n" using ent by (simp add: child_def Let_def k')
  have "?slot \<notin> frame_words h (tframes (kmem s1) h (l - 1) n)"
    using pmm_tables.slot_word[OF f(5) i, unfolded f(2,3)] part f(9) b1(11) by blast
  then have "\<forall>a\<in>frame_words h (tframes (kmem s1) h (l - 1) n). kmem s' a = kmem s1 a" by (auto simp: k')
  note t = tree_local[OF b1(6) this]
  have sub: "sub (kmem s') h l d i = tframes (kmem s1) h (l - 1) n" using t by (simp add: sub_def ch)
  have cs: "child (kmem s0) h l src i = Some (entry_addr e)" using e by (simp add: child_def Let_def)
  note rc = readable_same[OF readable_child[OF r, folded h_def, OF cs i] f(1,7,6), folded h_def]
  have "lookup (kmem s') h l d v = lookup (kmem s0) h l src v" if "level_index l v = i" for v
    using e that ent rc(3)[of v] lk1[of v] t ks unfolding lookup_eq[of _ h l _ v] Let_def by simp
  moreover have "card (pmm_avail s') + scount (kmem s0) h l src i = card (pmm_avail s)"
    using n1 rc(4) o(2) by (simp add: scount_def cs)
  moreover have "agree_off (insert ?slot (frame_words h (pmm_avail s))) (kmem s) (kmem s')"
    using ag1 by (simp add: k' agree_off_def)
  ultimately show ?thesis
    using o h1(3) k'(3) part sub ch t b1(8) unfolding h_def by (intro copied_step[OF c i]) auto
qed

lemma clone_fail:
  fixes s0 s :: "'a vkernel_scheme"
  assumes x: "x86_ok X" and c: "copied s0 l src d i s" and post: "clone_post s k c None s1"
    and few: "card (pmm_avail s0) < tcount (kmem s0) (pmm_hhdm s0) l src"
  obtains s2 where "free_cloned_table X d (pmm_hhdm s0) l s1 = Some s2" "clone_post s0 l src None s2"
proof -
  let ?h = "pmm_hhdm s0" and ?F = "tframes (kmem s) (pmm_hhdm s0) l d"
  note f = copied_facts[OF c]
  note b = pmm_tables.tree_inv_basic[OF f(5), unfolded f(2,3)]
  have p: "pmm_ok s1" "pmm_avail s1 = pmm_avail s" "pmm_hhdm s1 = ?h" "pmm_total s1 = pmm_total s0"
    "kernel.more s1 = kernel.more s0" "agree_off (frame_words ?h (pmm_avail s)) (kmem s) (kmem s1)"
    using post f(2,3,4) unfolding clone_post_def same_machine_def by auto
  have "frame_words ?h ?F \<inter> frame_words ?h (pmm_avail s) = {}" by (rule frame_words_disjoint[OF b(2,11,12,8)])
  then have "\<forall>a\<in>frame_words ?h ?F. kmem s1 a = kmem s a" using p(6) unfolding agree_off_def by blast
  note t = tree_local[OF b(6) this]
  have "pmm_tables.tree_inv s1 l d" using t p b(8,10) by (simp add: pmm_tables.tree_inv_def)
  from free_cloned_ok[OF x this] obtain s2 where s2: "free_cloned_table X d ?h l s1 = Some s2" "free_post ?F s1 s2"
    using t p(3) by auto
  have av: "pmm_avail s \<union> ?F = pmm_avail s0" using f(8) by blast
  have fp: "pmm_ok s2" "pmm_avail s2 = pmm_avail s0" "pmm_hhdm s2 = ?h" "pmm_total s2 = pmm_total s0"
    "kernel.more s2 = kernel.more s0" "agree_off (frame_words ?h (pmm_avail s0)) (kmem s1) (kmem s2)"
    using s2(2) p av by (simp_all add: free_post_def)
  have "agree_off (frame_words ?h (pmm_avail s0)) (kmem s0) (kmem s1)"
    using f(1) p(6) frame_words_mono[OF f(7), of ?h] unfolding same_machine_def agree_off_def by (metis subsetD)
  then have "agree_off (frame_words ?h (pmm_avail s0)) (kmem s0) (kmem s2)" using fp(6) by (simp add: agree_off_def)
  then have "clone_post s0 l src None s2" using fp few by (simp add: clone_post_def same_machine_def)
  then show thesis using s2(1) that by blast
qed

lemma clone_loop_ok:
  fixes s0 s :: "'a vkernel_scheme"
  assumes x: "x86_ok X" and r: "readable s0 l src"
    and IH: "\<And>(s :: 'a vkernel_scheme) c. l \<noteq> 0 \<Longrightarrow> readable s (l - 1) c \<Longrightarrow>
      \<exists>r s'. clone_table X c (pmm_hhdm s) (l - 1) s = Some (r, s') \<and> clone_post s (l - 1) c r s'"
  defines "h \<equiv> pmm_hhdm s0"
  shows "i \<le> 512 \<Longrightarrow> copied s0 l src d i s \<Longrightarrow>
    \<exists>r s'. clone_loop X d (src + h) (d + h) h l i s = Some (r, s') \<and> clone_post s0 l src r s'"
proof (induction "512 - i" arbitrary: i s)
  case 0
  then have "i = 512" by simp
  with 0 have "clone_loop X d (src + h) (d + h) h l i s = Some (Some d, s)"
    by (subst clone_loop.simps) (simp add: x86_simps[OF x])
  moreover have "clone_post s0 l src (Some d) s"
    using 0 \<open>i = 512\<close> copied_facts[OF 0(3)] by (auto simp: clone_post_def copied_def tcount_eq)
  ultimately show ?case by blast
next
  case (Suc k)
  then have i: "i < 512" by simp
  note c = Suc.prems(2) and f = copied_facts[OF Suc.prems(2), folded h_def]
  define e where "e = kmem s0 (slot_of h src i)"
  have es: "kmem s (slot_of h src i) = e"
    unfolding e_def h_def by (rule readable_same(5)[OF r f(1,7,6) i])
  have slots: "src + h + 8 * word_of_nat i = slot_of h src i" "d + h + 8 * word_of_nat i = slot_of h d i"
    by (simp_all add: slot_of_def)
  note body = clone_loop.simps[of X d "src + h" "d + h" h l i s, unfolded x86_simps[OF x] slots es clone_entry_simps Let_def
      entry_addr_def[symmetric]]
  have more: "\<exists>r s'. clone_loop X d (src + h) (d + h) h l (Suc i) s2 = Some (r, s') \<and> clone_post s0 l src r s'"
    if "copied s0 l src d (Suc i) s2" for s2
    using Suc.hyps(1)[OF _ _ that] Suc.hyps(2) i by simp
  show ?case
  proof (cases "present e \<and> \<not> leaf l e")
    case False
    then show ?thesis
      using more[OF copy_leaf[OF c i e_def[unfolded h_def] _ refl]] i body by (auto simp: h_def)
  next
    case True
    have cs: "child (kmem s0) h l src i = Some (entry_addr e)" using True by (simp add: child_def Let_def e_def)
    note rc = readable_same[OF readable_child[OF r, folded h_def, OF cs i] f(1,7,6), folded h_def]
    moreover note rc(1)
    moreover have "l \<noteq> 0" using True by (auto simp: leaf_def)
    ultimately obtain r s1 where s1: "clone_table X (entry_addr e) h (l - 1) s = Some (r, s1)"
        "clone_post s (l - 1) (entry_addr e) r s1"
      using IH f(2) by metis
    show ?thesis
    proof (cases r)
      case None
      have "card (pmm_avail s) < scount (kmem s0) h l src i"
        using s1(2) None rc(4) f(2) by (simp add: clone_post_def scount_def cs)
      moreover have "card (pmm_avail s) + 1 + (\<Sum>j<i. scount (kmem s0) h l src j) = card (pmm_avail s0)"
        using c by (simp add: copied_def h_def)
      ultimately have "card (pmm_avail s0) < tcount (kmem s0) h l src"
        using tcount_prefix[OF i, of "kmem s0" h l src] by linarith
      then obtain s2 where "free_cloned_table X d h l s1 = Some s2" "clone_post s0 l src None s2"
        using clone_fail[OF x c s1(2)[unfolded None]] unfolding h_def by blast
      then show ?thesis using body i True s1(1) None by simp
    next
      case (Some n)
      have "copied s0 l src d (Suc i) (store (slot_of h d i) ((n AND ADDRESS_MASK) OR (e AND NOT ADDRESS_MASK)) s1)"
        unfolding h_def using True by (intro copy_table[OF c i _ _ _ r s1(2)[unfolded Some] refl]) (auto simp: e_def h_def)
      from more[OF this] show ?thesis using body i True s1(1) Some by (simp add: entry_addr_def)
    qed
  qed
qed

lemma clone_table_ok:
  fixes s :: "'a vkernel_scheme"
  assumes x: "x86_ok X"
  shows "readable s l src \<Longrightarrow>
    \<exists>r s'. clone_table X src (pmm_hhdm s) l s = Some (r, s') \<and> clone_post s l src r s'"
proof (induction l arbitrary: src s rule: less_induct)
  case (less l)
  note r = less.prems
  let ?h = "pmm_hhdm s"
  have IH: "\<exists>r s'. clone_table X c (pmm_hhdm s) (l - 1) s = Some (r, s') \<and> clone_post s (l - 1) c r s'"
    if "l \<noteq> 0" "readable s (l - 1) c" for c and s :: "'a vkernel_scheme"
    using less.IH[of "l - 1" s c] that by simp
  have k: "pmm_ok s" "pmm_total s \<le> 2 ^ 40" "aligned src" "frame_of src < pmm_total s"
    using r root_in_tframes[of src "kmem s" ?h l] unfolding readable_def by blast+
  note fits = conjunct2[OF pmm_pages.frames_fit[OF k(1)]]
  note src = table_mut_ok[OF fits k(3,4)]
  show ?case
  proof (cases rule: pmm_pages.alloc_one_cases[OF k(1)])
    case 1
    then have "clone_table X src ?h l s = Some (None, s)" by (subst clone_table.simps) (simp add: frame_is_page)
    moreover have "clone_post s l src None s" using k(1) 1 by (simp add: clone_post_def same_machine_def tcount_eq)
    ultimately show ?thesis by blast
  next
    case (2 d s1)
    have d: "aligned d" "frame_of d < pmm_total s"
      using 2(3,4) pmm_pages.avail_total[OF k(1)] by (auto simp: aligned_def)
    obtain s2 where s2: "zero_frame X d ?h s1 = Some s2" "s2 = s1\<lparr>kmem := kmem s2\<rparr>"
      "agree_off (frame_words ?h {frame_of d}) (kmem s1) (kmem s2)" "\<forall>i<512. kmem s2 (slot_of ?h d i) = 0"
      by (rule zero_frame_ok[OF x fits d])
    have P: "PMM s2 = PMM s1" "kernel.more s2 = kernel.more s1" by (subst s2(2), simp)+
    have "{frame_of d} \<subseteq> {..<pmm_total s1}" "{frame_of d} \<inter> pmm_avail s1 = {}" using 2(5,6) d by auto
    from pmm_tables.write_ok[OF 2(2) P(1) _ this] s2(3) have o: "pmm_ok s2" "pmm_avail s2 = pmm_avail s - {frame_of d}"
      "pmm_total s2 = pmm_total s" "pmm_hhdm s2 = ?h"
      using 2(5-7) by simp_all
    have np: "\<forall>j<512. \<not> present (kmem s2 (slot_of ?h d j))" using s2(4) by simp
    have "agree_off (frame_words ?h (pmm_avail s)) (kmem s) (kmem s2)"
      using agree_off_trans[OF 2(9) s2(3) subset_refl frame_words_mono] 2(4) by simp
    moreover have "card (pmm_avail s2) + 1 = card (pmm_avail s)"
      using card_Suc_Diff1[OF pmm_pages.finite_avail[OF k(1)] 2(4)] o(2) by simp
    ultimately have "copied s l src d 0 s2"
      using zero_table(4)[OF np, of l] zero_tree_ok[OF np d, of l] o k(2) P(2) 2(4,8) s2(4)
      by (auto simp: copied_def same_machine_def pmm_tables.tree_inv_def)
    from clone_loop_ok[OF x r IH _ this] obtain r' s' where
      "clone_loop X d (src + ?h) (d + ?h) ?h l 0 s2 = Some (r', s')" "clone_post s l src r' s'" by auto
    moreover have "clone_table X src ?h l s = clone_loop X d (src + ?h) (d + ?h) ?h l 0 s2"
      using 2(1) s2(1) src table_mut_ok[OF fits d] by (subst clone_table.simps) (simp add: frame_is_page)
    ultimately show ?thesis by auto
  qed
qed

end
