(* ===== verification/Vmm_Ownership.thy ===== *)
theory Vmm_Ownership
  imports Vmm_Clone Vmm_Theorems
begin

text \<open>
  The step of the boot that replaces the loader's page tables by the kernel's own copy
  (\<open>take_ownership\<close> of kernel/src/mm/vmm.rs).
\<close>

lemma mask_merge:
  fixes p c k :: u64
  assumes "p AND k = p"
  shows "((p AND k) OR (c AND NOT k)) AND k = p" "((p AND k) OR (c AND NOT k)) AND NOT k = c AND NOT k"
proof -
  have b: "bit p n \<Longrightarrow> bit k n" for n using assms by (metis bit_and_iff)
  then show "((p AND k) OR (c AND NOT k)) AND k = p" by (intro bit_eqI) (auto simp: bit_simps)
  show "((p AND k) OR (c AND NOT k)) AND NOT k = c AND NOT k" by (intro bit_eqI) (auto simp: bit_simps)
qed

lemma take_ownership_ok:
  fixes s :: "'a vkernel_scheme"
  assumes x: "x86_ok X" and src: "readable s 3 (CR3 s AND ENTRY_ADDR_MASK)"
  defines "h \<equiv> pmm_hhdm s" and "n \<equiv> tcount (kmem s) (pmm_hhdm s) 3 (CR3 s AND ENTRY_ADDR_MASK)"
  shows "\<exists>r s'. take_ownership X h s = Some (r, s') \<and> pmm_ok s' \<and>
    pmm_total s' = pmm_total s \<and> pmm_hhdm s' = h \<and> VMM s' = VMM s \<and> vkernel.more s' = vkernel.more s \<and>
    agree_off (frame_words h (pmm_avail s)) (kmem s) (kmem s') \<and>
    (case r of
       Inl e \<Rightarrow> e = OutOfFrames \<and> card (pmm_avail s) < n \<and> pmm_avail s' = pmm_avail s \<and> CR3 s' = CR3 s
     | Inr p \<Rightarrow> n \<le> card (pmm_avail s) \<and>
         CR3 s' AND ENTRY_ADDR_MASK = p \<and> CR3 s' AND NOT ENTRY_ADDR_MASK = CR3 s AND NOT ENTRY_ADDR_MASK \<and>
         vm_inv (Vmm_new p) (s'\<lparr>HHDM_OFFSET := h\<rparr>) \<and>
         vm_tables (Vmm_new p) (s'\<lparr>HHDM_OFFSET := h\<rparr>) \<union> pmm_avail s' = pmm_avail s \<and>
         (\<forall>v. vm_walk (Vmm_new p) (s'\<lparr>HHDM_OFFSET := h\<rparr>) v =
              lookup (kmem s) h 3 (CR3 s AND ENTRY_ADDR_MASK) v))"
proof -
  obtain r s1 where r: "clone_table X (CR3 s AND ENTRY_ADDR_MASK) h 3 s = Some (r, s1)"
      "clone_post s 3 (CR3 s AND ENTRY_ADDR_MASK) r s1"
    using clone_table_ok[OF x src] unfolding h_def by blast
  have cr: "CR3 s1 = CR3 s" "VMM s1 = VMM s" "vkernel.more s1 = vkernel.more s" "pmm_total s1 = pmm_total s" "pmm_hhdm s1 = h"
    using r(2) kernel_more_vrest(1)[of s1 s] by (auto simp: clone_post_def same_machine_def vrest_def h_def)
  show ?thesis
  proof (cases r)
    case None
    then have "take_ownership X h s = Some (Inl OutOfFrames, s1)" using r(1) by (simp add: take_ownership_def Let_def)
    then show ?thesis using None r(2) cr by (simp add: clone_post_def same_machine_def h_def n_def)
  next
    case (Some p)
    let ?s = "s1\<lparr>CR3 := (p AND ENTRY_ADDR_MASK) OR (CR3 s AND NOT ENTRY_ADDR_MASK)\<rparr>"
    have t: "pmm_tables.tree_inv s1 3 p" "pmm_hhdm s1 = h" using r(2) Some by (simp_all add: clone_post_def same_machine_def h_def)
    note b = pmm_tables.tree_inv_basic[OF t(1)]
    have m: "p AND ENTRY_ADDR_MASK = p" using mask_id[OF b(3,9)] by (simp add: clone_entry_simps)
    have eq: "take_ownership X h s = Some (Inr p, ?s)" using r(1) Some by (simp add: take_ownership_def Let_def)
    have view: "pmm_avail ?s = pmm_avail s1" "pmm_ok ?s = pmm_ok s1" "pmm_hhdm (?s\<lparr>HHDM_OFFSET := h\<rparr>) = h"
      "vm_inv (Vmm_new p) (?s\<lparr>HHDM_OFFSET := h\<rparr>) = pmm_tables.tree_inv s1 3 p"
      "pmm_total ?s = pmm_total s1" "pmm_hhdm ?s = pmm_hhdm s1"
      using t(2) by (simp_all add: vm_inv_tree pmm_tables.tree_inv_def pmm_view_defs Vmm_new_def)
    show ?thesis
      using r(2) Some t(1) mask_merge[OF m, of "CR3 s"] view cr
      unfolding eq by (auto simp: clone_post_def same_machine_def h_def n_def vm_tables_def vm_walk_def Vmm_new_def)
  qed
qed

text \<open>
  C14. \<open>take_ownership\<close> always returns.  It fails only when there are fewer free frames than tables to
  copy, and then every frame it took is free again, CR3 is unchanged and only free frames were
  written.  Otherwise CR3 holds the new root with its other bits kept, the new tables are a well-formed
  tree made of frames that were free (so none is shared with the loader's tables), every other frame is as free as before, and every
  virtual address translates, entry bits included, as it did before.
\<close>

theorem take_ownership_correct:
  fixes s :: "'a vkernel_scheme"
  assumes x: "x86_ok X" and src: "readable s 3 (CR3 s AND ENTRY_ADDR_MASK)"
  defines "h \<equiv> pmm_hhdm s" and "n \<equiv> tcount (kmem s) (pmm_hhdm s) 3 (CR3 s AND ENTRY_ADDR_MASK)"
  shows "\<exists>r s'. take_ownership X h s = Some (r, s') \<and> pmm_ok s' \<and>
    pmm_total s' = pmm_total s \<and> pmm_hhdm s' = h \<and> VMM s' = VMM s \<and> vkernel.more s' = vkernel.more s \<and>
    agree_off (frame_words h (pmm_avail s)) (kmem s) (kmem s') \<and>
    (case r of
       Inl e \<Rightarrow> e = OutOfFrames \<and> card (pmm_avail s) < n \<and> pmm_avail s' = pmm_avail s \<and> CR3 s' = CR3 s
     | Inr p \<Rightarrow> n \<le> card (pmm_avail s) \<and>
         CR3 s' AND ENTRY_ADDR_MASK = p \<and> CR3 s' AND NOT ENTRY_ADDR_MASK = CR3 s AND NOT ENTRY_ADDR_MASK \<and>
         vm_inv (Vmm_new p) (s'\<lparr>HHDM_OFFSET := h\<rparr>) \<and>
         vm_tables (Vmm_new p) (s'\<lparr>HHDM_OFFSET := h\<rparr>) \<union> pmm_avail s' = pmm_avail s \<and>
         (\<forall>v. vm_walk (Vmm_new p) (s'\<lparr>HHDM_OFFSET := h\<rparr>) v =
              lookup (kmem s) h 3 (CR3 s AND ENTRY_ADDR_MASK) v))"
  using take_ownership_ok[OF assms(1,2)] unfolding h_def n_def .

lemma tcount_card:
  assumes "tree_ok m h n l pa"
  shows "tcount m h l pa = card (tframes m h l pa)"
  using assms
proof (induction l arbitrary: pa)
  case (Suc l)
  have fin: "finite (sub m h (Suc l) pa i)" if "i < 512" for i
    using sub_tframes[OF that] tframes_bound[OF Suc.prems] by (meson finite_lessThan finite_subset subset_trans)
  have sc: "scount m h (Suc l) pa i = card (sub m h (Suc l) pa i)" if "i < 512" for i
    using Suc.IH Suc.prems that by (auto simp: scount_def sub_def split: option.splits)
  have "card (\<Union>i<512. sub m h (Suc l) pa i) = (\<Sum>i<512. card (sub m h (Suc l) pa i))"
    using Suc.prems fin by (intro card_UN_disjoint) auto
  moreover have "frame_of pa \<notin> (\<Union>i<512. sub m h (Suc l) pa i)" using Suc.prems by auto
  ultimately have "card (insert (frame_of pa) (\<Union>i<512. sub m h (Suc l) pa i)) = 1 + (\<Sum>i<512. card (sub m h (Suc l) pa i))"
    using fin by (subst card_insert_disjoint) auto
  then show ?case unfolding tcount_eq tframes_eq[of m h "Suc l"] using sc by simp
qed simp

lemma boot_ownership:
  assumes "2 \<le> n" "n \<le> 16"
  shows "readable (boot_kernel n) 3 (CR3 (boot_kernel n) AND ENTRY_ADDR_MASK)"
    "tcount (kmem (boot_kernel n)) (pmm_hhdm (boot_kernel n)) 3 (CR3 (boot_kernel n) AND ENTRY_ADDR_MASK) = 1"
    "pmm_hhdm (boot_kernel n) = 0xffff800000000000" "card (pmm_avail (boot_kernel n)) = n - 2"
proof -
  note k = boot_kernel_inv[OF assms]
  have m: "CR3 (boot_kernel n) AND ENTRY_ADDR_MASK = top_level boot_vmm"
    by (simp add: k ENTRY_ADDR_MASK_def boot_vmm_def Vmm_new_def)
  have t: "pmm_tables.tree_inv (boot_kernel n) 3 (top_level boot_vmm)" "pmm_hhdm (boot_kernel n) = HHDM_OFFSET (boot_kernel n)"
    using k(1) by (simp_all add: vm_inv_tree)
  note b = pmm_tables.tree_inv_basic[OF t(1)]
  show "readable (boot_kernel n) 3 (CR3 (boot_kernel n) AND ENTRY_ADDR_MASK)"
    using b unfolding readable_def m by blast
  show "tcount (kmem (boot_kernel n)) (pmm_hhdm (boot_kernel n)) 3 (CR3 (boot_kernel n) AND ENTRY_ADDR_MASK) = 1"
    using tcount_card[OF b(6)] k(2) unfolding m t(2) by (simp add: vm_tables_def)
  show "pmm_hhdm (boot_kernel n) = 0xffff800000000000" "card (pmm_avail (boot_kernel n)) = n - 2"
    using t(2) k(3,5) by simp_all
qed

text \<open>With 14 free frames the copy succeeds; with none it fails and leaves CR3 alone.\<close>

theorem take_ownership_witness:
  "(\<exists>p s'. take_ownership amd64 0xffff800000000000 (boot_kernel 16) = Some (Inr p, s') \<and>
      CR3 s' AND ENTRY_ADDR_MASK = p \<and> frame_of p \<in> {2..<16}) \<and>
   (\<exists>s'. take_ownership amd64 0xffff800000000000 (boot_kernel 2) = Some (Inl OutOfFrames, s') \<and> CR3 s' = 0x1000)"
proof
  have r: "readable (boot_kernel 16) 3 (CR3 (boot_kernel 16) AND ENTRY_ADDR_MASK)"
    "readable (boot_kernel 2) 3 (CR3 (boot_kernel 2) AND ENTRY_ADDR_MASK)"
    by (rule boot_ownership; simp)+
  obtain r s' where a: "take_ownership amd64 (pmm_hhdm (boot_kernel 16)) (boot_kernel 16) = Some (r, s')"
    "\<And>p. r = Inr p \<Longrightarrow> CR3 s' AND ENTRY_ADDR_MASK = p \<and>
       vm_tables (Vmm_new p) (s'\<lparr>HHDM_OFFSET := pmm_hhdm (boot_kernel 16)\<rparr>) \<union> pmm_avail s' = pmm_avail (boot_kernel 16)"
    "\<And>e. r = Inl e \<Longrightarrow> card (pmm_avail (boot_kernel 16)) <
       tcount (kmem (boot_kernel 16)) (pmm_hhdm (boot_kernel 16)) 3 (CR3 (boot_kernel 16) AND ENTRY_ADDR_MASK)"
    using take_ownership_correct[OF amd64_ok r(1)] by (elim exE conjE) (rule that, assumption, auto)
  obtain p where p: "r = Inr p" using a(3) boot_ownership[of 16] by (cases r) auto
  have "frame_of p \<in> vm_tables (Vmm_new p) (s'\<lparr>HHDM_OFFSET := pmm_hhdm (boot_kernel 16)\<rparr>)"
    by (simp add: vm_tables_def Vmm_new_def)
  then have "frame_of p \<in> pmm_avail (boot_kernel 16)" using a(2)[OF p] by blast
  then show "\<exists>p s'. take_ownership amd64 0xffff800000000000 (boot_kernel 16) = Some (Inr p, s') \<and>
      CR3 s' AND ENTRY_ADDR_MASK = p \<and> frame_of p \<in> {2..<16}"
    using a(1) a(2)[OF p] p boot_ownership(3)[of 16] boot_kernel_inv(3)[of 16] by auto
  show "\<exists>s'. take_ownership amd64 0xffff800000000000 (boot_kernel 2) = Some (Inl OutOfFrames, s') \<and> CR3 s' = 0x1000"
    using take_ownership_correct[OF amd64_ok r(2)] boot_ownership[of 2] boot_kernel_inv(8)[of 2]
    by (elim exE; rename_tac r s'; case_tac r) auto
qed

end
