(* ===== verification/Vmm_Range.thy ===== *)
theory Vmm_Range
  imports Vmm_Theorems
begin

text \<open>
  Ranges of pages (\<open>map_range\<close> and \<open>unmap_range\<close> of kernel/src/mm/vmm.rs): a range is mapped as a
  whole or the translations are as before, and every address of a mapped range translates
  linearly.
\<close>

section \<open>One page\<close>

text \<open>What every operation on the tables keeps.\<close>

definition vm_kept :: "Vmm \<Rightarrow> 'a vkernel_scheme \<Rightarrow> 'a vkernel_scheme \<Rightarrow> bool" where
  "vm_kept v s s' \<longleftrightarrow> vm_inv v s' \<and> vm_tables v s' \<union> pmm_avail s' = vm_tables v s \<union> pmm_avail s \<and>
     HHDM_OFFSET s' = HHDM_OFFSET s \<and> VMM s' = VMM s \<and> CR3 s' = CR3 s \<and>
     agree_off (frame_words (HHDM_OFFSET s) (vm_tables v s \<union> pmm_avail s)) (kmem s) (kmem s')"

lemma vm_kept_refl: "vm_inv v s \<Longrightarrow> vm_kept v s s"
  by (simp add: vm_kept_def)

lemma vm_kept_trans: "vm_kept v s s1 \<Longrightarrow> vm_kept v s1 s2 \<Longrightarrow> vm_kept v s s2"
  by (auto simp: vm_kept_def agree_off_def)

abbreviation page_bytes :: "PageSize \<Rightarrow> nat" where
  "page_bytes sz \<equiv> 2 ^ (12 + 9 * page_level sz)"

lemma map_page:
  assumes x: "x86_ok X" and inv: "vm_inv v s" and pa: "unat phys < 2 ^ 52" and fl: "flags AND ADDRESS_MASK = 0"
  obtains r s' where "Vmm_map X v virt phys flags sz s = Some (r, s')" "vm_kept v s s'"
    "r \<noteq> Inr () \<Longrightarrow> vm_walk v s' = vm_walk v s"
    "r = Inr () \<Longrightarrow> is_canonical virt \<and> page_bytes sz dvd unat virt \<and> page_bytes sz dvd unat phys"
    "\<And>w. r = Inr () \<Longrightarrow> is_canonical w \<Longrightarrow>
       vm_walk v s' w = (if in_page virt sz w then Some (page_level sz, phys OR leaf_bits X flags sz) else vm_walk v s w)"
    "\<And>w. r = Inr () \<Longrightarrow> is_canonical w \<Longrightarrow> in_page virt sz w \<Longrightarrow> vm_walk v s w = None"
proof (cases "map_guard X virt phys sz")
  case (Some e)
  then have "Vmm_map X v virt phys flags sz s = Some (Inl e, s)" by (simp add: Vmm_map_eq[OF x])
  then show thesis using vm_kept_refl[OF inv] by (intro that[of "Inl e" s]) simp_all
next
  case None
  note gd = map_guard_None[OF x None]
  have ph: "page_bytes sz dvd unat phys"
    using None bytes_multiple[OF x] by (auto simp: map_guard_def split: if_splits)
  obtain r s' where r: "Vmm_map X v virt phys flags sz s = Some (r, s')"
    "pmm_tables.map_post virt (phys OR leaf_bits X flags sz) (page_level sz) 3 (top_level v) s r s'"
    by (rule Vmm_map_ok[OF x inv None pa fl])
  note p = map_post_vm[OF inv r(2)]
  have err: "r = Inl AlreadyMapped \<or> r = Inl OutOfMemory \<or> r = Inr ()" using p(10) by auto
  show thesis
  proof (rule that[OF r(1)])
    show "vm_kept v s s'" using p(1,3,4,5,6,11) by (simp add: vm_kept_def)
    show "r \<noteq> Inr () \<Longrightarrow> vm_walk v s' = vm_walk v s" using err p(7,8) by auto
    show "r = Inr () \<Longrightarrow> is_canonical virt \<and> page_bytes sz dvd unat virt \<and> page_bytes sz dvd unat phys" using gd ph by simp
    fix w assume w: "r = Inr ()" "is_canonical w"
    show "vm_walk v s' w = (if in_page virt sz w then Some (page_level sz, phys OR leaf_bits X flags sz) else vm_walk v s w)"
      using p(9)[OF w(1), of w] in_page_iff[OF gd(2,1) w(2)] by simp
    have "\<not> occupied (kmem s) (HHDM_OFFSET s) (page_level sz) virt 3 (top_level v)" using p(10) w(1) by (auto split: if_splits)
    then show "vm_walk v s w = None" if "in_page virt sz w"
      using not_occupied_unmapped[of "kmem s" "HHDM_OFFSET s" "page_level sz" virt 3 "top_level v" w]
        in_page_iff[OF gd(2,1) w(2)] that by (simp add: vm_walk_def)
  qed
qed

lemma map_page_cases:
  assumes "x86_ok X" "vm_inv v s" "unat phys < 2 ^ 52" "flags AND ADDRESS_MASK = 0"
  shows "\<exists>r s'. Vmm_map X v virt phys flags sz s = Some (r, s') \<and> vm_kept v s s' \<and>
    (r \<noteq> Inr () \<longrightarrow> vm_walk v s' = vm_walk v s) \<and>
    (r = Inr () \<longrightarrow> is_canonical virt \<and> page_bytes sz dvd unat virt \<and> page_bytes sz dvd unat phys \<and>
      (\<forall>w. is_canonical w \<longrightarrow>
         vm_walk v s' w = (if in_page virt sz w then Some (page_level sz, phys OR leaf_bits X flags sz) else vm_walk v s w) \<and>
         (in_page virt sz w \<longrightarrow> vm_walk v s w = None)))"
  by (rule map_page[OF assms, of virt sz]) blast

lemma unmap_page:
  assumes x: "x86_ok X" and inv: "vm_inv v s"
  obtains r s' where "Vmm_unmap X v virt sz s = Some (r, s')" "vm_kept v s s'" "r \<noteq> Inr () \<Longrightarrow> s' = s"
    "r = Inr () \<longleftrightarrow> is_canonical virt \<and> page_bytes sz dvd unat virt \<and> (\<exists>e. vm_walk v s virt = Some (page_level sz, e))"
    "\<And>w. r = Inr () \<Longrightarrow> is_canonical w \<Longrightarrow> vm_walk v s' w = (if in_page virt sz w then None else vm_walk v s w)"
proof (cases "unmap_guard X virt sz")
  case (Some e)
  then have "Vmm_unmap X v virt sz s = Some (Inl e, s)" by (simp add: Vmm_unmap_eq[OF x])
  moreover have "\<not> (is_canonical virt \<and> page_bytes sz dvd unat virt)"
    using Some bytes_multiple[OF x] by (auto simp: unmap_guard_def split: if_splits)
  ultimately show thesis using vm_kept_refl[OF inv] by (intro that[of "Inl e" s]) auto
next
  case None
  then have gd: "is_canonical virt" "page_bytes sz dvd unat virt"
    using bytes_multiple[OF x] by (auto simp: unmap_guard_def split: if_splits)
  obtain r s' where r: "Vmm_unmap X v virt sz s = Some (r, s')"
    "pmm_tables.unmap_post virt (page_level sz) 3 (top_level v) s r s'"
    by (rule Vmm_unmap_ok[OF x inv None])
  note p = unmap_post_vm[OF inv r(2)]
  show thesis
  proof (rule that[OF r(1)])
    show "vm_kept v s s'" using p(1,3,4,5,6,10) by (simp add: vm_kept_def)
    show "r \<noteq> Inr () \<Longrightarrow> s' = s" by (rule p(7))
    show "r = Inr () \<longleftrightarrow> is_canonical virt \<and> page_bytes sz dvd unat virt \<and> (\<exists>e. vm_walk v s virt = Some (page_level sz, e))"
      using p(9) gd by auto
    show "vm_walk v s' w = (if in_page virt sz w then None else vm_walk v s w)" if "r = Inr ()" "is_canonical w" for w
      using p(8)[OF that(1), of w] in_page_iff[OF gd(2,1) that(2)] by simp
  qed
qed

section \<open>Ranges\<close>

text \<open>The address of page \<open>i\<close> of a range, and the range of the pages from \<open>lo\<close> on below \<open>hi\<close>.\<close>

definition page_at :: "u64 \<Rightarrow> PageSize \<Rightarrow> nat \<Rightarrow> u64" where
  "page_at a sz i = a + word_of_nat (i * page_bytes sz)"

definition in_range :: "u64 \<Rightarrow> PageSize \<Rightarrow> nat \<Rightarrow> nat \<Rightarrow> u64 \<Rightarrow> bool" where
  "in_range virt sz lo hi w \<longleftrightarrow> unat virt + lo * page_bytes sz \<le> unat w \<and> unat w < unat virt + hi * page_bytes sz"

definition page_no :: "u64 \<Rightarrow> PageSize \<Rightarrow> u64 \<Rightarrow> nat" where
  "page_no virt sz w = (unat w - unat virt) div page_bytes sz"

lemma unat_page_at: "unat a + i * page_bytes sz < 2 ^ 64 \<Longrightarrow> unat (page_at a sz i) = unat a + i * page_bytes sz"
proof -
  assume b: "unat a + i * page_bytes sz < 2 ^ 64"
  then have "unat (word_of_nat (i * page_bytes sz) :: u64) = i * page_bytes sz" by (intro unat_of_nat64) simp
  then show ?thesis using b unat_add_lt[of a "word_of_nat (i * page_bytes sz)"] unfolding page_at_def by metis
qed

lemma in_page_at:
  assumes "unat virt + Suc i * page_bytes sz \<le> 2 ^ 64"
  shows "in_page (page_at virt sz i) sz w \<longleftrightarrow> in_range virt sz i (Suc i) w"
proof -
  have "0 < page_bytes sz" by simp
  then have "unat virt + i * page_bytes sz < 2 ^ 64" using assms unfolding mult_Suc by linarith
  then show ?thesis by (simp add: in_page_def in_range_def unat_page_at unat_le_iff add_ac)
qed

lemma page_no_in: "in_range virt sz i (Suc i) w \<Longrightarrow> page_no virt sz w = i"
  unfolding in_range_def page_no_def mult_Suc by (intro div_nat_eqI; unfold mult.commute[of "page_bytes sz"] mult_Suc; linarith)

lemma page_step:
  assumes x: "x86_ok X" and b: "unat a + i * page_bytes sz < 2 ^ 64"
  shows "mul64 (word_of_nat i) (PageSize_bytes X sz) = Some (word_of_nat (i * page_bytes sz))"
    "add64 a (word_of_nat (i * page_bytes sz)) = Some (page_at a sz i)"
proof -
  have pos: "1 \<le> page_bytes sz" by simp
  then have "i \<le> i * page_bytes sz" by simp
  then have i: "i < 2 ^ 64" "i * page_bytes sz < 2 ^ 64" using b by linarith+
  have u: "unat (word_of_nat i :: u64) = i" "unat (PageSize_bytes X sz) = page_bytes sz"
    "unat (word_of_nat (i * page_bytes sz) :: u64) = i * page_bytes sz"
    using i unat_of_nat64[OF i(1)] unat_of_nat64[OF i(2)] by (simp_all add: bytes_eq[OF x] del: of_nat_mult) (cases sz; simp)
  show "mul64 (word_of_nat i) (PageSize_bytes X sz) = Some (word_of_nat (i * page_bytes sz))"
    using i(2) unfolding mul64_alt u by (simp add: bytes_eq[OF x])
  show "add64 a (word_of_nat (i * page_bytes sz)) = Some (page_at a sz i)"
    using b unfolding add64_alt u page_at_def by simp
qed

text \<open>
  The tables with the pages from \<open>lo\<close> on below \<open>hi\<close> of the range mapped and everything else as in \<open>s0\<close>.
\<close>

definition mapped :: "x86 \<Rightarrow> Vmm \<Rightarrow> u64 \<Rightarrow> u64 \<Rightarrow> u64 \<Rightarrow> PageSize \<Rightarrow> nat \<Rightarrow> nat \<Rightarrow> 'a vkernel_scheme \<Rightarrow> 'a vkernel_scheme \<Rightarrow> bool" where
  "mapped X v virt phys flags sz lo hi s0 s \<longleftrightarrow> vm_kept v s0 s \<and>
     (\<forall>w. is_canonical w \<longrightarrow> vm_walk v s w =
        (if in_range virt sz lo hi w then Some (page_level sz, page_at phys sz (page_no virt sz w) OR leaf_bits X flags sz)
         else vm_walk v s0 w))"

definition fresh_range :: "Vmm \<Rightarrow> u64 \<Rightarrow> PageSize \<Rightarrow> nat \<Rightarrow> 'a vkernel_scheme \<Rightarrow> bool" where
  "fresh_range v virt sz n s \<longleftrightarrow>
     (\<forall>i<n. is_canonical (page_at virt sz i) \<and> page_bytes sz dvd unat (page_at virt sz i)) \<and>
     (\<forall>w. is_canonical w \<longrightarrow> in_range virt sz 0 n w \<longrightarrow> vm_walk v s w = None)"

lemma in_range_empty [simp]: "\<not> in_range virt sz n n w"
  by (simp add: in_range_def)

lemma in_range_last: "lo \<le> hi \<Longrightarrow> in_range virt sz lo (Suc hi) w \<longleftrightarrow> in_range virt sz lo hi w \<or> in_range virt sz hi (Suc hi) w"
proof -
  assume "lo \<le> hi"
  then have "lo * page_bytes sz \<le> hi * page_bytes sz" by (rule mult_le_mono1)
  then show ?thesis unfolding in_range_def mult_Suc by linarith
qed

lemma in_range_first: "lo < hi \<Longrightarrow> in_range virt sz lo hi w \<longleftrightarrow> in_range virt sz lo (Suc lo) w \<or> in_range virt sz (Suc lo) hi w"
proof -
  assume "lo < hi"
  then have "Suc lo * page_bytes sz \<le> hi * page_bytes sz" by (intro mult_le_mono1) simp
  then show ?thesis unfolding in_range_def mult_Suc by linarith
qed

lemma undo_ok:
  fixes s0 s :: "'a vkernel_scheme"
  assumes x: "x86_ok X" and b: "unat virt + hi * page_bytes sz \<le> 2 ^ 64" and fr: "fresh_range v virt sz hi s0"
  shows "lo + n = hi \<Longrightarrow> mapped X v virt phys flags sz lo hi s0 s \<Longrightarrow>
    \<exists>s'. map_range_undo X v virt sz (word_of_nat lo) n s = Some s' \<and> mapped X v virt phys flags sz hi hi s0 s'"
proof (induction n arbitrary: lo s)
  case (Suc n)
  then have lo: "lo < hi" by simp
  then have "Suc lo * page_bytes sz \<le> hi * page_bytes sz" by (intro mult_le_mono1) simp
  then have b1: "unat virt + Suc lo * page_bytes sz \<le> 2 ^ 64" using b by linarith
  have "0 < page_bytes sz" by simp
  then have b0: "unat virt + lo * page_bytes sz < 2 ^ 64" using b1 unfolding mult_Suc by linarith
  let ?a = "page_at virt sz lo"
  have a: "is_canonical ?a" "page_bytes sz dvd unat ?a" using fr lo by (auto simp: fresh_range_def)
  have inv: "vm_inv v s" using Suc.prems(2) by (simp add: mapped_def vm_kept_def)
  have "in_range virt sz lo (Suc lo) ?a" using unat_page_at[OF b0] by (simp add: in_range_def)
  then have "\<exists>e. vm_walk v s ?a = Some (page_level sz, e)"
    using Suc.prems(2) a(1) in_range_first[OF lo, of virt sz ?a] by (auto simp: mapped_def)
  then obtain s1 where s1: "Vmm_unmap X v ?a sz s = Some (Inr (), s1)" "vm_kept v s s1"
      "\<And>w. is_canonical w \<Longrightarrow> vm_walk v s1 w = (if in_page ?a sz w then None else vm_walk v s w)"
    using a by (rule_tac unmap_page[OF x inv, of ?a sz]) auto
  have "mapped X v virt phys flags sz (Suc lo) hi s0 s1"
    unfolding mapped_def
  proof (intro conjI allI impI)
    show "vm_kept v s0 s1" using Suc.prems(2) s1(2) vm_kept_trans by (auto simp: mapped_def)
    fix w assume w: "is_canonical w"
    have "in_range virt sz lo (Suc lo) w \<Longrightarrow> vm_walk v s0 w = None \<and> \<not> in_range virt sz (Suc lo) hi w"
      using fr w lo in_range_first[OF lo, of virt sz w] by (auto simp: fresh_range_def in_range_def)
    then show "vm_walk v s1 w = (if in_range virt sz (Suc lo) hi w
        then Some (page_level sz, page_at phys sz (page_no virt sz w) OR leaf_bits X flags sz) else vm_walk v s0 w)"
      using s1(3)[OF w] Suc.prems(2) w in_page_at[OF b1, of w] in_range_first[OF lo, of virt sz w]
      by (auto simp: mapped_def)
  qed
  moreover have "word_of_nat lo + 1 = (word_of_nat (Suc lo) :: u64)" by simp
  ultimately show ?case using Suc.IH[of "Suc lo" s1] Suc.prems(1) page_step[OF x b0] s1(1)
    by (simp del: of_nat_Suc)
qed simp

lemma map_loop_ok:
  fixes s0 s :: "'a vkernel_scheme"
  assumes x: "x86_ok X" and b: "unat virt + N * page_bytes sz \<le> 2 ^ 64" "unat phys + N * page_bytes sz \<le> 2 ^ 52"
    and fl: "flags AND ADDRESS_MASK = 0"
  shows "i + n = N \<Longrightarrow> mapped X v virt phys flags sz 0 i s0 s \<Longrightarrow> fresh_range v virt sz i s0 \<Longrightarrow>
    \<exists>r s'. map_range_loop X v virt phys flags sz (word_of_nat i) n s = Some (r, s') \<and>
      (if r = Inr () then mapped X v virt phys flags sz 0 N s0 s' \<and> fresh_range v virt sz N s0 \<and>
         (n \<noteq> 0 \<longrightarrow> page_bytes sz dvd unat phys)
       else mapped X v virt phys flags sz 0 0 s0 s')"
proof (induction n arbitrary: i s)
  case (Suc n)
  then have "Suc i * page_bytes sz \<le> N * page_bytes sz" by (intro mult_le_mono1) simp
  moreover have "0 < page_bytes sz" by simp
  ultimately have b1: "unat virt + Suc i * page_bytes sz \<le> 2 ^ 64" "unat virt + i * page_bytes sz < 2 ^ 64"
    "unat phys + i * page_bytes sz < 2 ^ 52" "unat virt + i * page_bytes sz \<le> 2 ^ 64"
    using b unfolding mult_Suc by linarith+
  have b2: "unat phys + i * page_bytes sz < 2 ^ 64" by (rule less_trans[OF b1(3)]) simp
  let ?a = "page_at virt sz i" and ?p = "page_at phys sz i"
  have inv: "vm_inv v s" using Suc.prems(2) by (simp add: mapped_def vm_kept_def)
  have pa: "unat ?p < 2 ^ 52" using unat_page_at[OF b2] b1(3) by simp
  obtain r s1 where m: "Vmm_map X v ?a ?p flags sz s = Some (r, s1)" "vm_kept v s s1"
      "r \<noteq> Inr () \<longrightarrow> vm_walk v s1 = vm_walk v s"
      "r = Inr () \<longrightarrow> is_canonical ?a \<and> page_bytes sz dvd unat ?a \<and> page_bytes sz dvd unat ?p \<and>
        (\<forall>w. is_canonical w \<longrightarrow> vm_walk v s1 w =
           (if in_page ?a sz w then Some (page_level sz, ?p OR leaf_bits X flags sz) else vm_walk v s w) \<and>
           (in_page ?a sz w \<longrightarrow> vm_walk v s w = None))"
    using map_page_cases[OF x inv pa fl, of ?a sz] by blast
  note s1 = m(1,2) m(3)[rule_format]
  have ok: "is_canonical ?a \<and> page_bytes sz dvd unat ?a \<and> page_bytes sz dvd unat ?p" if "r = Inr ()" using m(4) that by blast
  have walk: "vm_walk v s1 w = (if in_page ?a sz w then Some (page_level sz, ?p OR leaf_bits X flags sz) else vm_walk v s w)"
      "in_page ?a sz w \<Longrightarrow> vm_walk v s w = None"
    if "r = Inr ()" "is_canonical w" for w using m(4) that by blast+
  have k1: "vm_kept v s0 s1" using Suc.prems(2) s1(2) vm_kept_trans by (auto simp: mapped_def)
  note steps = page_step[OF x b1(2)] page_step(2)[OF x b2]
  show ?case
  proof (cases "r = Inr ()")
    case True
    have "mapped X v virt phys flags sz 0 (Suc i) s0 s1"
      unfolding mapped_def
    proof (intro conjI allI impI)
      show "vm_kept v s0 s1" by (rule k1)
      fix w assume w: "is_canonical w"
      show "vm_walk v s1 w = (if in_range virt sz 0 (Suc i) w
          then Some (page_level sz, page_at phys sz (page_no virt sz w) OR leaf_bits X flags sz) else vm_walk v s0 w)"
        using walk(1)[OF True w] Suc.prems(2) w in_page_at[OF b1(1), of w] in_range_last[of 0 i virt sz w] page_no_in[of virt sz i w]
        by (auto simp: mapped_def)
    qed
    moreover have "fresh_range v virt sz (Suc i) s0"
      unfolding fresh_range_def
    proof (intro conjI allI impI)
      fix j assume "j < Suc i"
      then show "is_canonical (page_at virt sz j)" "page_bytes sz dvd unat (page_at virt sz j)"
        using Suc.prems(3) ok[OF True] by (auto simp: fresh_range_def less_Suc_eq)
    next
      fix w assume w: "is_canonical w" "in_range virt sz 0 (Suc i) w"
      show "vm_walk v s0 w = None"
      proof (cases "in_range virt sz 0 i w")
        case False
        then have "in_page ?a sz w" using w(2) in_range_last[of 0 i virt sz w] in_page_at[OF b1(1), of w] by simp
        then show ?thesis using walk(2)[OF True w(1)] Suc.prems(2) w(1) False by (simp add: mapped_def)
      qed (use Suc.prems(3) w(1) in \<open>simp add: fresh_range_def\<close>)
    qed
    moreover have "word_of_nat i + 1 = (word_of_nat (Suc i) :: u64)" by simp
    moreover have "page_bytes sz dvd unat phys"
      using ok[OF True] unat_page_at[OF b2] dvd_add_left_iff[of "page_bytes sz" "i * page_bytes sz" "unat phys"] by simp
    ultimately obtain r' s' where "map_range_loop X v virt phys flags sz (word_of_nat i + 1) n s1 = Some (r', s')"
      "if r' = Inr () then mapped X v virt phys flags sz 0 N s0 s' \<and> fresh_range v virt sz N s0 \<and> page_bytes sz dvd unat phys
       else mapped X v virt phys flags sz 0 0 s0 s'"
      using Suc.IH[of "Suc i" s1] Suc.prems(1) by (metis add_Suc_right add_Suc)
    then show ?thesis using steps s1(1) True by (intro exI[of _ r'] exI[of _ s']) simp
  next
    case False
    then obtain e where e: "r = Inl e" by (cases r) auto
    have "mapped X v virt phys flags sz 0 i s0 s1" using Suc.prems(2) k1 s1(3)[OF False] by (simp add: mapped_def)
    from undo_ok[OF x b1(4) Suc.prems(3) _ this, of i] obtain s2 where
      "map_range_undo X v virt sz 0 i s1 = Some s2" "mapped X v virt phys flags sz i i s0 s2" by auto
    moreover have "i \<le> i * page_bytes sz" by simp
    then have "unat (word_of_nat i :: u64) = i" using b1(2) by (intro unat_of_nat64) linarith
    ultimately show ?thesis using steps s1(1) e by (simp add: mapped_def)
  qed
qed simp

lemma range_translate:
  assumes x: "x86_ok X" and inv: "vm_inv v s0" and m: "mapped X v virt phys flags sz 0 N s0 s" and fr: "fresh_range v virt sz N s0"
    and b: "unat virt + N * page_bytes sz \<le> 2 ^ 64" "unat phys + N * page_bytes sz \<le> 2 ^ 52"
    and fl: "flags AND ADDRESS_MASK = 0" and al: "N \<noteq> 0 \<Longrightarrow> page_bytes sz dvd unat phys" and w: "is_canonical w"
  shows "Vmm_translate X v w s =
    (if in_range virt sz 0 N w then Some (Some (phys + (w - virt), PTFlags_from_bits_truncate X (leaf_bits X flags sz)))
     else Vmm_translate X v w s0)"
proof (cases "in_range virt sz 0 N w")
  case False
  have "vm_inv v s" using m by (simp add: mapped_def vm_kept_def)
  from translate_eq[OF x this, of w] translate_eq[OF x inv, of w] False m w show ?thesis by (simp add: mapped_def)
next
  case True
  let ?P = "page_bytes sz" and ?k = "page_no virt sz w"
  have u: "unat virt \<le> unat w" "unat w < unat virt + N * ?P" using True by (simp_all add: in_range_def)
  have pos: "0 < ?P" by simp
  have k: "?k < N" unfolding page_no_def using u pos by (simp add: div_less_iff_less_mult)
  have kb: "?k * ?P \<le> unat w - unat virt" "unat w - unat virt < ?k * ?P + ?P"
    unfolding page_no_def using dividend_less_div_times[OF pos, of "unat w - unat virt"] by (simp_all add: add.commute)
  have "Suc ?k * ?P \<le> N * ?P" using k by (intro mult_le_mono1) simp
  then have b0: "unat virt + ?k * ?P < 2 ^ 64" "unat phys + ?k * ?P < 2 ^ 52"
    using b pos unfolding mult_Suc by linarith+
  have "unat phys + ?k * ?P < 2 ^ 64" by (rule less_trans[OF b0(2)]) simp
  note b1 = b0 this
  let ?a = "page_at virt sz ?k" and ?p = "page_at phys sz ?k"
  have a: "is_canonical ?a" "?P dvd unat ?a" using fr k by (auto simp: fresh_range_def)
  have pa: "unat ?p < 2 ^ 52" "?P dvd unat ?p" using unat_page_at[OF b1(3)] b1(2) al k by simp_all
  have "2 ^ 12 dvd ?P" by (rule le_imp_power_dvd) simp
  then have "aligned ?p" using pa(2) dvd_trans by (auto simp: aligned_def)
  note le = leaf_entry[OF x fl this pa(1), of sz]
  have "in_page ?a sz w" using kb u unat_page_at[OF b1(1)] unfolding in_page_def unat_le_iff by linarith
  then have "take_bit (12 + 9 * page_level sz) w = w - ?a" using page_offset_word[OF a(2)] by (simp add: in_page_def)
  moreover have "vm_walk v s w = Some (page_level sz, ?p OR leaf_bits X flags sz)" using True m w by (simp add: mapped_def)
  moreover have "?p + (w - ?a) = phys + (w - virt)" by (simp add: page_at_def)
  moreover have "vm_inv v s" using m by (simp add: mapped_def vm_kept_def)
  ultimately show ?thesis using True w translate_eq[OF x, of v s w] le(4,5) by (simp add: page_translation_def)
qed

section \<open>Theorems\<close>

lemma map_range_ok:
  assumes x: "x86_ok X" and inv: "vm_inv v s" and fl: "flags AND ADDRESS_MASK = 0"
    and b: "unat virt + unat pages * page_bytes sz \<le> 2 ^ 64" "unat phys + unat pages * page_bytes sz \<le> 2 ^ 52"
  shows "\<exists>r s'. Vmm_map_range X v virt phys pages flags sz s = Some (r, s') \<and> vm_inv v s' \<and>
    vm_tables v s' \<union> pmm_avail s' = vm_tables v s \<union> pmm_avail s \<and>
    agree_off (frame_words (HHDM_OFFSET s) (vm_tables v s \<union> pmm_avail s)) (kmem s) (kmem s') \<and>
    (\<forall>w. is_canonical w \<longrightarrow> Vmm_translate X v w s' =
       (if r = Inr () \<and> virt \<le> w \<and> unat w < unat virt + unat pages * page_bytes sz
        then Some (Some (phys + (w - virt), PTFlags_from_bits_truncate X (leaf_bits X flags sz)))
        else Vmm_translate X v w s))"
proof -
  have "mapped X v virt phys flags sz 0 0 s s" "fresh_range v virt sz 0 s"
    using vm_kept_refl[OF inv] by (simp_all add: mapped_def fresh_range_def)
  from map_loop_ok[OF x b fl _ this, of "unat pages"] obtain r s' where
    r: "Vmm_map_range X v virt phys pages flags sz s = Some (r, s')"
      "if r = Inr () then mapped X v virt phys flags sz 0 (unat pages) s s' \<and> fresh_range v virt sz (unat pages) s \<and>
         (unat pages \<noteq> 0 \<longrightarrow> page_bytes sz dvd unat phys)
       else mapped X v virt phys flags sz 0 0 s s'"
    by (auto simp: Vmm_map_range_def)
  then have k: "vm_kept v s s'" by (auto simp: mapped_def split: if_splits)
  have "Vmm_translate X v w s' =
       (if r = Inr () \<and> virt \<le> w \<and> unat w < unat virt + unat pages * page_bytes sz
        then Some (Some (phys + (w - virt), PTFlags_from_bits_truncate X (leaf_bits X flags sz)))
        else Vmm_translate X v w s)" if w: "is_canonical w" for w
  proof (cases "r = Inr ()")
    case True
    then show ?thesis using r(2) range_translate[OF x inv _ _ b fl _ w] by (simp add: in_range_def unat_le_iff)
  next
    case False
    have "vm_inv v s'" using k by (simp add: vm_kept_def)
    then show ?thesis using False r(2) w translate_eq[OF x inv, of w] translate_eq[OF x, of v s' w] by (simp add: mapped_def)
  qed
  then show ?thesis using r(1) k unfolding vm_kept_def by blast
qed

text \<open>
  C22. \<open>map_range\<close> is all or nothing.  It always returns; on an error every address translates as
  before, and on success exactly the addresses of the range translate to the physical range, linearly and with the
  requested flags, no matter at which page it fails.  In both cases the tables stay well formed, no
  frame is lost or taken twice, and no memory but tables and free frames is written.
\<close>

theorem map_range_atomic:
  assumes x: "x86_ok X" and inv: "vm_inv v s" and fl: "flags AND ADDRESS_MASK = 0"
    and b: "unat virt + unat pages * page_bytes sz \<le> 2 ^ 64" "unat phys + unat pages * page_bytes sz \<le> 2 ^ 52"
  shows "\<exists>r s'. Vmm_map_range X v virt phys pages flags sz s = Some (r, s') \<and> vm_inv v s' \<and>
    vm_tables v s' \<union> pmm_avail s' = vm_tables v s \<union> pmm_avail s \<and>
    agree_off (frame_words (HHDM_OFFSET s) (vm_tables v s \<union> pmm_avail s)) (kmem s) (kmem s') \<and>
    (\<forall>w. is_canonical w \<longrightarrow> Vmm_translate X v w s' =
       (if r = Inr () \<and> virt \<le> w \<and> unat w < unat virt + unat pages * page_bytes sz
        then Some (Some (phys + (w - virt), PTFlags_from_bits_truncate X (leaf_bits X flags sz)))
        else Vmm_translate X v w s))"
  by (rule map_range_ok[OF assms])

theorem map_range_atomic_witness:
  "\<exists>r s'. Vmm_map_range amd64 small_vmm 0x400000 0x5000 2 2 Base small_kernel = Some (r, s') \<and> r = Inr () \<and>
     Vmm_translate amd64 small_vmm 0x401008 s' = Some (Some (0x6008, 3))"
proof -
  have m: "map_option fst (Vmm_map_range amd64 small_vmm 0x400000 0x5000 2 2 Base small_kernel) = Some (Inr ())" by code_simp
  have c: "is_canonical 0x401008" by (simp add: is_canonical_def)
  show ?thesis
    using map_range_atomic[OF amd64_ok small_kernel_inv(1) small_addresses(6), of "0x400000" 2 Base "0x5000"] m c
    by (auto simp: amd64_def amd64_flags_def)
qed

end
