(* ===== verification/Utils.thy ===== *)
theory Utils
  imports Prelude
begin

text \<open>
  The locks of kernel/src/utils.rs: \<open>IntLock\<close> (a spin lock that keeps interrupts off while it
  is held), \<open>SpinLock\<close>, \<open>Singleton\<close> (a value installed once behind an \<open>IntLock\<close>) and
  \<open>critical_section\<close>.  Here each operation is one function on the state of the lock and of the
  interrupt flag of the processor that runs it; the interleaving of the atomic accesses inside
  the operations is the subject of the theories on the lock protocols.
\<close>

section \<open>The interrupt flag\<close>

text \<open>
  \<open>rflags::read\<close>, \<open>RFlags::FLAGS_IF\<close>, \<open>irq::disable\<close> and \<open>irq::enable\<close> belong to the \<open>x86\<close> crate,
  so they are a parameter; the processor's interrupt flag is the state they act on.  \<open>irq_ok\<close>
  is their documented behaviour.
\<close>

record irq =
  rflags_read :: "bool \<Rightarrow> u64"
  FLAGS_IF :: u64
  irq_disable :: "bool \<Rightarrow> bool"
  irq_enable :: "bool \<Rightarrow> bool"

definition contains :: "u64 \<Rightarrow> u64 \<Rightarrow> bool" where
  "contains a b \<longleftrightarrow> a AND b = b"

definition irq_ok :: "irq \<Rightarrow> bool" where
  "irq_ok Q \<longleftrightarrow> (\<forall>f. contains (rflags_read Q f) (FLAGS_IF Q) \<longleftrightarrow> f) \<and>
     (\<forall>f. \<not> irq_disable Q f) \<and> (\<forall>f. irq_enable Q f)"

lemma irq_simps:
  assumes "irq_ok Q"
  shows "contains (rflags_read Q f) (FLAGS_IF Q) = f" "irq_disable Q f = False" "irq_enable Q f = True"
  using assms by (simp_all add: irq_ok_def)

definition amd64_irq :: irq where
  "amd64_irq = \<lparr>rflags_read = (\<lambda>f. if f then 0x202 else 0x002), FLAGS_IF = 0x200,
     irq_disable = (\<lambda>_. False), irq_enable = (\<lambda>_. True)\<rparr>"

lemma amd64_irq_ok: "irq_ok amd64_irq"
  by (simp add: irq_ok_def amd64_irq_def contains_def)

section \<open>IntLock\<close>

record IntLock =
  locked :: bool
  saved_if :: bool

definition IntLock_INIT :: IntLock where
  "IntLock_INIT = \<lparr>locked = False, saved_if = False\<rparr>"

text \<open>The operations return the new lock and the new interrupt flag.\<close>

definition IntLock_try_lock :: "irq \<Rightarrow> IntLock \<times> bool \<Rightarrow> bool \<times> IntLock \<times> bool" where
  "IntLock_try_lock Q = (\<lambda>(l, f).
     if locked l then (False, l, f)
     else (True, l\<lparr>locked := True, saved_if := contains (rflags_read Q f) (FLAGS_IF Q)\<rparr>, irq_disable Q f))"

text \<open>The value \<open>None\<close> of \<open>lock\<close> is a processor that spins for ever.\<close>

partial_function (option) IntLock_lock :: "irq \<Rightarrow> IntLock \<times> bool \<Rightarrow> (IntLock \<times> bool) option" where
  "IntLock_lock Q s = (case IntLock_try_lock Q s of (got, s) \<Rightarrow> if got then Some s else IntLock_lock Q s)"

definition IntLock_unlock :: "irq \<Rightarrow> IntLock \<times> bool \<Rightarrow> IntLock \<times> bool" where
  "IntLock_unlock Q = (\<lambda>(l, f). (l\<lparr>locked := False\<rparr>, if saved_if l then irq_enable Q f else f))"

definition IntLock_is_locked :: "IntLock \<times> bool \<Rightarrow> bool" where
  "IntLock_is_locked = (\<lambda>(l, f). locked l)"

section \<open>SpinLock\<close>

text \<open>
  The state of a \<open>SpinLock\<close> is its flag.  \<open>compare_exchange_weak\<close> may fail although the flag is
  clear; \<open>weak\<close> gives the outcome of each attempt, \<open>lock\<close> takes the first that succeeds.
\<close>

definition SpinLock_INIT :: bool where
  "SpinLock_INIT = False"

definition SpinLock_try_lock :: "bool \<Rightarrow> bool \<times> bool" where
  "SpinLock_try_lock l = (if l then (False, l) else (True, True))"

partial_function (option) SpinLock_lock :: "bool list \<Rightarrow> bool \<Rightarrow> bool option" where
  "SpinLock_lock weak l =
     (if l then SpinLock_lock weak l
      else case weak of
        [] \<Rightarrow> Some True
      | ok # weak \<Rightarrow> if ok then Some True else SpinLock_lock weak l)"

definition SpinLock_unlock :: "bool \<Rightarrow> bool" where
  "SpinLock_unlock l = False"

definition SpinLock_is_locked :: "bool \<Rightarrow> bool" where
  "SpinLock_is_locked l = l"

section \<open>Singleton and critical sections\<close>

text \<open>
  A \<open>Singleton\<close> is the lock and the value; \<open>lock_api\<close>'s guard releases the lock when it goes out
  of scope.  \<open>install\<close> and \<open>with\<close> panic (\<open>None\<close>) on a value that is there, or is not.
\<close>

record 'a Singleton =
  inner_lock :: IntLock
  inner_value :: "'a option"

definition Singleton_new :: "'a Singleton" where
  "Singleton_new = \<lparr>inner_lock = IntLock_INIT, inner_value = None\<rparr>"

definition Singleton_install :: "irq \<Rightarrow> 'a \<Rightarrow> 'a Singleton \<times> bool \<Rightarrow> ('a Singleton \<times> bool) option" where
  "Singleton_install Q value = (\<lambda>(g, f). do {
     (l, f) \<leftarrow> IntLock_lock Q (inner_lock g, f);
     check (inner_value g = None);
     let (l, f) = IntLock_unlock Q (l, f);
     Some (\<lparr>inner_lock = l, inner_value = Some value\<rparr>, f) })"

definition Singleton_with :: "irq \<Rightarrow> ('a \<Rightarrow> 'r \<times> 'a) \<Rightarrow> 'a Singleton \<times> bool \<Rightarrow> ('r \<times> 'a Singleton \<times> bool) option" where
  "Singleton_with Q fn = (\<lambda>(g, f). do {
     (l, f) \<leftarrow> IntLock_lock Q (inner_lock g, f);
     v \<leftarrow> inner_value g;
     let (r, v) = fn v;
     let (l, f) = IntLock_unlock Q (l, f);
     Some (r, \<lparr>inner_lock = l, inner_value = Some v\<rparr>, f) })"

text \<open>The closure acts on the interrupt flag too.\<close>

definition critical_section :: "irq \<Rightarrow> (bool \<times> 's \<Rightarrow> 'r \<times> bool \<times> 's) \<Rightarrow> bool \<times> 's \<Rightarrow> 'r \<times> bool \<times> 's" where
  "critical_section Q fn = (\<lambda>(f, s).
     let enabled = contains (rflags_read Q f) (FLAGS_IF Q);
         (res, f, s) = fn (irq_disable Q f, s)
     in (res, if enabled then irq_enable Q f else f, s))"

section \<open>The contract of a raw mutex\<close>

text \<open>
  What the wrapper \<open>lock_api::Mutex\<close> relies on: \<open>try_lock\<close> succeeds exactly on a free lock and
  leaves it taken, a failed attempt changes nothing, and \<open>unlock\<close> frees it.
\<close>

locale raw_mutex =
  fixes try_lock :: "'l \<Rightarrow> bool \<times> 'l" and lock :: "'l \<Rightarrow> 'l option" and unlock :: "'l \<Rightarrow> 'l" and is_locked :: "'l \<Rightarrow> bool"
  assumes try_lock_taken: "is_locked l \<Longrightarrow> try_lock l = (False, l)"
    and try_lock_free: "\<not> is_locked l \<Longrightarrow> \<exists>l'. try_lock l = (True, l') \<and> is_locked l'"
    and lock_free: "\<not> is_locked l \<Longrightarrow> lock l = Some (snd (try_lock l))"
    and lock_taken: "is_locked l \<Longrightarrow> lock l = None"
    and unlock_free: "\<not> is_locked (unlock l)"
begin

text \<open>A locked section: it runs exactly when the lock is free, and leaves it free.\<close>

definition locked_section :: "('s \<Rightarrow> 'r \<times> 's) \<Rightarrow> 'l \<times> 's \<Rightarrow> ('r \<times> 'l \<times> 's) option" where
  "locked_section fn = (\<lambda>(l, s). do {
     l \<leftarrow> lock l;
     let (r, s) = fn s;
     Some (r, unlock l, s) })"

lemma locked_section_runs:
  "\<not> is_locked l \<Longrightarrow> \<exists>l'. locked_section fn (l, s) = Some (fst (fn s), l', snd (fn s)) \<and> \<not> is_locked l'"
  using lock_free unlock_free by (auto simp: locked_section_def split_beta)

lemma locked_section_waits: "is_locked l \<Longrightarrow> locked_section fn (l, s) = None"
  by (simp add: locked_section_def lock_taken)

lemma lock_excludes: "lock l = Some l' \<Longrightarrow> \<not> is_locked l \<and> is_locked l' \<and> try_lock l' = (False, l') \<and> lock l' = None"
  using lock_taken lock_free try_lock_free try_lock_taken by (metis option.distinct(1) option.inject snd_conv)

end

section \<open>The two locks meet the contract\<close>

lemma IntLock_lock_returns: "IntLock_lock Q s = Some s' \<Longrightarrow> \<not> IntLock_is_locked s"
  by (rule IntLock_lock.raw_induct[where P = "\<lambda>Q s s'. \<not> IntLock_is_locked s"])
    (auto simp: IntLock_try_lock_def IntLock_is_locked_def split: prod.splits if_splits)

lemma SpinLock_lock_returns: "SpinLock_lock weak l = Some l' \<Longrightarrow> \<not> l \<and> l'"
  by (rule SpinLock_lock.raw_induct[where P = "\<lambda>weak l l'. \<not> l \<and> l'"]) (auto split: if_splits list.splits)

lemma SpinLock_lock_free: "SpinLock_lock weak False = Some True"
  by (induction weak) (simp_all add: SpinLock_lock.simps[of _ False])

interpretation int_mutex: raw_mutex "IntLock_try_lock Q" "IntLock_lock Q" "IntLock_unlock Q" IntLock_is_locked for Q
proof (unfold_locales, goal_cases)
  case (3 s)
  then show ?case
    by (subst IntLock_lock.simps) (auto simp: IntLock_try_lock_def IntLock_is_locked_def split: prod.splits)
next
  case (4 s)
  then show ?case using IntLock_lock_returns[of Q s] by (cases "IntLock_lock Q s") auto
qed (auto simp: IntLock_try_lock_def IntLock_unlock_def IntLock_is_locked_def)

interpretation spin_mutex: raw_mutex SpinLock_try_lock "SpinLock_lock weak" SpinLock_unlock SpinLock_is_locked for weak
proof (unfold_locales, goal_cases)
  case (4 l)
  then show ?case using SpinLock_lock_returns[of weak l] by (cases "SpinLock_lock weak l") (auto simp: SpinLock_is_locked_def)
qed (auto simp: SpinLock_try_lock_def SpinLock_unlock_def SpinLock_is_locked_def SpinLock_lock_free)

lemma IntLock_lock_eq:
  assumes "irq_ok Q"
  shows "IntLock_lock Q (l, f) = (if locked l then None else Some (l\<lparr>locked := True, saved_if := f\<rparr>, False))"
  using int_mutex.lock_free[of "(l, f)" Q] int_mutex.lock_taken[of "(l, f)" Q] irq_simps[OF assms]
  by (auto simp: IntLock_is_locked_def IntLock_try_lock_def)

end
