(* ===== verification/Mm.thy ===== *)
theory Mm
  imports Utils Vmm_Ownership Heap_Theorems
begin

text \<open>
  The start of the memory managers, kernel/src/mm/mod.rs: the size of physical memory and the
  place of the frame table are read off the boot loader's memory map, the usable frames are given to
  the physical allocator, the boot tables are copied and the heap is opened.
\<close>

section \<open>Alignment\<close>

definition align_up :: "u64 \<Rightarrow> u64 \<Rightarrow> u64 option" where
  "align_up addr align = do {
     check (is_power_of_two align);
     a \<leftarrow> add64 addr align;
     a \<leftarrow> sub64 a 1;
     k \<leftarrow> sub64 align 1;
     Some (a AND NOT k) }"

definition align_down :: "u64 \<Rightarrow> u64 \<Rightarrow> u64 option" where
  "align_down addr align = do {
     check (is_power_of_two align);
     k \<leftarrow> sub64 align 1;
     Some (addr AND NOT k) }"

section \<open>Initialisation\<close>

text \<open>The other variant, \<open>HeapError\<close>, holds a value of an empty enum, so it never occurs.\<close>

datatype MmError = VmmError VmmError

text \<open>The loop that finds the end of the highest entry.\<close>

primrec highest_loop :: "Entry list \<Rightarrow> u64 \<Rightarrow> u64 option" where
  "highest_loop [] highest = Some highest"
| "highest_loop (e # es) highest = do {
     end \<leftarrow> add64 (entry_base e) (entry_length e);
     highest_loop es (if end > highest then end else highest) }"

text \<open>The first usable entry that can hold the frame table; \<open>u64::MAX\<close> when there is none.\<close>

primrec order_search :: "u64 \<Rightarrow> u64 \<Rightarrow> Entry list \<Rightarrow> u64" where
  "order_search usable order_bytes [] = - 1"
| "order_search usable order_bytes (e # es) =
     (if entry_type e = usable \<and> entry_length e \<ge> order_bytes then entry_base e
      else order_search usable order_bytes es)"

definition add_piece :: "mem \<Rightarrow> Pmm \<Rightarrow> u64 \<times> u64 \<Rightarrow> (mem \<times> Pmm) option" where
  "add_piece m p = (\<lambda>(s, e).
     if e \<le> s then Some (m, p)
     else let s = (if s = 0 then 1 else s) in
       if e > s then do { c \<leftarrow> sub64 e s; add_range m p s c } else Some (m, p))"

primrec ranges_loop :: "u64 \<Rightarrow> u64 \<Rightarrow> u64 \<Rightarrow> mem \<Rightarrow> Pmm \<Rightarrow> Entry list \<Rightarrow> (mem \<times> Pmm) option" where
  "ranges_loop usable order_first order_last m p [] = Some (m, p)"
| "ranges_loop usable order_first order_last m p (e # es) =
     (if entry_type e \<noteq> usable then ranges_loop usable order_first order_last m p es
      else do {
        let entry_first = drop_bit FRAME_SHIFT (entry_base e);
        end \<leftarrow> add64 (entry_base e) (entry_length e);
        let entry_last = drop_bit FRAME_SHIFT end;
        (m, p) \<leftarrow> add_piece m p (entry_first, min entry_last order_first);
        (m, p) \<leftarrow> add_piece m p (max entry_first order_last, entry_last);
        ranges_loop usable order_first order_last m p es })"

text \<open>
  \<open>slice::from_raw_parts_mut\<close>: the bytes at a pointer, taken out of the little-endian words of
  memory.  The slice belongs to the frame table from here on.
\<close>

definition load_byte :: "mem \<Rightarrow> u64 \<Rightarrow> u8" where
  "load_byte m a = ucast (drop_bit (8 * unat (a mod 8)) (m (a - a mod 8)))"

definition raw_slice :: "mem \<Rightarrow> u64 \<Rightarrow> nat \<Rightarrow> u8 list" where
  "raw_slice m a n = map (\<lambda>i. load_byte m (a + word_of_nat i)) [0..<n]"

definition vmm_install :: "Vmm \<Rightarrow> 'a vkernel_scheme \<Rightarrow> 'a vkernel_scheme option" where
  "vmm_install v s = do { check (VMM s = None); Some (s\<lparr>VMM := Some v\<rparr>) }"

text \<open>
  The responses of the boot loader and the type code of usable memory come from the \<open>limine\<close> crate.
  The message about the free frames multiplies their number by the frame size.
\<close>

definition mm_init :: "x86 \<Rightarrow> u64 \<Rightarrow> Entry list option \<Rightarrow> u64 option \<Rightarrow> 'a hkernel_scheme \<Rightarrow>
    ((MmError + unit) \<times> 'a hkernel_scheme) option" where
  "mm_init X usable memmap_response hhdm_response s = do {
     memmap \<leftarrow> memmap_response;
     hhdm \<leftarrow> hhdm_response;
     highest \<leftarrow> highest_loop memmap 0;
     top \<leftarrow> align_up highest FRAME_SIZE;
     let total = drop_bit FRAME_SHIFT top;
     order_bytes \<leftarrow> align_up total FRAME_SIZE;
     let order_phys = order_search usable order_bytes memmap;
     check (order_phys \<noteq> - 1);
     ptr \<leftarrow> add64 order_phys hhdm;
     p \<leftarrow> Pmm_new (raw_slice (kmem s) ptr (unat total)) total hhdm;
     let order_first = drop_bit FRAME_SHIFT order_phys;
     order_last \<leftarrow> add64 order_first (drop_bit FRAME_SHIFT order_bytes);
     (m, p) \<leftarrow> ranges_loop usable order_first order_last (kmem s) p memmap;
     let free = free_frames_count p;
     s \<leftarrow> pmm_install p (s\<lparr>kmem := m\<rparr>);
     mul64 free FRAME_SIZE;
     (r, s) \<leftarrow> take_ownership X hhdm s;
     (case r of
       Inl e \<Rightarrow> Some (Inl (VmmError e), s)
     | Inr root \<Rightarrow> do {
         s \<leftarrow> vmm_install (Vmm_new root) (s\<lparr>HHDM_OFFSET := hhdm\<rparr>);
         heap_init s;
         Some (Inr (), s) }) }"

end
