(* ===== verification/Mm_Boot.thy ===== *)
theory Mm_Boot
  imports Mm
begin

text \<open>
  Correctness of kernel/src/mm/mod.rs: \<open>align_up\<close> and \<open>align_down\<close>, and \<open>init\<close> from the state the boot
  loader leaves to the invariants of the physical allocator, the page tables and the heap.
\<close>

section \<open>Alignment\<close>

lemma is_power_of_two_iff: "is_power_of_two w \<longleftrightarrow> (\<exists>n<64. w = 2 ^ n)"
proof
  assume "is_power_of_two w"
  then obtain n where n: "filter (bit w) [0..<64] = [n]"
    unfolding is_power_of_two_def by (auto simp: length_Suc_conv)
  have s: "set (filter (bit w) [0..<64]) = {n}" unfolding n by simp
  have "bit w k \<longleftrightarrow> k = n" if "k < 64" for k using s that by (auto simp: set_eq_iff)
  then have "w = 2 ^ n" by (intro bit_eqI) (auto simp: bit_simps bit_exp_iff)
  moreover have "n < 64" using s by auto
  ultimately show "\<exists>n<64. w = 2 ^ n" by blast
next
  assume "\<exists>n<64. w = 2 ^ n"
  then obtain n where n: "n < 64" "w = 2 ^ n" by blast
  have "distinct (filter (bit w) [0..<64])" by simp
  moreover have "set (filter (bit w) [0..<64]) = {n}" using n by (auto simp: bit_exp_iff)
  ultimately have "length (filter (bit w) [0..<64]) = card {n}" by (metis distinct_card)
  then show "is_power_of_two w" by (simp add: is_power_of_two_def)
qed

lemma clear_low_bits:
  assumes "n < 64"
  shows "unat (w AND NOT (2 ^ n - 1) :: u64) = unat w div 2 ^ n * 2 ^ n"
proof -
  have "w AND NOT (2 ^ n - 1) = push_bit n (drop_bit n w)"
    by (intro bit_eqI) (auto simp: bit_simps simp flip: mask_eq_exp_minus_1)
  moreover have "unat w div 2 ^ n * 2 ^ n < 2 ^ 64"
    using unat_lt64[of w] div_times_less_eq_dividend[of "unat w" "2 ^ n"] by (rule le_less_trans[rotated])
  ultimately show ?thesis by (simp add: unat_push_bit64 unat_drop_bit64)
qed

lemma align_down_eq: "n < 64 \<Longrightarrow> \<exists>r. align_down a (2 ^ n) = Some r \<and> unat r = unat a div 2 ^ n * 2 ^ n"
proof -
  assume n: "n < 64"
  then have "is_power_of_two (2 ^ n)" "(1 :: u64) \<le> 2 ^ n" by (auto simp: is_power_of_two_iff unat_le_iff)
  then show ?thesis using clear_low_bits[OF n, of a] by (simp add: align_down_def)
qed

lemma align_up_eq:
  assumes n: "n < 64"
  shows "unat a + 2 ^ n < 2 ^ 64 \<Longrightarrow> \<exists>r. align_up a (2 ^ n) = Some r \<and> unat r = (unat a + 2 ^ n - 1) div 2 ^ n * 2 ^ n"
    "2 ^ 64 \<le> unat a + 2 ^ n \<Longrightarrow> align_up a (2 ^ n) = None"
proof -
  have p: "is_power_of_two (2 ^ n)" "(1 :: u64) \<le> 2 ^ n" using n by (auto simp: is_power_of_two_iff unat_le_iff)
  show "2 ^ 64 \<le> unat a + 2 ^ n \<Longrightarrow> align_up a (2 ^ n) = None" using n by (simp add: align_up_def p)
  assume b: "unat a + 2 ^ n < 2 ^ 64"
  have u: "unat (a + 2 ^ n) = unat a + 2 ^ n" using n b by (simp add: unat_add_lt)
  have le: "1 \<le> a + 2 ^ n" using u by (simp add: unat_le_iff Suc_le_eq)
  then have "unat (a + 2 ^ n - 1) = unat a + 2 ^ n - 1" using u by (simp add: unat_sub unat_le_iff)
  then show "\<exists>r. align_up a (2 ^ n) = Some r \<and> unat r = (unat a + 2 ^ n - 1) div 2 ^ n * 2 ^ n"
    using clear_low_bits[OF n, of "a + 2 ^ n - 1"] n b p le by (simp add: align_up_def)
qed

text \<open>The sum overflows although the result, the address itself, would fit.\<close>

lemma align_up_early_panic: "align_up 0xFFFFFFFFFFFFF000 0x1000 = None" "0x1000 dvd unat (0xFFFFFFFFFFFFF000 :: u64)"
  using align_up_eq(2)[of 12 "0xFFFFFFFFFFFFF000"] by simp_all

text \<open>
  C39. \<open>align_down\<close> gives the largest multiple of the alignment that is at most the address and
  \<open>align_up\<close> the smallest that is at least the address.  Both panic exactly on an alignment that is no
  power of two, \<open>align_up\<close> also when address and alignment sum to 2^64 or more (which is more often than the result does not fit).
\<close>

theorem align_bounds:
  "(align_down a k = None \<longleftrightarrow> \<not> is_power_of_two k) \<and>
   (align_up a k = None \<longleftrightarrow> \<not> is_power_of_two k \<or> 2 ^ 64 \<le> unat a + unat k) \<and>
   (\<forall>r. align_down a k = Some r \<longrightarrow> unat k dvd unat r \<and> r \<le> a \<and> unat a < unat r + unat k) \<and>
   (\<forall>r. align_up a k = Some r \<longrightarrow> unat k dvd unat r \<and> a \<le> r \<and> unat r < unat a + unat k)"
proof (cases "is_power_of_two k")
  case False
  then show ?thesis by (simp add: align_up_def align_down_def)
next
  case True
  then obtain n where n: "n < 64" "k = 2 ^ n" by (auto simp: is_power_of_two_iff)
  obtain d where d: "align_down a k = Some d" "unat d = unat a div 2 ^ n * 2 ^ n"
    using align_down_eq[OF n(1)] n(2) by blast
  have q: "x div 2 ^ n * 2 ^ n \<le> x \<and> x < x div 2 ^ n * 2 ^ n + 2 ^ n" for x :: nat
  proof -
    have "x mod 2 ^ n < 2 ^ n" by simp
    then show ?thesis using div_mult_mod_eq[of x "2 ^ n"] by linarith
  qed
  have u: "unat k = 2 ^ n" using n by simp
  have up: "unat k dvd unat r \<and> a \<le> r \<and> unat r < unat a + unat k" if r: "align_up a k = Some r" for r
  proof -
    have b: "unat a + 2 ^ n < 2 ^ 64" using align_up_eq(2)[OF n(1), of a] r n(2) by (cases "unat a + 2 ^ n < 2 ^ 64") auto
    then have "unat r = (unat a + 2 ^ n - 1) div 2 ^ n * 2 ^ n" using align_up_eq(1)[OF n(1) b] r n(2) by auto
    moreover have "0 < (2 :: nat) ^ n" by simp
    ultimately have "unat a \<le> unat r" "unat r < unat a + 2 ^ n" "2 ^ n dvd unat r"
      using q[of "unat a + 2 ^ n - 1"] by (linarith, linarith, simp)
    then show ?thesis by (simp add: u unat_le_iff)
  qed
  have "align_up a k = None \<longleftrightarrow> 2 ^ 64 \<le> unat a + unat k"
    using align_up_eq[OF n(1), of a] n u by (cases "unat a + 2 ^ n < 2 ^ 64") auto
  then show ?thesis using True d q[of "unat a"] up by (auto simp: u unat_le_iff)
qed

theorem align_bounds_witness:
  "(\<exists>r. align_up 0x1234 0x1000 = Some r \<and> 0x1000 dvd unat r) \<and> align_up 0xFFFFFFFFFFFFF001 0x1000 = None"
proof -
  have p: "is_power_of_two 0x1000" unfolding is_power_of_two_iff by (intro exI[of _ 12]) simp
  show ?thesis using align_bounds[of "0x1234" "0x1000"] align_bounds[of "0xFFFFFFFFFFFFF001" "0x1000"] p
    by (cases "align_up 0x1234 0x1000") auto
qed

section \<open>The memory map\<close>

definition entry_end :: "Entry \<Rightarrow> nat" where
  "entry_end e = unat (entry_base e) + unat (entry_length e)"

definition entry_frames :: "Entry \<Rightarrow> nat set" where
  "entry_frames e = {unat (entry_base e) div 4096..<entry_end e div 4096}"

definition usable_frames :: "u64 \<Rightarrow> Entry list \<Rightarrow> nat set" where
  "usable_frames usable es = (\<Union>e\<in>{e \<in> set es. entry_type e = usable}. entry_frames e)"

definition mem_frames :: "Entry list \<Rightarrow> nat" where
  "mem_frames es = (Max (insert 0 (entry_end ` set es)) + 4095) div 4096"

text \<open>
  What the boot protocol documents about the map: entries do not wrap around, usable ones are made of whole
  frames and do not overlap each other.
\<close>

definition memmap_ok :: "u64 \<Rightarrow> Entry list \<Rightarrow> bool" where
  "memmap_ok usable es \<longleftrightarrow> (\<forall>e\<in>set es. entry_end e < 2 ^ 64) \<and>
     (\<forall>e\<in>set es. entry_type e = usable \<longrightarrow> 4096 dvd unat (entry_base e) \<and> 4096 dvd unat (entry_length e)) \<and>
     sorted_wrt (\<lambda>e e'. entry_type e = usable \<longrightarrow> entry_type e' = usable \<longrightarrow> entry_frames e \<inter> entry_frames e' = {}) es"

lemma memmap_ok_Cons:
  "memmap_ok usable (e # es) \<longleftrightarrow> entry_end e < 2 ^ 64 \<and>
     (entry_type e = usable \<longrightarrow> 4096 dvd unat (entry_base e) \<and> 4096 dvd unat (entry_length e) \<and>
        entry_frames e \<inter> usable_frames usable es = {}) \<and> memmap_ok usable es"
  by (auto simp: memmap_ok_def usable_frames_def)

lemma usable_frames_simps [simp]:
  "usable_frames usable [] = {}"
  "usable_frames usable (e # es) = (if entry_type e = usable then entry_frames e else {}) \<union> usable_frames usable es"
  by (auto simp: usable_frames_def)

lemma highest_loop_ok:
  assumes "\<forall>e\<in>set es. entry_end e < 2 ^ 64"
  shows "\<exists>r. highest_loop es h = Some r \<and> unat r = Max (insert (unat h) (entry_end ` set es))"
  using assms
proof (induction es arbitrary: h)
  case (Cons e es)
  have e: "unat (entry_base e) + unat (entry_length e) < 2 ^ 64" using Cons.prems by (simp add: entry_end_def)
  let ?x = "entry_base e + entry_length e"
  have x: "unat ?x = entry_end e" using e by (simp add: unat_add_lt entry_end_def)
  have "unat (if ?x > h then ?x else h) = max (entry_end e) (unat h)" using x by (simp add: unat_less_iff)
  moreover have "Max (insert (max (entry_end e) (unat h)) (entry_end ` set es)) =
      Max (insert (unat h) (insert (entry_end e) (entry_end ` set es)))"
    by (cases "es = []") (simp_all add: max.assoc max.left_commute)
  ultimately show ?case using Cons.IH[of "if ?x > h then ?x else h"] Cons.prems e by simp
qed simp

section \<open>Giving the usable frames to the allocator\<close>

lemma add_piece_ok:
  assumes inv: "pmm_inv m p" and e: "unat e \<le> 2 ^ 52"
    and legal: "{unat s..<unat e} - {0} \<subseteq> {..<unat (total_frames p)} - dom (labels p)"
  shows "\<exists>m' p'. add_piece m p (s, e) = Some (m', p') \<and> free_result m p ({unat s..<unat e} - {0}) m' p'"
proof (cases "e \<le> s")
  case True
  then have n: "{unat s..<unat e} - {0} = {}" by (auto simp: unat_le_iff)
  show ?thesis unfolding n using True inv by (simp add: add_piece_def)
next
  case False
  let ?s = "if s = 0 then 1 else s"
  have u: "unat ?s = (if unat s = 0 then 1 else unat s)" by (simp add: unat_eq_zero)
  have set: "{unat s..<unat e} - {0} = {unat ?s..<unat e}" unfolding u by auto
  show ?thesis
  proof (cases "e > ?s")
    case True
    then have c: "unat (e - ?s) = unat e - unat ?s" "sub64 e ?s = Some (e - ?s)" and l: "unat ?s \<le> unat e"
      by (simp_all add: unat_sub unat_less_iff sub64_def unat_le_iff)
    have "range_legal p (unat ?s) (unat (e - ?s))" using legal l unfolding set range_legal_def c(1) by simp
    then show ?thesis
      using add_range_ok[OF inv, of ?s "e - ?s"] e l False True c unfolding set by (simp add: add_piece_def Let_def)
  next
    case False': False
    then have n: "{unat ?s..<unat e} = {}" unfolding unat_less_iff by simp
    show ?thesis unfolding set n using False False' inv by (simp add: add_piece_def Let_def)
  qed
qed

lemma unat_min_max: "unat (min a b) = min (unat a) (unat b)" "unat (max a b) = max (unat a) (unat (b :: u64))"
  by (simp_all add: min_def max_def unat_le_iff)

lemma ranges_loop_ok:
  assumes "pmm_inv m p" "memmap_ok usable es" "unat lo \<le> unat hi"
    and "usable_frames usable es \<subseteq> {..<unat (total_frames p)} - dom (labels p)"
  shows "\<exists>m' p'. ranges_loop usable lo hi m p es = Some (m', p') \<and>
    free_result m p (usable_frames usable es - {unat lo..<unat hi} - {0}) m' p'"
  using assms
proof (induction es arbitrary: m p)
  case (Cons e es)
  show ?case
  proof (cases "entry_type e = usable")
    case False
    then show ?thesis using Cons by (simp add: memmap_ok_Cons)
  next
    case True
    let ?a = "drop_bit FRAME_SHIFT (entry_base e)" and ?x = "entry_base e + entry_length e"
    let ?b = "drop_bit FRAME_SHIFT ?x"
    have e: "entry_end e < 2 ^ 64" "entry_frames e \<inter> usable_frames usable es = {}" "memmap_ok usable es"
      using Cons.prems(2) True by (auto simp: memmap_ok_Cons)
    have x: "add64 (entry_base e) (entry_length e) = Some ?x" "unat ?x = entry_end e"
      using e(1) by (simp_all add: entry_end_def unat_add_lt)
    have ab: "unat ?a = unat (entry_base e) div 4096" "unat ?b = entry_end e div 4096"
      by (simp_all add: unat_drop_bit64 x(2))
    have F: "entry_frames e = {unat ?a..<unat ?b}" unfolding ab by (simp add: entry_frames_def)
    let ?L = "{unat ?a..<min (unat ?b) (unat lo)} - {0}" and ?R = "{max (unat ?a) (unat hi)..<unat ?b} - {0}"
    have b52: "unat ?b \<le> 2 ^ 52" using e(1) unfolding ab by simp
    have sub: "entry_frames e \<subseteq> {..<unat (total_frames p)} - dom (labels p)" using Cons.prems(4) True by auto
    have "?L \<subseteq> {..<unat (total_frames p)} - dom (labels p)" "min (unat ?b) (unat lo) \<le> 2 ^ 52"
      using sub b52 unfolding F by auto
    then obtain m1 p1 where 1: "add_piece m p (?a, min ?b lo) = Some (m1, p1)" "free_result m p ?L m1 p1"
      using add_piece_ok[OF Cons.prems(1), of "min ?b lo" ?a] unfolding unat_min_max by blast
    have 11: "pmm_inv m1 p1" "total_frames p1 = total_frames p" "dom (labels p1) = dom (labels p) \<union> ?L"
      using 1(2) by (simp_all add: free_result_def)
    have "?R \<subseteq> {..<unat (total_frames p1)} - dom (labels p1)" using sub Cons.prems(3) unfolding F 11 by auto
    then obtain m2 p2 where 2: "add_piece m1 p1 (max ?a hi, ?b) = Some (m2, p2)" "free_result m1 p1 ?R m2 p2"
      using add_piece_ok[OF 11(1) b52, of "max ?a hi"] unfolding unat_min_max by blast
    note r2 = free_result_trans[OF 1(2) 2(2)]
    have LR: "?L \<union> ?R = entry_frames e - {unat lo..<unat hi} - {0}" using Cons.prems(3) unfolding F by auto
    have 22: "pmm_inv m2 p2" "total_frames p2 = total_frames p" "dom (labels p2) = dom (labels p) \<union> (?L \<union> ?R)"
      using r2 by (simp_all add: free_result_def)
    have "usable_frames usable es \<subseteq> {..<unat (total_frames p2)} - dom (labels p2)"
      using Cons.prems(4) e(2) unfolding 22 LR by auto
    then obtain m3 p3 where 3: "ranges_loop usable lo hi m2 p2 es = Some (m3, p3)"
        "free_result m2 p2 (usable_frames usable es - {unat lo..<unat hi} - {0}) m3 p3"
      using Cons.IH[OF 22(1) e(3) Cons.prems(3)] by blast
    have "?L \<union> ?R \<union> (usable_frames usable es - {unat lo..<unat hi} - {0}) =
        usable_frames usable (e # es) - {unat lo..<unat hi} - {0}"
      unfolding LR using True by auto
    moreover have "ranges_loop usable lo hi m p (e # es) = Some (m3, p3)"
      using True x(1) 1(1) 2(1) 3(1) by (simp add: Let_def del: FRAME_SHIFT_def)
    ultimately show ?thesis using free_result_trans[OF r2 3(2)] by metis
  qed
qed simp

section \<open>The frame table\<close>

definition order_pages :: "Entry list \<Rightarrow> nat" where
  "order_pages es = (mem_frames es + 4095) div 4096"

definition holds_table :: "u64 \<Rightarrow> Entry list \<Rightarrow> Entry \<Rightarrow> bool" where
  "holds_table usable es e \<longleftrightarrow> entry_type e = usable \<and> order_pages es * 4096 \<le> unat (entry_length e)"

text \<open>The frames of the frame table: the first ones of the first usable entry that is large enough.\<close>

definition table_region :: "u64 \<Rightarrow> Entry list \<Rightarrow> nat set option" where
  "table_region usable es = map_option
     (\<lambda>e. {unat (entry_base e) div 4096..<unat (entry_base e) div 4096 + order_pages es}) (find (holds_table usable es) es)"

lemma order_search_find:
  "order_search usable ob es =
     (case find (\<lambda>e. entry_type e = usable \<and> ob \<le> entry_length e) es of None \<Rightarrow> - 1 | Some e \<Rightarrow> entry_base e)"
  by (induction es) simp_all

lemma entry_end_frames:
  assumes "e \<in> set es"
  shows "entry_end e \<le> mem_frames es * 4096"
proof -
  have "entry_end e \<le> Max (insert 0 (entry_end ` set es))" using assms by (intro Max_ge) auto
  then show ?thesis unfolding mem_frames_def by linarith
qed

lemma usable_frames_bound: "usable_frames usable es \<subseteq> {..<mem_frames es}"
proof
  fix f assume "f \<in> usable_frames usable es"
  then obtain e where e: "e \<in> set es" "f < entry_end e div 4096" by (auto simp: usable_frames_def entry_frames_def)
  then show "f \<in> {..<mem_frames es}" using entry_end_frames[OF e(1)] by simp
qed

lemma sizes_ok:
  assumes m: "memmap_ok usable es" and n: "mem_frames es \<le> 2 ^ 40"
  obtains highest top order_bytes where "highest_loop es 0 = Some highest" "align_up highest FRAME_SIZE = Some top"
    "unat (drop_bit FRAME_SHIFT top) = mem_frames es" "align_up (drop_bit FRAME_SHIFT top) FRAME_SIZE = Some order_bytes"
    "unat order_bytes = order_pages es * 4096"
proof -
  obtain h where h: "highest_loop es 0 = Some h" "unat h = Max (insert 0 (entry_end ` set es))"
    using highest_loop_ok[of es 0] m by (auto simp: memmap_ok_def)
  have "unat h + 4095 < 4096 + mem_frames es * 4096"
    unfolding mem_frames_def h(2) by (rule dividend_less_div_times) simp
  then have hb: "unat h + 2 ^ 12 < 2 ^ 64" using n by simp
  obtain t where t: "align_up h (2 ^ 12) = Some t" "unat t = mem_frames es * 4096"
    using align_up_eq(1)[OF _ hb] h(2) by (auto simp: mem_frames_def)
  have tf: "unat (drop_bit 12 t) = mem_frames es" by (simp add: unat_drop_bit64 t(2))
  then have "unat (drop_bit 12 t) + 2 ^ 12 < 2 ^ 64" using n by simp
  from align_up_eq(1)[OF _ this] obtain ob where "align_up (drop_bit 12 t) (2 ^ 12) = Some ob" "unat ob = order_pages es * 4096"
    by (auto simp: tf order_pages_def)
  then show thesis using h(1) t(1) tf by (intro that[of h t ob]) simp_all
qed

text \<open>
  The state the boot loader leaves.  Its page tables are in memory that is not marked usable,
  the direct map covers all of physical memory, and the kernel has not run its initialisation yet.
\<close>

definition loader_state :: "u64 \<Rightarrow> Entry list \<Rightarrow> u64 \<Rightarrow> 'a hkernel_scheme \<Rightarrow> bool" where
  "loader_state usable es hhdm s \<longleftrightarrow> memmap_ok usable es \<and> mem_frames es \<le> 2 ^ 40 \<and>
     fits hhdm (mem_frames es) \<and> 4096 dvd unat hhdm \<and>
     tframes (kmem s) hhdm 3 (CR3 s AND ENTRY_ADDR_MASK) \<subseteq> {..<mem_frames es} - usable_frames usable es \<and>
     PMM s = None \<and> VMM s = None \<and> ALLOCATOR s = Heap_new"

text \<open>The physical allocator after the loop over the memory map.\<close>

lemma pmm_ready:
  assumes L: "loader_state usable es hhdm s" and R: "table_region usable es = Some T"
  obtains m p where "mm_init X usable (Some es) (Some hhdm) s = do {
      (r, s) \<leftarrow> take_ownership X hhdm (s\<lparr>kmem := m, PMM := Some p\<rparr>);
      (case r of Inl e \<Rightarrow> Some (Inl (VmmError e), s)
       | Inr root \<Rightarrow> do {
           s \<leftarrow> vmm_install (Vmm_new root) (s\<lparr>HHDM_OFFSET := hhdm\<rparr>); heap_init s; Some (Inr (), s) }) }"
    "pmm_inv m p" "dom (labels p) = usable_frames usable es - T - {0}" "unat (total_frames p) = mem_frames es"
    "hhdm_offset p = hhdm" "agree_off (frame_words hhdm (usable_frames usable es - T - {0})) (kmem s) m"
proof -
  have l: "memmap_ok usable es" "mem_frames es \<le> 2 ^ 40" "fits hhdm (mem_frames es)" "PMM s = None"
    using L by (auto simp: loader_state_def)
  obtain highest top ob where z: "highest_loop es 0 = Some highest" "align_up highest FRAME_SIZE = Some top"
    "unat (drop_bit FRAME_SHIFT top) = mem_frames es" "align_up (drop_bit FRAME_SHIFT top) FRAME_SIZE = Some ob"
    "unat ob = order_pages es * 4096"
    by (rule sizes_ok[OF l(1,2)])
  obtain e where e: "find (holds_table usable es) es = Some e"
      "T = {unat (entry_base e) div 4096..<unat (entry_base e) div 4096 + order_pages es}"
    using R by (auto simp: table_region_def)
  have es: "e \<in> set es" "holds_table usable es e" using e(1) by (auto simp: find_Some_iff)
  have "holds_table usable es = (\<lambda>e. entry_type e = usable \<and> ob \<le> entry_length e)"
    by (auto simp: fun_eq_iff holds_table_def unat_le_iff z(5))
  then have os: "order_search usable ob es = entry_base e" using e(1) by (simp add: order_search_find)
  have al: "4096 dvd unat (entry_base e)" using l(1) es by (auto simp: memmap_ok_def holds_table_def)
  moreover have "\<not> 4096 dvd unat (- 1 :: u64)" by (simp add: unsigned_minus_1_eq_mask mask_eq_exp_minus_1)
  ultimately have nm: "entry_base e \<noteq> - 1" by metis
  have b: "unat (entry_base e) + order_pages es * 4096 \<le> mem_frames es * 4096"
    using entry_end_frames[OF es(1)] es(2) by (simp add: holds_table_def entry_end_def)
  have pos: "unat hhdm + mem_frames es * 4096 \<le> 2 ^ 64" "hhdm \<noteq> 0" using l(3) by (simp_all add: fits_def)
  have ptr: "unat (entry_base e) + unat hhdm < 2 ^ 64"
  proof (cases "mem_frames es = 0")
    case False
    then have "0 < order_pages es" by (simp add: order_pages_def)
    then show ?thesis using b pos by linarith
  qed (use b in \<open>simp add: order_pages_def\<close>)
  let ?n = "drop_bit FRAME_SHIFT top" and ?ptr = "entry_base e + hhdm"
  obtain p0 where p0: "Pmm_new (raw_slice (kmem s) ?ptr (unat ?n)) ?n hhdm = Some p0" "pmm_inv (kmem s) p0"
      "labels p0 = Map.empty" "total_frames p0 = ?n" "hhdm_offset p0 = hhdm"
    by (rule Pmm_new_inv[of hhdm ?n "raw_slice (kmem s) ?ptr (unat ?n)" "kmem s"]) (use l(3) z(3) in \<open>simp_all add: raw_slice_def\<close>)
  let ?lo = "drop_bit FRAME_SHIFT (entry_base e)" and ?k = "drop_bit FRAME_SHIFT ob"
  have lo: "unat ?lo = unat (entry_base e) div 4096" "unat ?k = order_pages es" by (simp_all add: unat_drop_bit64 z(5))
  have "order_pages es \<le> 2 ^ 40" using l(2) by (simp add: order_pages_def)
  then have hi: "add64 ?lo ?k = Some (?lo + ?k)" "unat (?lo + ?k) = unat ?lo + order_pages es"
  proof -
    have "unat (entry_base e) div 4096 < 2 ^ 52" using unat_lt64[of "entry_base e"] by (simp add: div_less_iff_less_mult)
    then have "unat ?lo + unat ?k < 2 ^ 64" using \<open>order_pages es \<le> 2 ^ 40\<close> unfolding lo by simp
    then show "add64 ?lo ?k = Some (?lo + ?k)" "unat (?lo + ?k) = unat ?lo + order_pages es"
      using unat_add_lt[of ?lo ?k] lo(2) by simp_all
  qed
  have T: "T = {unat ?lo..<unat (?lo + ?k)}" unfolding e(2) hi(2) lo ..
  obtain m p where r: "ranges_loop usable ?lo (?lo + ?k) (kmem s) p0 es = Some (m, p)"
      "free_result (kmem s) p0 (usable_frames usable es - T - {0}) m p"
    using ranges_loop_ok[OF p0(2) l(1), of ?lo "?lo + ?k"] usable_frames_bound[of usable es] hi(2) z(3) p0(3,4)
    unfolding T by auto
  have fr: "pmm_inv m p" "dom (labels p) = usable_frames usable es - T - {0}" "total_frames p = ?n" "hhdm_offset p = hhdm"
      "agree_off (link_words hhdm (usable_frames usable es - T - {0})) (kmem s) m"
    using r(2) p0 by (auto simp: free_result_def)
  have "card (dom (labels p)) \<le> mem_frames es"
    using card_mono[OF _ subset_trans[OF Diff_subset subset_trans[OF Diff_subset usable_frames_bound]]] unfolding fr(2) by fastforce
  then have "unat (free_frames p) * 4096 < 2 ^ 64" using fr(1) l(2) by (simp add: pmm_inv_def)
  then have mul: "mul64 (free_frames_count p) FRAME_SIZE = Some (free_frames_count p * FRAME_SIZE)"
    by (simp add: mul64_alt free_frames_count_def)
  have "mm_init X usable (Some es) (Some hhdm) s = do {
      (r, s) \<leftarrow> take_ownership X hhdm (s\<lparr>kmem := m, PMM := Some p\<rparr>);
      (case r of Inl e \<Rightarrow> Some (Inl (VmmError e), s)
       | Inr root \<Rightarrow> do {
           s \<leftarrow> vmm_install (Vmm_new root) (s\<lparr>HHDM_OFFSET := hhdm\<rparr>); heap_init s; Some (Inr (), s) }) }"
    using z os nm ptr p0(1) hi(1) r(1) mul l(4) unfolding mm_init_def pmm_install_def
    by (simp add: Let_def del: FRAME_SHIFT_def FRAME_SIZE_def)
  then show thesis using fr z(3) agree_off_mono[OF fr(5) link_words_frame_words] by (intro that) simp_all
qed

section \<open>Initialisation\<close>

lemma mm_init_no_region:
  assumes L: "loader_state usable es hhdm s" and N: "table_region usable es = None"
  shows "mm_init X usable (Some es) (Some hhdm) s = None"
proof -
  have l: "memmap_ok usable es" "mem_frames es \<le> 2 ^ 40" using L by (auto simp: loader_state_def)
  obtain highest top ob where z: "highest_loop es 0 = Some highest" "align_up highest FRAME_SIZE = Some top"
    "unat (drop_bit FRAME_SHIFT top) = mem_frames es" "align_up (drop_bit FRAME_SHIFT top) FRAME_SIZE = Some ob"
    "unat ob = order_pages es * 4096"
    by (rule sizes_ok[OF l])
  have "holds_table usable es = (\<lambda>e. entry_type e = usable \<and> ob \<le> entry_length e)"
    by (auto simp: fun_eq_iff holds_table_def unat_le_iff z(5))
  then have "order_search usable ob es = - 1" using N by (simp add: order_search_find table_region_def)
  then show ?thesis using z by (simp add: mm_init_def Let_def del: FRAME_SHIFT_def FRAME_SIZE_def)
qed

text \<open>
  C21. \<open>mm::init\<close> on the state the boot loader leaves.  It panics when no usable entry holds the frame
  table.  Otherwise it returns; the frames it manages are the usable ones without the frame table and
  frame 0, and no other memory is written (the frame table apart).  It fails only when there are fewer of them than boot tables to
  copy, and then all of them are free and CR3 is unchanged.  On success the kernel's own tables are installed and loaded, translate every
  address as the boot tables did, take their frames from the free ones, and the invariants of the page tables and of the
  empty heap hold.
\<close>

theorem mm_init_correct:
  fixes s :: "'a hkernel_scheme"
  assumes x: "x86_ok X" and L: "loader_state usable es hhdm s"
  shows "case table_region usable es of
      None \<Rightarrow> mm_init X usable (Some es) (Some hhdm) s = None
    | Some T \<Rightarrow> \<exists>r s'. mm_init X usable (Some es) (Some hhdm) s = Some (r, s') \<and> pmm_ok s' \<and>
        pmm_total s' = mem_frames es \<and>
        agree_off (frame_words hhdm (usable_frames usable es - T - {0})) (kmem s) (kmem s') \<and>
        (case r of
           Inl e \<Rightarrow> e = VmmError OutOfFrames \<and> pmm_avail s' = usable_frames usable es - T - {0} \<and> CR3 s' = CR3 s \<and>
             card (usable_frames usable es - T - {0}) < tcount (kmem s) hhdm 3 (CR3 s AND ENTRY_ADDR_MASK)
         | Inr u \<Rightarrow> (\<exists>v. VMM s' = Some v \<and> CR3 s' AND ENTRY_ADDR_MASK = top_level v \<and> vm_inv v s' \<and>
             vm_tables v s' \<union> pmm_avail s' = usable_frames usable es - T - {0} \<and>
             (\<forall>a. vm_walk v s' a = lookup (kmem s) hhdm 3 (CR3 s AND ENTRY_ADDR_MASK) a)) \<and> heap_ok s' {})"
proof (cases "table_region usable es")
  case None
  then show ?thesis using mm_init_no_region[OF L] by simp
next
  case (Some T)
  let ?F = "usable_frames usable es - T - {0}" and ?src = "CR3 s AND ENTRY_ADDR_MASK"
  obtain m p where i: "mm_init X usable (Some es) (Some hhdm) s = do {
      (r, s) \<leftarrow> take_ownership X hhdm (s\<lparr>kmem := m, PMM := Some p\<rparr>);
      (case r of Inl e \<Rightarrow> Some (Inl (VmmError e), s)
       | Inr root \<Rightarrow> do {
           s \<leftarrow> vmm_install (Vmm_new root) (s\<lparr>HHDM_OFFSET := hhdm\<rparr>); heap_init s; Some (Inr (), s) }) }"
    and p: "pmm_inv m p" "dom (labels p) = ?F" "unat (total_frames p) = mem_frames es"
    "hhdm_offset p = hhdm" "agree_off (frame_words hhdm ?F) (kmem s) m"
    by (rule pmm_ready[OF L Some])
  have l: "mem_frames es \<le> 2 ^ 40" "fits hhdm (mem_frames es)" "4096 dvd unat hhdm" "VMM s = None" "ALLOCATOR s = Heap_new"
      "tframes (kmem s) hhdm 3 ?src \<subseteq> {..<mem_frames es} - usable_frames usable es"
    using L by (auto simp: loader_state_def)
  define s1 where "s1 = s\<lparr>kmem := m, PMM := Some p\<rparr>"
  have v: "pmm_ok s1" "pmm_avail s1 = ?F" "pmm_total s1 = mem_frames es" "pmm_hhdm s1 = hhdm" "kmem s1 = m" "CR3 s1 = CR3 s"
    "VMM s1 = None" "ALLOCATOR s1 = Heap_new"
    using p l(4,5) by (simp_all add: s1_def pmm_view_defs)
  have "frame_words hhdm (tframes (kmem s) hhdm 3 ?src) \<inter> frame_words hhdm ?F = {}"
    by (rule frame_words_disjoint[OF l(2)]) (use l(6) usable_frames_bound[of usable es] in blast)+
  then have "\<forall>a\<in>frame_words hhdm (tframes (kmem s) hhdm 3 ?src). m a = kmem s a" using p(5) unfolding agree_off_def by blast
  moreover have "aligned ?src" using entry_addr_aligned[of "CR3 s"] by (simp add: entry_addr_def clone_entry_simps)
  ultimately have w: "tframes m hhdm 3 ?src = tframes (kmem s) hhdm 3 ?src" "tcount m hhdm 3 ?src = tcount (kmem s) hhdm 3 ?src"
    "\<And>a. lookup m hhdm 3 ?src a = lookup (kmem s) hhdm 3 ?src a" and a: "aligned ?src"
    using walk_local by blast+
  have rd: "readable s1 3 (CR3 s1 AND ENTRY_ADDR_MASK)"
    using v w(1) a l(1,6) by (auto simp: readable_def)
  obtain r s2 where t: "take_ownership X hhdm s1 = Some (r, s2)" "pmm_ok s2" "pmm_total s2 = mem_frames es"
      "pmm_hhdm s2 = hhdm" "VMM s2 = None" "vkernel.more s2 = vkernel.more s1"
      "agree_off (frame_words hhdm ?F) m (kmem s2)"
    and r: "case r of
       Inl e \<Rightarrow> e = OutOfFrames \<and> card ?F < tcount (kmem s) hhdm 3 ?src \<and> pmm_avail s2 = ?F \<and> CR3 s2 = CR3 s
     | Inr q \<Rightarrow> tcount (kmem s) hhdm 3 ?src \<le> card ?F \<and> CR3 s2 AND ENTRY_ADDR_MASK = q \<and>
         CR3 s2 AND NOT ENTRY_ADDR_MASK = CR3 s AND NOT ENTRY_ADDR_MASK \<and>
         vm_inv (Vmm_new q) (s2\<lparr>HHDM_OFFSET := hhdm\<rparr>) \<and> vm_tables (Vmm_new q) (s2\<lparr>HHDM_OFFSET := hhdm\<rparr>) \<union> pmm_avail s2 = ?F \<and>
         (\<forall>a. vm_walk (Vmm_new q) (s2\<lparr>HHDM_OFFSET := hhdm\<rparr>) a = lookup (kmem s) hhdm 3 ?src a)"
    using take_ownership_ok[OF x rd] unfolding v w by (elim exE conjE) (rule that; assumption)
  have ag: "agree_off (frame_words hhdm ?F) (kmem s) (kmem s2)" using p(5) t(7) by (simp add: agree_off_def)
  have al: "ALLOCATOR s2 = Heap_new" using t(6) v(8) by (cases s2; cases s1; simp)
  have eq: "mm_init X usable (Some es) (Some hhdm) s = (case r of Inl e \<Rightarrow> Some (Inl (VmmError e), s2)
       | Inr root \<Rightarrow> do {
           s \<leftarrow> vmm_install (Vmm_new root) (s2\<lparr>HHDM_OFFSET := hhdm\<rparr>); heap_init s; Some (Inr (), s) })"
    unfolding i s1_def[symmetric] by (simp add: t(1))
  show ?thesis
  proof (cases r)
    case (Inl e)
    then show ?thesis using r t ag unfolding Some option.case eq by simp
  next
    case (Inr q)
    define s3 where "s3 = s2\<lparr>HHDM_OFFSET := hhdm, VMM := Some (Vmm_new q)\<rparr>"
    have "mm_init X usable (Some es) (Some hhdm) s = Some (Inr (), s3)"
      using t(5) l(2) unfolding eq Inr by (simp add: vmm_install_def heap_init_def s3_def fits_def)
    moreover have "pmm_ok s3" "pmm_total s3 = mem_frames es" "pmm_hhdm s3 = hhdm" "pmm_avail s3 = pmm_avail s2" "kmem s3 = kmem s2"
      "VMM s3 = Some (Vmm_new q)" "CR3 s3 = CR3 s2" "HHDM_OFFSET s3 = hhdm" "ALLOCATOR s3 = Heap_new"
      using t al by (simp_all add: s3_def pmm_view_defs)
    moreover have "vm_inv (Vmm_new q) s3" "vm_tables (Vmm_new q) s3 \<union> pmm_avail s3 = ?F"
      "\<forall>a. vm_walk (Vmm_new q) s3 a = lookup (kmem s) hhdm 3 ?src a" "CR3 s3 AND ENTRY_ADDR_MASK = top_level (Vmm_new q)"
      using r unfolding Inr by (simp_all add: vm_inv_def vm_tables_def vm_walk_def s3_def pmm_view_defs Vmm_new_def)
    moreover have "heap_ok s3 {}" using calculation l(3) by (intro fresh_heap_ok) simp_all
    ultimately show ?thesis using ag unfolding Some option.case by (intro exI[of _ "Inr ()"] exI[of _ s3]) auto
  qed
qed

text \<open>A machine with eight usable frames and a ninth that holds the boot loader's empty root table.\<close>

definition small_map :: "Entry list" where
  "small_map = [\<lparr>entry_base = 0, entry_length = 0x8000, entry_type = 0\<rparr>,
     \<lparr>entry_base = 0x8000, entry_length = 0x1000, entry_type = 5\<rparr>]"

definition loaded :: hkernel where
  "loaded = \<lparr>kmem = (\<lambda>_. 0), PMM = None, HHDM_OFFSET = 0, VMM = None, CR3 = 0x8000, tlb = [], ALLOCATOR = Heap_new\<rparr>"

lemma small_map_facts:
  "mem_frames small_map = 9" "usable_frames 0 small_map = {0..<8}" "table_region 0 small_map = Some {0}"
  "memmap_ok 0 small_map" "CR3 loaded AND ENTRY_ADDR_MASK = 0x8000"
proof -
  have e: "entry_end \<lparr>entry_base = 0, entry_length = 0x8000, entry_type = 0\<rparr> = 0x8000"
    "entry_end \<lparr>entry_base = 0x8000, entry_length = 0x1000, entry_type = 5\<rparr> = 0x9000"
    by (simp_all add: entry_end_def)
  show n: "mem_frames small_map = 9" by (simp add: mem_frames_def small_map_def e)
  show "usable_frames 0 small_map = {0..<8}" by (simp add: small_map_def entry_frames_def e)
  have "order_pages small_map = 1" by (simp add: order_pages_def n)
  then show "table_region 0 small_map = Some {0}"
    by (simp add: table_region_def small_map_def holds_table_def lessThan_Suc)
  show "memmap_ok 0 small_map" by (simp add: memmap_ok_def small_map_def e)
  show "CR3 loaded AND ENTRY_ADDR_MASK = 0x8000" by (simp add: loaded_def ENTRY_ADDR_MASK_def)
qed

theorem mm_init_witness:
  "\<exists>s' v. mm_init amd64 0 (Some small_map) (Some 0xffff800000000000) loaded = Some (Inr (), s') \<and> VMM s' = Some v \<and>
     vm_tables v s' \<union> pmm_avail s' = {1..<8} \<and> heap_ok s' {}"
proof -
  let ?h = "0xffff800000000000 :: u64"
  have np: "\<forall>i<512. \<not> present (kmem loaded (slot_of ?h 0x8000 i))" by (simp add: loaded_def)
  have tf: "tframes (kmem loaded) ?h 3 0x8000 = {8}" using zero_table(4)[OF np] by (simp add: frame_of_def)
  have "scount (kmem loaded) ?h 3 0x8000 i = 0" for i by (simp add: scount_def child_def loaded_def Let_def)
  then have tc: "tcount (kmem loaded) ?h 3 0x8000 = 1" unfolding tcount_eq by simp
  have "loader_state 0 small_map ?h loaded"
    using tf small_map_facts by (simp add: loader_state_def fits_def) (simp add: loaded_def)
  from mm_init_correct[OF amd64_ok this] obtain r s' where
    s: "mm_init amd64 0 (Some small_map) (Some ?h) loaded = Some (r, s')" and
    r: "case r of Inl e \<Rightarrow> card ({0..<8} - {0} - {0::nat}) < (1::nat)
      | Inr u \<Rightarrow> (\<exists>v. VMM s' = Some v \<and> vm_tables v s' \<union> pmm_avail s' = {0..<8} - {0} - {0}) \<and> heap_ok s' {}"
    unfolding small_map_facts option.case tc by (elim exE conjE) (rule that, assumption, auto split: sum.splits)
  have set: "{0..<8} - {0} - {0} = {1..<8::nat}" by auto
  obtain u where "r = Inr u" using r unfolding set by (cases r) auto
  then show ?thesis using s r unfolding set by auto
qed

end
