(* ===== verification/Lock_Protocol.thy ===== *)
theory Lock_Protocol
  imports Utils
begin

text \<open>
  The lock operations of kernel/src/utils.rs as they interleave.  An \<open>IntLock\<close> is used by any
  number of processors, each with a stack of contexts: the code it runs and the interrupt
  handlers that interrupted it.  Every atomic access of \<open>try_lock\<close> and \<open>unlock\<close> is a step of its
  own, and an interrupt may arrive between any two steps while the processor accepts it.
  A \<open>SpinLock\<close> is used by any set of contexts under any schedule.
\<close>

section \<open>The abstract lock and what refines it\<close>

inductive lock_spec :: "'c option \<Rightarrow> 'c option \<Rightarrow> bool" where
  acquire: "lock_spec None (Some c)"
| release: "lock_spec (Some c) None"
| stutter: "lock_spec a a"

locale lock_refinement =
  fixes step :: "'s \<Rightarrow> 's \<Rightarrow> bool" and start :: 's and owns :: "'s \<Rightarrow> 'c \<Rightarrow> bool" and taken :: "'s \<Rightarrow> bool"
  assumes start_free: "\<not> owns start c" "\<not> taken start"
    and step_kinds: "step s t \<Longrightarrow>
      \<not> taken s \<and> taken t \<and> (\<exists>c. owns t = (owns s)(c := True)) \<or>
      \<not> taken t \<and> (\<exists>c. owns s c \<and> owns t = (owns s)(c := False)) \<or>
      taken t = taken s \<and> owns t = owns s"
begin

definition matches :: "'c option \<Rightarrow> 's \<Rightarrow> bool" where
  "matches a s \<longleftrightarrow> (taken s \<longleftrightarrow> a \<noteq> None) \<and> (\<forall>c. owns s c \<longleftrightarrow> a = Some c)"

lemma simulation_step:
  assumes "matches a s" "step s t"
  shows "\<exists>b. lock_spec a b \<and> matches b t"
  using step_kinds[OF assms(2)]
proof (elim disjE exE conjE)
  fix c assume k: "\<not> taken s" "taken t" "owns t = (owns s)(c := True)"
  then have a: "a = None" using assms(1) by (simp add: matches_def)
  then have "matches (Some c) t" using assms(1) k by (auto simp: matches_def)
  then show ?thesis unfolding a by (intro exI[of _ "Some c"] conjI lock_spec.acquire)
next
  fix c assume k: "\<not> taken t" "owns s c" "owns t = (owns s)(c := False)"
  then have a: "a = Some c" using assms(1) by (simp add: matches_def)
  then have "matches None t" using assms(1) k by (simp add: matches_def)
  then show ?thesis unfolding a by (intro exI[of _ None] conjI lock_spec.release)
next
  assume "taken t = taken s" "owns t = owns s"
  then have "matches a t" using assms(1) by (simp add: matches_def)
  then show ?thesis by (intro exI[of _ a] conjI lock_spec.stutter)
qed

lemma simulation: "step\<^sup>*\<^sup>* start s \<Longrightarrow> \<exists>a. lock_spec\<^sup>*\<^sup>* None a \<and> matches a s"
proof (induction rule: rtranclp_induct)
  case base
  have "matches None start" using start_free by (simp add: matches_def)
  then show ?case by blast
next
  case (step s t)
  then show ?case using simulation_step by (meson rtranclp.rtrancl_into_rtrancl)
qed

lemma refines:
  assumes "step\<^sup>*\<^sup>* start s"
  shows "\<exists>a. lock_spec\<^sup>*\<^sup>* None a \<and> matches a s \<and> (\<forall>t. step s t \<longrightarrow> (\<exists>b. lock_spec a b \<and> matches b t))"
proof -
  obtain a where "lock_spec\<^sup>*\<^sup>* None a" "matches a s" using simulation[OF assms] by blast
  then show ?thesis using simulation_step by (intro exI[of _ a]) simp
qed

lemma exclusive:
  assumes "step\<^sup>*\<^sup>* start s"
  shows "owns s c \<Longrightarrow> owns s d \<Longrightarrow> c = d" "taken s \<longleftrightarrow> (\<exists>c. owns s c)"
  using simulation[OF assms] by (auto simp: matches_def)

end

section \<open>IntLock\<close>

text \<open>The three atomic parts of \<open>try_lock\<close> and the two of \<open>unlock\<close>.\<close>

definition int_cas :: "IntLock \<Rightarrow> bool \<times> IntLock" where
  "int_cas l = (if locked l then (False, l) else (True, l\<lparr>locked := True\<rparr>))"

definition int_save :: "irq \<Rightarrow> bool \<Rightarrow> IntLock \<Rightarrow> IntLock" where
  "int_save Q f l = l\<lparr>saved_if := contains (rflags_read Q f) (FLAGS_IF Q)\<rparr>"

definition int_store :: "IntLock \<Rightarrow> IntLock" where
  "int_store l = l\<lparr>locked := False\<rparr>"

definition int_restore :: "irq \<Rightarrow> bool \<Rightarrow> bool \<Rightarrow> bool" where
  "int_restore Q b f = (if b then irq_enable Q f else f)"

text \<open>
  Where a context is: outside, about to attempt the exchange in \<open>lock\<close> or in a bare \<open>try_lock\<close>, having won it, having saved the flag, inside (interrupts off),
  having read \<open>saved_if\<close>, and having freed the lock.
\<close>

datatype pc = Idle | Try | TryOnce | Won | Saved | Held | Leave bool | Restore bool

text \<open>
  Context \<open>(c, d)\<close> is the one at depth \<open>d\<close> of processor \<open>c\<close>; \<open>depth c\<close> is the one that runs.
  \<open>entry\<close> remembers the interrupt flag with which a context entered \<open>lock\<close> or \<open>try_lock\<close>.
\<close>

record sys =
  lk :: IntLock
  flag :: "nat \<Rightarrow> bool"
  depth :: "nat \<Rightarrow> nat"
  pcs :: "nat \<times> nat \<Rightarrow> pc"
  entry :: "nat \<times> nat \<Rightarrow> bool"

definition running :: "sys \<Rightarrow> nat \<Rightarrow> nat \<times> nat" where
  "running s c = (c, depth s c)"

definition goto :: "nat \<Rightarrow> pc \<Rightarrow> sys \<Rightarrow> sys" where
  "goto c p s = s\<lparr>pcs := (pcs s)(running s c := p)\<rparr>"

definition set_flag :: "nat \<Rightarrow> bool \<Rightarrow> sys \<Rightarrow> sys" where
  "set_flag c b s = s\<lparr>flag := (flag s)(c := b)\<rparr>"

text \<open>
  \<open>lost\<close> is an exchange that fails inside \<open>lock\<close>, which tries again; \<open>refused\<close> one inside a bare
  \<open>try_lock\<close>, which returns false.  An interrupt is taken when the flag is set; the gates of the descriptor table are interrupt
  gates, so the processor clears the flag, and the return from the handler sets it again.  Code outside
  the lock may set and clear the flag.
\<close>

inductive int_step :: "irq \<Rightarrow> sys \<Rightarrow> sys \<Rightarrow> bool" for Q where
  enter: "pcs s (running s c) = Idle \<Longrightarrow> p \<in> {Try, TryOnce} \<Longrightarrow>
    int_step Q s (goto c p (s\<lparr>entry := (entry s)(running s c := flag s c)\<rparr>))"
| won: "pcs s (running s c) \<in> {Try, TryOnce} \<Longrightarrow> int_cas (lk s) = (True, l) \<Longrightarrow> int_step Q s (goto c Won (s\<lparr>lk := l\<rparr>))"
| lost: "pcs s (running s c) = Try \<Longrightarrow> int_cas (lk s) = (False, l) \<Longrightarrow> int_step Q s (s\<lparr>lk := l\<rparr>)"
| refused: "pcs s (running s c) = TryOnce \<Longrightarrow> int_cas (lk s) = (False, l) \<Longrightarrow> int_step Q s (goto c Idle (s\<lparr>lk := l\<rparr>))"
| save: "pcs s (running s c) = Won \<Longrightarrow> int_step Q s (goto c Saved (s\<lparr>lk := int_save Q (flag s c) (lk s)\<rparr>))"
| disable: "pcs s (running s c) = Saved \<Longrightarrow> int_step Q s (goto c Held (set_flag c (irq_disable Q (flag s c)) s))"
| leave: "pcs s (running s c) = Held \<Longrightarrow> int_step Q s (goto c (Leave (saved_if (lk s))) s)"
| free: "pcs s (running s c) = Leave b \<Longrightarrow> int_step Q s (goto c (Restore b) (s\<lparr>lk := int_store (lk s)\<rparr>))"
| restore: "pcs s (running s c) = Restore b \<Longrightarrow>
    int_step Q s (goto c Idle (set_flag c (int_restore Q b (flag s c)) s))"
| interrupt: "flag s c \<Longrightarrow> int_step Q s (set_flag c False (s\<lparr>depth := (depth s)(c := depth s c + 1)\<rparr>))"
| iret: "depth s c > 0 \<Longrightarrow> pcs s (running s c) = Idle \<Longrightarrow>
    int_step Q s (set_flag c True (s\<lparr>depth := (depth s)(c := depth s c - 1)\<rparr>))"
| mask: "pcs s (running s c) = Idle \<Longrightarrow> int_step Q s (set_flag c b s)"

definition int_start :: "(nat \<Rightarrow> bool) \<Rightarrow> sys" where
  "int_start f = \<lparr>lk = IntLock_INIT, flag = f, depth = (\<lambda>_. 0), pcs = (\<lambda>_. Idle), entry = (\<lambda>_. False)\<rparr>"

fun int_owner :: "pc \<Rightarrow> bool" where
  "int_owner Won \<longleftrightarrow> True" | "int_owner Saved \<longleftrightarrow> True" | "int_owner Held \<longleftrightarrow> True" | "int_owner (Leave b) \<longleftrightarrow> True"
| "int_owner p \<longleftrightarrow> False"

definition int_owns :: "sys \<Rightarrow> nat \<times> nat \<Rightarrow> bool" where
  "int_owns s x \<longleftrightarrow> int_owner (pcs s x)"

text \<open>The operations of the lock are the atomic parts in sequence.\<close>

lemma try_lock_parts:
  "IntLock_try_lock Q (l, f) =
     (case int_cas l of (False, l) \<Rightarrow> (False, l, f) | (True, l) \<Rightarrow> (True, int_save Q f l, irq_disable Q f))"
  "IntLock_unlock Q (l, f) = (int_store l, int_restore Q (saved_if l) f)"
  by (simp_all add: IntLock_try_lock_def IntLock_unlock_def int_cas_def int_save_def int_store_def int_restore_def)

lemmas step_simps = goto_def set_flag_def running_def int_cas_def int_save_def int_store_def

lemma owns_simps [simp]:
  "int_owns (goto c p s) = (int_owns s)(running s c := int_owner p)"
  "int_owns (set_flag c b s) = int_owns s" "int_owns (s\<lparr>lk := l\<rparr>) = int_owns s"
  "int_owns (s\<lparr>depth := d\<rparr>) = int_owns s" "int_owns (s\<lparr>entry := e\<rparr>) = int_owns s"
  "lk (goto c p s) = lk s" "lk (set_flag c b s) = lk s"
  "running (set_flag c b s) c' = running s c'" "running (s\<lparr>lk := l\<rparr>) c' = running s c'"
  "running (s\<lparr>entry := e\<rparr>) c' = running s c'"
  by (simp_all add: fun_eq_iff int_owns_def goto_def set_flag_def running_def)

lemma owns_same: "int_owner (pcs s x) \<longleftrightarrow> b \<Longrightarrow> (int_owns s)(x := b) = int_owns s"
  by (simp add: fun_eq_iff int_owns_def)

lemma int_step_kinds:
  assumes "int_step Q s t"
  shows "\<not> locked (lk s) \<and> locked (lk t) \<and> (\<exists>x. int_owns t = (int_owns s)(x := True)) \<or>
    \<not> locked (lk t) \<and> (\<exists>x. int_owns s x \<and> int_owns t = (int_owns s)(x := False)) \<or>
    locked (lk t) = locked (lk s) \<and> int_owns t = int_owns s"
  using assms
proof cases
  case (won c l)
  then have "\<not> locked (lk s)" "locked (lk t)" "int_owns t = (int_owns s)(running s c := True)"
    by (auto simp: int_cas_def split: if_splits)
  then show ?thesis by blast
next
  case (free c b)
  then have "\<not> locked (lk t)" "int_owns s (running s c)" "int_owns t = (int_owns s)(running s c := False)"
    by (simp_all add: int_owns_def int_store_def)
  then show ?thesis by blast
next
  case (enter c p)
  then have "int_owns t = int_owns s" by (auto simp: owns_same)
  then show ?thesis using enter(1) by simp
qed (simp_all add: owns_same int_cas_def int_save_def split: if_splits)

interpretation int_lock: lock_refinement "int_step Q" "int_start f" int_owns "\<lambda>s. locked (lk s)" for Q f
proof (unfold_locales, goal_cases)
  case (3 s t)
  then show ?case by (rule int_step_kinds)
qed (simp_all add: int_start_def int_owns_def IntLock_INIT_def)

section \<open>SpinLock\<close>

text \<open>
  A context is outside, before the exchange of \<open>lock\<close>, in its inner loop, before the exchange of
  \<open>try_lock\<close>, or inside.  \<open>compare_exchange_weak\<close> may fail on a free lock.
\<close>

datatype spin_pc = Outside | Exchange | Wait | Attempt | Inside

record 'c spin_sys =
  busy :: bool
  spin_pcs :: "'c \<Rightarrow> spin_pc"

definition spin_goto :: "'c \<Rightarrow> spin_pc \<Rightarrow> 'c spin_sys \<Rightarrow> 'c spin_sys" where
  "spin_goto x p s = s\<lparr>spin_pcs := (spin_pcs s)(x := p)\<rparr>"

inductive spin_step :: "'c spin_sys \<Rightarrow> 'c spin_sys \<Rightarrow> bool" where
  spin_enter: "spin_pcs s x = Outside \<Longrightarrow> p \<in> {Exchange, Attempt} \<Longrightarrow> spin_step s (spin_goto x p s)"
| weak_won: "spin_pcs s x = Exchange \<Longrightarrow> \<not> busy s \<Longrightarrow> spin_step s (spin_goto x Inside (s\<lparr>busy := True\<rparr>))"
| weak_lost: "spin_pcs s x = Exchange \<Longrightarrow> spin_step s (spin_goto x Wait s)"
| load_busy: "spin_pcs s x = Wait \<Longrightarrow> busy s \<Longrightarrow> spin_step s s"
| load_free: "spin_pcs s x = Wait \<Longrightarrow> \<not> busy s \<Longrightarrow> spin_step s (spin_goto x Exchange s)"
| attempt: "spin_pcs s x = Attempt \<Longrightarrow> SpinLock_try_lock (busy s) = (got, b) \<Longrightarrow>
    spin_step s (spin_goto x (if got then Inside else Outside) (s\<lparr>busy := b\<rparr>))"
| spin_unlock: "spin_pcs s x = Inside \<Longrightarrow> spin_step s (spin_goto x Outside (s\<lparr>busy := SpinLock_unlock (busy s)\<rparr>))"

definition spin_start :: "'c spin_sys" where
  "spin_start = \<lparr>busy = SpinLock_INIT, spin_pcs = (\<lambda>_. Outside)\<rparr>"

definition spin_owns :: "'c spin_sys \<Rightarrow> 'c \<Rightarrow> bool" where
  "spin_owns s x \<longleftrightarrow> spin_pcs s x = Inside"

lemma spin_owns_simps [simp]:
  "spin_owns (spin_goto x p s) = (spin_owns s)(x := (p = Inside))" "busy (spin_goto x p s) = busy s"
  "spin_owns (s\<lparr>busy := b\<rparr>) = spin_owns s"
  by (simp_all add: fun_eq_iff spin_owns_def spin_goto_def)

lemma spin_owns_same: "b \<longleftrightarrow> spin_pcs s x = Inside \<Longrightarrow> (spin_owns s)(x := b) = spin_owns s"
  by (simp add: fun_eq_iff spin_owns_def)

lemma spin_step_kinds:
  assumes "spin_step s t"
  shows "\<not> busy s \<and> busy t \<and> (\<exists>x. spin_owns t = (spin_owns s)(x := True)) \<or>
    \<not> busy t \<and> (\<exists>x. spin_owns s x \<and> spin_owns t = (spin_owns s)(x := False)) \<or>
    busy t = busy s \<and> spin_owns t = spin_owns s"
  using assms
proof cases
  case (attempt x got b)
  then show ?thesis
    by (cases "busy s") (auto simp: SpinLock_try_lock_def spin_owns_same)
next
  case (spin_unlock x)
  then have "\<not> busy t" "spin_owns s x" "spin_owns t = (spin_owns s)(x := False)"
    by (simp_all add: SpinLock_unlock_def spin_owns_def)
  then show ?thesis by blast
qed (auto simp: spin_owns_same)

interpretation spin_lock: lock_refinement spin_step spin_start spin_owns busy
proof (unfold_locales, goal_cases)
  case (3 s t)
  then show ?case by (rule spin_step_kinds)
qed (simp_all add: spin_start_def spin_owns_def SpinLock_INIT_def)

end
