(* ===== verification/Lock_Theorems.thy ===== *)
theory Lock_Theorems
  imports Lock_Protocol
begin

text \<open>
  What the lock protocols guarantee, for every interleaving: mutual exclusion, interrupts off
  inside, the interrupt flag restored, and the refinement of an abstract lock; and the
  interleaving of \<open>IntLock\<close> that blocks a processor for ever.
\<close>

section \<open>The interrupt flag\<close>

text \<open>
  A context that was interrupted had interrupts on, so it is not yet inside; the running context has
  interrupts off once it is inside; the flag saved by the owner is the one it entered with.
\<close>

definition ctx_ok :: "nat \<Rightarrow> nat \<Rightarrow> bool \<Rightarrow> bool \<Rightarrow> bool \<Rightarrow> pc \<Rightarrow> bool" where
  "ctx_ok dep d f e sv p \<longleftrightarrow>
     (dep < d \<longrightarrow> p = Idle) \<and>
     (d < dep \<longrightarrow> p = Idle \<or> p \<in> {Try, TryOnce, Won, Saved} \<and> e) \<and>
     (d = dep \<longrightarrow> (p \<in> {Try, TryOnce, Won, Saved} \<longrightarrow> f = e) \<and> (p \<notin> {Idle, Try, TryOnce, Won, Saved} \<longrightarrow> \<not> f)) \<and>
     (p \<in> {Saved, Held} \<longrightarrow> sv = e) \<and> (\<forall>b. p = Leave b \<or> p = Restore b \<longrightarrow> b = e)"

definition int_inv :: "sys \<Rightarrow> bool" where
  "int_inv s \<longleftrightarrow> (\<forall>c d. ctx_ok (depth s c) d (flag s c) (entry s (c, d)) (saved_if (lk s)) (pcs s (c, d)))"

lemma int_inv_start: "int_inv (int_start f)"
  by (simp add: int_inv_def int_start_def ctx_ok_def)

lemma int_invD: "int_inv s \<Longrightarrow> ctx_ok (depth s c) d (flag s c) (entry s (c, d)) (saved_if (lk s)) (pcs s (c, d))"
  by (simp add: int_inv_def)

text \<open>A step that changes only the running context of one processor and its flag.\<close>

lemma int_inv_local:
  assumes inv: "int_inv s" and t: "depth t = depth s" "saved_if (lk t) = saved_if (lk s)"
      "\<And>c'. c' \<noteq> c \<Longrightarrow> flag t c' = flag s c'"
      "\<And>x. x \<noteq> (c, depth s c) \<Longrightarrow> pcs t x = pcs s x" "\<And>x. x \<noteq> (c, depth s c) \<Longrightarrow> entry t x = entry s x"
    and new: "ctx_ok (depth s c) (depth s c) (flag t c) (entry t (c, depth s c)) (saved_if (lk s)) (pcs t (c, depth s c))"
  shows "int_inv t"
  unfolding int_inv_def
proof (intro allI)
  fix c' d
  show "ctx_ok (depth t c') d (flag t c') (entry t (c', d)) (saved_if (lk t)) (pcs t (c', d))"
  proof (cases "c' = c \<and> d = depth s c")
    case True
    then show ?thesis using new by (simp add: t)
  next
    case False
    then have "pcs t (c', d) = pcs s (c', d)" "entry t (c', d) = entry s (c', d)" using t(4,5) by blast+
    then show ?thesis using int_invD[OF inv, of c' d] False t(3)[of c'] by (cases "c' = c") (simp_all add: t ctx_ok_def)
  qed
qed

lemma ctx_ok_nest:
  "ctx_ok dep d True e sv p \<Longrightarrow> ctx_ok (Suc dep) d False e sv p"
  "ctx_ok (Suc dep) d f e sv p \<Longrightarrow> (d = Suc dep \<Longrightarrow> p = Idle) \<Longrightarrow> ctx_ok dep d True e sv p"
  unfolding ctx_ok_def by (cases d dep rule: linorder_cases; cases p; simp add: less_Suc_eq; fail)+

lemma int_inv_save:
  assumes Q: "irq_ok Q" and excl: "\<And>x y. int_owns s x \<Longrightarrow> int_owns s y \<Longrightarrow> x = y"
    and inv: "int_inv s" and c: "pcs s (running s c) = Won"
  shows "int_inv (goto c Saved (s\<lparr>lk := int_save Q (flag s c) (lk s)\<rparr>))"
proof -
  have "ctx_ok (depth s c') d (flag s c') (entry s (c', d)) (flag s c)
      (if (c', d) = running s c then Saved else pcs s (c', d))" for c' d
  proof (cases "(c', d) = running s c")
    case True
    then show ?thesis using int_invD[OF inv, of c d] c by (auto simp: ctx_ok_def running_def)
  next
    case False
    then have "\<not> int_owner (pcs s (c', d))"
      using excl[of "running s c" "(c', d)"] c by (auto simp: int_owns_def)
    then show ?thesis using False int_invD[OF inv, of c' d]
      by (cases "pcs s (c', d)") (simp_all add: ctx_ok_def)
  qed
  then show ?thesis using irq_simps[OF Q]
    by (simp add: int_inv_def goto_def int_save_def running_def fun_upd_def)
qed

lemma int_inv_step:
  assumes Q: "irq_ok Q" and excl: "\<And>x y. int_owns s x \<Longrightarrow> int_owns s y \<Longrightarrow> x = y"
    and inv: "int_inv s" and "int_step Q s t"
  shows "int_inv t"
  using assms(4)
proof cases
  case (save c)
  then show ?thesis using int_inv_save[OF Q excl inv] by blast
next
  case (interrupt c)
  show ?thesis unfolding int_inv_def
  proof (intro allI)
    fix c' d
    show "ctx_ok (depth t c') d (flag t c') (entry t (c', d)) (saved_if (lk t)) (pcs t (c', d))"
      using int_invD[OF inv, of c' d] ctx_ok_nest(1) interrupt by (cases "c' = c") (simp_all add: set_flag_def)
  qed
next
  case (iret c)
  then obtain k where k: "depth s c = Suc k" using gr0_conv_Suc by blast
  show ?thesis unfolding int_inv_def
  proof (intro allI)
    fix c' d
    show "ctx_ok (depth t c') d (flag t c') (entry t (c', d)) (saved_if (lk t)) (pcs t (c', d))"
      using int_invD[OF inv, of c' d] ctx_ok_nest(2)[of k d] iret k
      by (cases "c' = c") (auto simp: set_flag_def running_def)
  qed
next
  case (lost c l)
  then have "lk s = l" by (simp add: int_cas_def split: if_splits)
  then show ?thesis using inv lost(1) by (simp add: int_inv_def)
next
  case (won c l)
  then have "saved_if l = saved_if (lk s)" by (auto simp: int_cas_def split: if_splits)
  then show ?thesis using int_invD[OF inv, of c "depth s c"] won(1,2)
    by (intro int_inv_local[OF inv, where c = c]) (auto simp: goto_def running_def ctx_ok_def)
next
  case (refused c l)
  then have "lk s = l" by (simp add: int_cas_def split: if_splits)
  then show ?thesis using refused(1)
    by (intro int_inv_local[OF inv, where c = c]) (auto simp: goto_def running_def ctx_ok_def)
next
  case (enter c)
  then show ?thesis by (intro int_inv_local[OF inv, where c = c]) (auto simp: goto_def running_def ctx_ok_def)
next
  case (disable c)
  then show ?thesis using int_invD[OF inv, of c "depth s c"]
    by (intro int_inv_local[OF inv, where c = c]) (auto simp: irq_simps[OF Q] goto_def set_flag_def running_def ctx_ok_def)
next
  case (leave c)
  then show ?thesis using int_invD[OF inv, of c "depth s c"]
    by (intro int_inv_local[OF inv, where c = c]) (auto simp: goto_def running_def ctx_ok_def)
next
  case (free c b)
  then show ?thesis using int_invD[OF inv, of c "depth s c"]
    by (intro int_inv_local[OF inv, where c = c]) (auto simp: goto_def running_def ctx_ok_def int_store_def)
next
  case (restore c b)
  then show ?thesis by (intro int_inv_local[OF inv, where c = c]) (auto simp: goto_def set_flag_def running_def ctx_ok_def)
next
  case (mask c b)
  then show ?thesis by (intro int_inv_local[OF inv, where c = c]) (auto simp: set_flag_def running_def ctx_ok_def)
qed

lemma int_inv_reachable:
  assumes Q: "irq_ok Q" and r: "(int_step Q)\<^sup>*\<^sup>* (int_start f) s"
  shows "int_inv s"
  using r
proof (induction rule: rtranclp_induct)
  case base
  show ?case by (rule int_inv_start)
next
  case (step s t)
  show ?case by (rule int_inv_step[OF Q int_lock.exclusive(1)[OF step.hyps(1)] step.IH step.hyps(2)])
qed

section \<open>Theorems\<close>


text \<open>Runs: each step continues a run, so a concrete run is built rule by rule.\<close>

lemmas run_step = rtranclp.rtrancl_into_rtrancl[of "int_step Q" for Q]

text \<open>A processor with interrupts on enters \<open>lock\<close>, wins the exchange, and an interrupt handler calls \<open>lock\<close>.\<close>

definition window :: sys where
  "window = \<lparr>lk = \<lparr>locked = True, saved_if = False\<rparr>, flag = (\<lambda>_. True)(0 := False), depth = (\<lambda>_. 0)(0 := 1),
     pcs = (\<lambda>_. Idle)((0, 0) := Won, (0, 1) := Try), entry = (\<lambda>_. False)((0, 0) := True)\<rparr>"

lemma window_reached: "(int_step Q)\<^sup>*\<^sup>* (int_start (\<lambda>_. True)) window"
proof -
  let ?s0 = "int_start (\<lambda>_. True)"
  let ?s1 = "goto 0 Try (?s0\<lparr>entry := (entry ?s0)(running ?s0 0 := flag ?s0 0)\<rparr>)"
  let ?s2 = "goto 0 Won (?s1\<lparr>lk := \<lparr>locked = True, saved_if = False\<rparr>\<rparr>)"
  let ?s3 = "set_flag 0 False (?s2\<lparr>depth := (depth ?s2)(0 := depth ?s2 0 + 1)\<rparr>)"
  let ?s4 = "goto 0 Try (?s3\<lparr>entry := (entry ?s3)(running ?s3 0 := flag ?s3 0)\<rparr>)"
  note d = int_start_def goto_def running_def set_flag_def int_cas_def IntLock_INIT_def
  have "(int_step Q)\<^sup>*\<^sup>* ?s0 ?s0" by simp
  from run_step[OF this int_step.enter[of _ 0 Try]] have "(int_step Q)\<^sup>*\<^sup>* ?s0 ?s1" by (simp add: d)
  from run_step[OF this int_step.won[of _ 0]] have "(int_step Q)\<^sup>*\<^sup>* ?s0 ?s2" by (simp add: d)
  from run_step[OF this int_step.interrupt[of _ 0]] have "(int_step Q)\<^sup>*\<^sup>* ?s0 ?s3" by (simp add: d)
  from run_step[OF this int_step.enter[of _ 0 Try]] have "(int_step Q)\<^sup>*\<^sup>* ?s0 ?s4" by (simp add: d)
  moreover have "?s4 = window" by (auto simp: window_def d fun_eq_iff)
  ultimately show ?thesis by simp
qed

definition stuck :: "sys \<Rightarrow> bool" where
  "stuck s \<longleftrightarrow> depth s 0 = 1 \<and> \<not> flag s 0 \<and> pcs s (0, 0) = Won \<and> pcs s (0, 1) = Try \<and> locked (lk s) \<and>
     (\<forall>x. int_owns s x \<longrightarrow> x = (0, 0))"

text \<open>A step of another processor that neither takes nor frees the lock.\<close>

lemma stuck_other:
  assumes "stuck s" "c \<noteq> 0" "depth t 0 = depth s 0" "flag t 0 = flag s 0" "locked (lk t) = locked (lk s)"
    and "\<And>x. x \<noteq> (c, depth s c) \<Longrightarrow> pcs t x = pcs s x" "\<not> int_owner (pcs t (c, depth s c))"
  shows "stuck t"
proof -
  have "pcs t (0, d) = pcs s (0, d)" for d using assms(2,6) by simp
  moreover have "int_owns s x" if "int_owns t x" for x
    using assms(6,7) that by (cases "x = (c, depth s c)") (simp_all add: int_owns_def)
  ultimately show ?thesis using assms(1,3,4,5) unfolding stuck_def by (metis One_nat_def)
qed

lemma stuck_step:
  assumes st: "stuck s" and "int_step Q s t"
  shows "stuck t"
proof -
  have zero: "c \<noteq> 0" if "pcs s (running s c) \<noteq> Try" for c
    using st that by (cases "c = 0") (simp_all add: stuck_def running_def)
  have no: "\<not> int_owner (pcs s (running s c))" for c
    using st by (cases "c = 0") (auto simp: stuck_def running_def int_owns_def)
  have idle: "\<not> int_owner (pcs s (c, depth s c))" for c using no[of c] by (simp add: running_def)
  from assms(2) show ?thesis
  proof cases
    case (enter c p)
    then show ?thesis using zero[of c] by (intro stuck_other[OF st, of c]) (auto simp: goto_def running_def)
  next
    case (won c l)
    then show ?thesis using st by (simp add: int_cas_def stuck_def)
  next
    case (lost c l)
    then have "lk s = l" by (simp add: int_cas_def split: if_splits)
    then show ?thesis using st lost(1) by (simp add: stuck_def)
  next
    case (refused c l)
    then have "lk s = l" by (simp add: int_cas_def split: if_splits)
    then show ?thesis using refused zero[of c] by (intro stuck_other[OF st, of c]) (auto simp: goto_def running_def)
  next
    case (restore c b)
    then show ?thesis using zero[of c] by (intro stuck_other[OF st, of c]) (auto simp: goto_def set_flag_def running_def)
  next
    case (interrupt c)
    then have "c \<noteq> 0" using st by (cases "c = 0") (simp_all add: stuck_def)
    then show ?thesis using interrupt(1) idle[of c] by (intro stuck_other[OF st, of c]) (auto simp: set_flag_def)
  next
    case (iret c)
    then show ?thesis using zero[of c] idle[of c] by (intro stuck_other[OF st, of c]) (auto simp: set_flag_def)
  next
    case (mask c b)
    then show ?thesis using zero[of c] idle[of c] by (intro stuck_other[OF st, of c]) (auto simp: set_flag_def)
  next
    case (save c)
    then show ?thesis using no[of c] by simp
  next
    case (disable c)
    then show ?thesis using no[of c] by simp
  next
    case (leave c)
    then show ?thesis using no[of c] by simp
  next
    case (free c b)
    then show ?thesis using no[of c] by simp
  qed
qed


text \<open>
  C29. The window in \<open>IntLock::try_lock\<close>: the exchange comes before interrupts are disabled.  There is a
  run in which a processor has won the exchange and is interrupted before it disables interrupts, by a handler that calls \<open>lock\<close> on
  the same lock; from then on the handler never gets out of \<open>lock\<close>, the interrupted context never
  leaves the window, and the lock stays taken, whatever the other processors do.
\<close>

theorem int_lock_window_deadlock:
  "\<exists>s. (int_step Q)\<^sup>*\<^sup>* (int_start (\<lambda>_. True)) s \<and> pcs s (0, 0) = Won \<and> running s 0 = (0, 1) \<and>
    (\<forall>t. (int_step Q)\<^sup>*\<^sup>* s t \<longrightarrow> running t 0 = (0, 1) \<and> pcs t (0, 1) = Try \<and> pcs t (0, 0) = Won \<and> locked (lk t))"
proof (intro exI conjI allI impI)
  have w: "stuck window" by (auto simp: stuck_def window_def int_owns_def split: if_splits)
  show "(int_step Q)\<^sup>*\<^sup>* (int_start (\<lambda>_. True)) window" by (rule window_reached)
  show "pcs window (0, 0) = Won" "running window 0 = (0, 1)" by (simp_all add: window_def running_def)
  fix t assume "(int_step Q)\<^sup>*\<^sup>* window t"
  then have "stuck t" by (induction rule: rtranclp_induct) (use w stuck_step in blast)+
  then show "running t 0 = (0, 1)" "pcs t (0, 1) = Try" "pcs t (0, 0) = Won" "locked (lk t)"
    by (simp_all add: stuck_def running_def)
qed

theorem int_lock_window_deadlock_witness:
  "\<exists>s. (int_step amd64_irq)\<^sup>*\<^sup>* (int_start (\<lambda>_. True)) s \<and> pcs s (0, 0) = Won \<and> running s 0 = (0, 1) \<and> locked (lk s)"
  using int_lock_window_deadlock[of amd64_irq] by blast

text \<open>
  C27. \<open>IntLock\<close> refines an abstract lock, an owner or none: every run of the interleaved
  operations follows a run of the specification (acquire by one context when there is no owner, release by the owner, or no change), in
  which the owner is the context inside the lock.
\<close>

theorem int_lock_refines:
  assumes "(int_step Q)\<^sup>*\<^sup>* (int_start f) s"
  shows "\<exists>a. lock_spec\<^sup>*\<^sup>* None a \<and> (locked (lk s) \<longleftrightarrow> a \<noteq> None) \<and> (\<forall>x. int_owns s x \<longleftrightarrow> a = Some x) \<and>
    (\<forall>t. int_step Q s t \<longrightarrow>
      (\<exists>b. lock_spec a b \<and> (locked (lk t) \<longleftrightarrow> b \<noteq> None) \<and> (\<forall>x. int_owns t x \<longleftrightarrow> b = Some x)))"
  using int_lock.refines[OF assms] unfolding int_lock.matches_def conj_assoc .

theorem int_lock_refines_witness:
  "\<exists>a. lock_spec\<^sup>*\<^sup>* None a \<and> a = Some (0 :: nat, 0 :: nat) \<and> int_owns window (0, 0)"
proof -
  have o: "int_owns window (0, 0)" by (simp add: window_def int_owns_def)
  obtain a where "lock_spec\<^sup>*\<^sup>* None a" "\<forall>x. int_owns window x \<longleftrightarrow> a = Some x"
    using int_lock_refines[OF window_reached, of amd64_irq] by blast
  with o show ?thesis by blast
qed

text \<open>
  C28. \<open>SpinLock\<close> refines the same abstract lock for any set of contexts and any schedule, also when
  \<open>compare_exchange_weak\<close> fails spuriously; in particular two contexts are never inside together.
\<close>

theorem spin_lock_refines:
  assumes "spin_step\<^sup>*\<^sup>* spin_start s"
  shows "\<exists>a. lock_spec\<^sup>*\<^sup>* None a \<and> (busy s \<longleftrightarrow> a \<noteq> None) \<and> (\<forall>x. spin_owns s x \<longleftrightarrow> a = Some x) \<and>
    (\<forall>t. spin_step s t \<longrightarrow>
      (\<exists>b. lock_spec a b \<and> (busy t \<longleftrightarrow> b \<noteq> None) \<and> (\<forall>x. spin_owns t x \<longleftrightarrow> b = Some x)))"
  using spin_lock.refines[OF assms] unfolding spin_lock.matches_def conj_assoc .

theorem spin_lock_refines_witness:
  "\<exists>s a. spin_step\<^sup>*\<^sup>* (spin_start :: nat spin_sys) s \<and> lock_spec\<^sup>*\<^sup>* None a \<and> a = Some (7 :: nat) \<and> spin_owns s 7"
proof -
  let ?s0 = "spin_start :: nat spin_sys"
  let ?s1 = "spin_goto 7 Exchange ?s0"
  let ?s2 = "spin_goto 7 Inside (?s1\<lparr>busy := True\<rparr>)"
  have "spin_step ?s0 ?s1" by (rule spin_enter) (simp_all add: spin_start_def)
  moreover have "spin_step ?s1 ?s2" by (rule weak_won) (simp_all add: spin_start_def spin_goto_def SpinLock_INIT_def)
  ultimately have r: "spin_step\<^sup>*\<^sup>* ?s0 ?s2" by (rule rtranclp.rtrancl_into_rtrancl[OF r_into_rtranclp])
  have o: "spin_owns ?s2 7" by simp
  obtain a where "lock_spec\<^sup>*\<^sup>* None a" "\<forall>x. spin_owns ?s2 x \<longleftrightarrow> a = Some x"
    using spin_lock_refines[OF r] by blast
  with r o show ?thesis by blast
qed

text \<open>
  C33. A \<open>Singleton\<close> is installed once: \<open>install\<close> on an empty one stores the value, leaves the lock free and the
  interrupt flag as it was; a second \<open>install\<close> panics; \<open>with\<close> panics before and afterwards runs its closure on
  the current value, keeps what the closure leaves, frees the lock and restores the flag.
\<close>

theorem singleton_once:
  assumes Q: "irq_ok Q" and free: "\<not> locked (inner_lock g)"
  shows "(case inner_value g of
      None \<Rightarrow> Singleton_with Q fn (g, f) = None \<and>
        (\<exists>l. Singleton_install Q v (g, f) = Some (\<lparr>inner_lock = l, inner_value = Some v\<rparr>, f) \<and> \<not> locked l)
    | Some w \<Rightarrow> Singleton_install Q v (g, f) = None \<and>
        (\<exists>l. Singleton_with Q fn (g, f) = Some (fst (fn w), \<lparr>inner_lock = l, inner_value = Some (snd (fn w))\<rparr>, f) \<and> \<not> locked l))"
  using free by (auto simp: Singleton_install_def Singleton_with_def IntLock_lock_eq[OF Q] IntLock_unlock_def
      irq_simps[OF Q] split: option.splits prod.splits)

theorem singleton_once_witness:
  "\<exists>l. Singleton_install amd64_irq (5 :: nat) (Singleton_new, True) =
      Some (\<lparr>inner_lock = l, inner_value = Some 5\<rparr>, True) \<and> \<not> locked l"
  using singleton_once[OF amd64_irq_ok, of Singleton_new "\<lambda>x. ((), x)" True "5 :: nat"]
  by (simp add: Singleton_new_def IntLock_INIT_def)

end
