(* ===== verification/Devices.thy ===== *)
theory Devices
  imports Utils
begin

text \<open>
  The machine outside memory, as the drivers see it.  Port and memory-mapped accesses and the time stamp counter are
  instructions behind functions of the \<open>x86\<close> crate and volatile accesses of the core library; what
  they do is up to the hardware, so they are a parameter: a record of operations on a
  device state.  Each driver states what it relies on as a predicate on this record.
\<close>

record 'd io =
  inb :: "u16 \<Rightarrow> 'd \<Rightarrow> u8 \<times> 'd"
  inw :: "u16 \<Rightarrow> 'd \<Rightarrow> u16 \<times> 'd"
  inl :: "u16 \<Rightarrow> 'd \<Rightarrow> u32 \<times> 'd"
  outb :: "u16 \<Rightarrow> u8 \<Rightarrow> 'd \<Rightarrow> 'd"
  outw :: "u16 \<Rightarrow> u16 \<Rightarrow> 'd \<Rightarrow> 'd"
  outl :: "u16 \<Rightarrow> u32 \<Rightarrow> 'd \<Rightarrow> 'd"
  read_volatile :: "nat \<Rightarrow> u64 \<Rightarrow> 'd \<Rightarrow> u32 \<times> 'd"
  write_volatile :: "nat \<Rightarrow> u64 \<Rightarrow> u32 \<Rightarrow> 'd \<Rightarrow> 'd"
  rdtsc :: "'d \<Rightarrow> u64 \<times> 'd"

text \<open>16-bit and 32-bit sums that panic on overflow.\<close>

definition add16 :: "u16 \<Rightarrow> u16 \<Rightarrow> u16 option" where
  "add16 a b = (if unat a + unat b < 2 ^ 16 then Some (a + b) else None)"

definition add32 :: "u32 \<Rightarrow> u32 \<Rightarrow> u32 option" where
  "add32 a b = (if unat a + unat b < 2 ^ 32 then Some (a + b) else None)"

text \<open>Both the serial port and the interval timer report in bit 5 of a status port.\<close>

lemma and_0x20: "(b :: u8) AND 0x20 = 0 \<longleftrightarrow> \<not> bit b 5"
proof -
  have "(0x20 :: u8) = push_bit 5 1" by (simp add: push_bit_eq_mult)
  then show ?thesis by (simp only: bit_iff_and_push_bit_not_eq_0 not_not)
qed

declare add16_def [rust_simps] add32_def [rust_simps]

end
