(* ===== verification/Serial.thy ===== *)
theory Serial
  imports Devices
begin

text \<open>
  The serial console, kernel/src/serial.rs: initialisation of the port, the busy-wait before each byte, and
  \<open>write_str\<close>, which every message of the kernel goes through.
\<close>

definition COM1 :: u16 where "COM1 = 0x3F8"

definition serial_init :: "'d io \<Rightarrow> 'd \<Rightarrow> 'd" where
  "serial_init D d =
     outb D (COM1 + 4) 0x0B (outb D (COM1 + 2) 0xC7 (outb D (COM1 + 3) 0x03 (outb D (COM1 + 1) 0x00
       (outb D (COM1 + 0) 0x03 (outb D (COM1 + 3) 0x80 (outb D (COM1 + 1) 0x00 d))))))"

definition transmit_ready :: "'d io \<Rightarrow> 'd \<Rightarrow> bool \<times> 'd" where
  "transmit_ready D d = (let (b, d) = inb D (COM1 + 5) d in (b AND 0x20 \<noteq> 0, d))"

text \<open>The loop of \<open>write_byte\<close> reads the status until the transmitter is ready; \<open>None\<close> is waiting for ever.\<close>

partial_function (option) write_byte :: "'d io \<Rightarrow> u8 \<Rightarrow> 'd \<Rightarrow> 'd option" where
  "write_byte D b d = (case transmit_ready D d of
     (ready, d) \<Rightarrow> if ready then Some (outb D COM1 b d) else write_byte D b d)"

text \<open>The bytes 10 and 13 are \<open>\n\<close> and \<open>\r\<close>.\<close>

primrec write_bytes :: "'d io \<Rightarrow> u8 list \<Rightarrow> 'd \<Rightarrow> 'd option" where
  "write_bytes D [] d = Some d"
| "write_bytes D (b # s) d = do {
     d \<leftarrow> (if b = 10 then write_byte D 13 d else Some d);
     d \<leftarrow> write_byte D b d;
     write_bytes D s d }"

text \<open>The state of \<open>write_str\<close> is the interrupt flag and the device; the closure leaves the flag alone.\<close>

definition write_str :: "irq \<Rightarrow> 'd io \<Rightarrow> u8 list \<Rightarrow> bool \<times> 'd \<Rightarrow> (bool \<times> 'd) option" where
  "write_str Q D s fd = (case critical_section Q (\<lambda>(f, d). ((), f, do { d \<leftarrow> d; write_bytes D s d })) (fst fd, Some (snd fd)) of
     (_, f, d) \<Rightarrow> map_option (\<lambda>d. (f, d)) d)"

section \<open>What reaches the line\<close>

text \<open>
  The documented behaviour of a 16550 at the first port, once it is set up: bit 5 of the line status register, port 0x3FD, says whether the
  transmitter is empty; a byte written to port 0x3F8 then
  is sent, reading the status sends nothing, and the transmitter becomes empty after some number of
  status reads.  \<open>sent\<close> is what has gone over the line.
\<close>

definition poll :: "'d io \<Rightarrow> 'd \<Rightarrow> 'd" where
  "poll D d = snd (inb D 0x3FD d)"

definition thr_empty :: "'d io \<Rightarrow> 'd \<Rightarrow> bool" where
  "thr_empty D d = bit (fst (inb D 0x3FD d)) 5"

definition uart_ok :: "'d io \<Rightarrow> ('d \<Rightarrow> bool) \<Rightarrow> ('d \<Rightarrow> u8 list) \<Rightarrow> bool" where
  "uart_ok D up sent \<longleftrightarrow>
     (\<forall>d. up d \<longrightarrow> up (poll D d) \<and> sent (poll D d) = sent d) \<and>
     (\<forall>d b. up d \<longrightarrow> thr_empty D d \<longrightarrow>
        up (outb D 0x3F8 b (poll D d)) \<and> sent (outb D 0x3F8 b (poll D d)) = sent d @ [b]) \<and>
     (\<forall>d. up d \<longrightarrow> (\<exists>n. thr_empty D ((poll D ^^ n) d)))"

lemma transmit_ready_eq: "transmit_ready D d = (thr_empty D d, poll D d)"
  by (simp add: transmit_ready_def thr_empty_def poll_def COM1_def split_beta and_0x20)

definition crlf :: "u8 list \<Rightarrow> u8 list" where
  "crlf s = concat (map (\<lambda>b. if b = 10 then [13, 10] else [b]) s)"

lemma write_byte_ok:
  assumes u: "uart_ok D up sent" and "up d"
  shows "\<exists>d'. write_byte D b d = Some d' \<and> up d' \<and> sent d' = sent d @ [b]"
proof -
  obtain n where "thr_empty D ((poll D ^^ n) d)" using u assms(2) by (auto simp: uart_ok_def)
  then show ?thesis using assms(2)
  proof (induction n arbitrary: d)
    case 0
    then have "write_byte D b d = Some (outb D 0x3F8 b (poll D d))"
      by (subst write_byte.simps) (simp add: transmit_ready_eq COM1_def)
    then show ?case using u 0 by (auto simp: uart_ok_def)
  next
    case (Suc n)
    show ?case
    proof (cases "thr_empty D d")
      case True
      then have "write_byte D b d = Some (outb D 0x3F8 b (poll D d))"
        by (subst write_byte.simps) (simp add: transmit_ready_eq COM1_def)
      then show ?thesis using u Suc.prems True by (auto simp: uart_ok_def)
    next
      case False
      then have "write_byte D b d = write_byte D b (poll D d)"
        by (subst write_byte.simps) (simp add: transmit_ready_eq COM1_def)
      moreover have "up (poll D d)" "sent (poll D d) = sent d" using u Suc.prems(2) by (auto simp: uart_ok_def)
      ultimately show ?thesis using Suc.IH[of "poll D d"] Suc.prems(1) by (simp add: funpow_swap1)
    qed
  qed
qed

lemma write_bytes_ok:
  assumes u: "uart_ok D up sent"
  shows "up d \<Longrightarrow> \<exists>d'. write_bytes D s d = Some d' \<and> up d' \<and> sent d' = sent d @ crlf s"
proof (induction s arbitrary: d)
  case (Cons b s)
  obtain d1 where d1: "(if b = 10 then write_byte D 13 d else Some d) = Some d1" "up d1"
      "sent d1 = sent d @ (if b = 10 then [13] else [])"
    using write_byte_ok[OF u Cons.prems, of 13] Cons.prems by (cases "b = 10") auto
  obtain d2 where d2: "write_byte D b d1 = Some d2" "up d2" "sent d2 = sent d1 @ [b]"
    using write_byte_ok[OF u d1(2)] by blast
  show ?case using Cons.IH[OF d2(2)] d1 d2 by (auto simp: crlf_def)
qed (simp add: crlf_def)

text \<open>
  C36. \<open>write_str\<close> returns, sends exactly the given bytes with a carriage return before every
  line feed, in order and nothing else, and leaves the interrupt flag as it found it.
\<close>

theorem write_str_sends:
  assumes Q: "irq_ok Q" and u: "uart_ok D up sent" and "up d"
  shows "\<exists>d'. write_str Q D s (f, d) = Some (f, d') \<and> up d' \<and> sent d' = sent d @ crlf s"
  using write_bytes_ok[OF u assms(3), of s] irq_simps[OF Q]
  by (auto simp: write_str_def critical_section_def)

text \<open>A port that needs two status reads after every byte: the counter and the line.\<close>

definition slow_port :: "(nat \<times> u8 list) io" where
  "slow_port = \<lparr>inb = (\<lambda>p (n, out). if p = 0x3FD then (if n = 0 then 0x20 else 0, n - 1, out) else (0, n, out)), inw = (\<lambda>p d. (0, d)), inl = (\<lambda>p d. (0, d)),
     outb = (\<lambda>p b (n, out). if p = 0x3F8 then (2, out @ [b]) else (n, out)), outw = (\<lambda>p b d. d), outl = (\<lambda>p b d. d),
     read_volatile = (\<lambda>n a d. (0, d)), write_volatile = (\<lambda>n a b d. d), rdtsc = (\<lambda>d. (0, d))\<rparr>"

lemma slow_port_ok: "uart_ok slow_port (\<lambda>_. True) snd"
proof -
  have p: "poll slow_port (n, out) = (n - 1, out)" for n out
    by (simp add: poll_def slow_port_def)
  have "(poll slow_port ^^ k) (n, out) = (n - k, out)" for k n out by (induction k) (simp_all add: p)
  then have "thr_empty slow_port ((poll slow_port ^^ n) (n, out))" for n out
    by (simp add: thr_empty_def slow_port_def)
  then have "\<exists>k. thr_empty slow_port ((poll slow_port ^^ k) d)" for d by (cases d) blast
  moreover have "snd (poll slow_port d) = snd d" for d by (cases d) (simp add: p)
  moreover have "snd (outb slow_port 0x3F8 b d) = snd d @ [b]" for d b by (cases d) (simp add: slow_port_def)
  ultimately show ?thesis by (simp add: uart_ok_def)
qed

theorem write_str_sends_witness:
  "\<exists>d'. write_str amd64_irq slow_port [104, 105, 10] (True, (5, [])) = Some (True, d') \<and> snd d' = [104, 105, 13, 10]"
  using write_str_sends[OF amd64_irq_ok slow_port_ok, where d = "(5, [])" and s = "[104, 105, 10]" and f = True] by (simp add: crlf_def)

end
