(* ===== verification/Tsc.thy ===== *)
theory Tsc
  imports Devices
begin

text \<open>
  The clock, kernel/src/tsc.rs: the frequency of the time stamp counter comes from \<open>cpuid\<close> or from a
  measurement against the PIT, and the time since boot is computed from it.
\<close>

definition PIT_FREQ :: u64 where "PIT_FREQ = 1193182"

datatype TscError = NotInvariant

text \<open>The two atomics of the module, beside the device they are measured on.\<close>

record 'd tsc =
  TSC_FREQUENCY :: u64
  BOOT_TSC :: u64
  dev :: 'd

text \<open>The wait for bit 5 of port 0x61, the output of PIT channel 2; \<open>None\<close> is waiting for ever.\<close>

partial_function (option) pit_wait :: "'d io \<Rightarrow> 'd \<Rightarrow> 'd option" where
  "pit_wait D d = (case inb D 0x61 d of (b, d) \<Rightarrow> if b AND 0x20 = 0 then pit_wait D d else Some d)"

definition pit_setup :: "'d io \<Rightarrow> 'd \<Rightarrow> u8 \<times> 'd" where
  "pit_setup D d =
     (let (b, d) = inb D 0x61 d;
          p61 = b AND NOT 0x03;
          d = outb D 0x61 p61 d;
          d = outb D 0x43 0xB0 d;
          d = outb D 0x42 0xFF d;
          d = outb D 0x42 0xFF d
      in (p61, d))"

definition calibrate_with_pit :: "'d io \<Rightarrow> 'd \<Rightarrow> (u64 \<times> 'd) option" where
  "calibrate_with_pit D d = do {
     let (p61, d) = pit_setup D d;
     let (start, d) = rdtsc D d;
     let d = outb D 0x61 (p61 OR 0x01) d;
     d \<leftarrow> pit_wait D d;
     let (stop, d) = rdtsc D d;
     let d = outb D 0x61 p61 d;
     delta \<leftarrow> sub64 stop start;
     prod \<leftarrow> mul64 delta PIT_FREQ;
     Some (prod div 0xFFFF, d) }"

text \<open>
  The answers of \<open>cpuid\<close>: \<open>apm\<close> is the power management leaf, when there is one, and whether it
  reports an invariant counter; \<open>info\<close> is the TSC leaf and the frequency it reports, if any.
\<close>

definition tsc_init :: "'d io \<Rightarrow> bool option \<Rightarrow> u64 option option \<Rightarrow> 'd tsc \<Rightarrow> ((TscError + unit) \<times> 'd tsc) option" where
  "tsc_init D apm info s =
     (if apm \<noteq> Some True then Some (Inl NotInvariant, s)
      else do {
        (freq, d) \<leftarrow> (case Option.bind info (\<lambda>i. i) of
            Some h \<Rightarrow> if 0 < h then Some (h, dev s) else calibrate_with_pit D (dev s)
          | None \<Rightarrow> calibrate_with_pit D (dev s));
        let s = s\<lparr>TSC_FREQUENCY := freq, dev := d\<rparr>;
        let (boot, d) = rdtsc D (dev s);
        Some (Inr (), s\<lparr>BOOT_TSC := boot, dev := d\<rparr>) })"

text \<open>The product is computed in 128 bits, where it fits; the quotient is cut to 64.\<close>

definition current_time_ns :: "'d io \<Rightarrow> 'd tsc \<Rightarrow> (u64 \<times> 'd tsc) option" where
  "current_time_ns D s = do {
     let (t, d) = rdtsc D (dev s);
     delta \<leftarrow> sub64 t (BOOT_TSC s);
     check (TSC_FREQUENCY s \<noteq> 0);
     Some (word_of_nat (unat delta * 1000000000 div unat (TSC_FREQUENCY s)), s\<lparr>dev := d\<rparr>) }"

section \<open>The interval timer\<close>

text \<open>
  The part of the 8254 data sheet that matters for channel 2.  A control word at port 0x43 selects a channel
  (bits 7-6), how its count is written (bits 5-4), the mode (bits 3-1) and the number system (bit 0); the count follows at port
  0x42.  In mode 0 the output is low from the control word on; the first clock pulse after the count was written loads it, and every pulse with
  the gate open counts down; the output is high once the count is 0.  Anything but low byte, high byte, mode 0, binary is left open
  (\<open>Unprogrammed\<close>), and a count of 0 means 65536.  Bit 0 of port 0x61 is the gate and bit 5 the output.
\<close>

datatype channel = Unprogrammed | Await_low | Await_high u8 | Loading nat | Counting nat

record pit =
  ch2_gate :: bool
  ch2 :: channel

fun ch2_pulse :: "bool \<Rightarrow> channel \<Rightarrow> channel" where
  "ch2_pulse g (Loading n) = Counting n"
| "ch2_pulse g (Counting n) = Counting (if g then n - 1 else n)"
| "ch2_pulse g c = c"

definition pit_elapse :: "nat \<Rightarrow> pit \<Rightarrow> pit" where
  "pit_elapse k p = p\<lparr>ch2 := (ch2_pulse (ch2_gate p) ^^ k) (ch2 p)\<rparr>"

definition pit_write :: "u16 \<Rightarrow> u8 \<Rightarrow> pit \<Rightarrow> pit" where
  "pit_write port b p =
     (if port = 0x61 then p\<lparr>ch2_gate := bit b 0\<rparr>
      else if port = 0x43 then
        (if drop_bit 6 b \<noteq> 2 then p else p\<lparr>ch2 := if take_bit 6 b = 0x30 then Await_low else Unprogrammed\<rparr>)
      else if port = 0x42 then p\<lparr>ch2 := (case ch2 p of
          Await_low \<Rightarrow> Await_high b
        | Await_high l \<Rightarrow> Loading (if l = 0 \<and> b = 0 then 65536 else unat l + 256 * unat b)
        | _ \<Rightarrow> Unprogrammed)\<rparr>
      else p)"

definition pit_out :: "pit \<Rightarrow> bool option" where
  "pit_out p = (case ch2 p of Unprogrammed \<Rightarrow> None | Counting n \<Rightarrow> Some (n = 0) | _ \<Rightarrow> Some False)"

text \<open>
  A machine with such a timer.  \<open>now\<close> is the time in ticks of a counter of \<open>hz\<close> Hz, and the timer's clock of 1193182 Hz has
  given \<open>pulses t\<close> pulses by time \<open>t\<close>, whatever its phase.  Every access takes at most \<open>lag\<close> ticks, a port read at least one; in it the pulses of that
  time pass, then the access takes effect.  \<open>rdtsc\<close> returns the time.
\<close>

definition pulses :: "nat \<Rightarrow> nat \<Rightarrow> nat \<Rightarrow> nat" where
  "pulses hz phase t = (t * 1193182 + phase) div hz"

definition pit_moves :: "nat \<Rightarrow> nat \<Rightarrow> nat \<Rightarrow> ('d \<Rightarrow> nat) \<Rightarrow> ('d \<Rightarrow> pit) \<Rightarrow> (pit \<Rightarrow> pit) \<Rightarrow> 'd \<Rightarrow> 'd \<Rightarrow> bool" where
  "pit_moves hz phase lag now view effect d d' \<longleftrightarrow> now d \<le> now d' \<and> now d' \<le> now d + lag \<and>
     view d' = effect (pit_elapse (pulses hz phase (now d') - pulses hz phase (now d)) (view d))"

definition pit_device :: "'d io \<Rightarrow> nat \<Rightarrow> nat \<Rightarrow> nat \<Rightarrow> ('d \<Rightarrow> nat) \<Rightarrow> ('d \<Rightarrow> pit) \<Rightarrow> bool" where
  "pit_device D hz phase lag now view \<longleftrightarrow>
     (\<forall>d p b. pit_moves hz phase lag now view (pit_write p b) d (outb D p b d)) \<and>
     (\<forall>d. let (b, d') = inb D 0x61 d in pit_moves hz phase lag now view id d d' \<and> now d < now d' \<and>
        (\<forall>high. pit_out (view d') = Some high \<longrightarrow> bit b 5 = high)) \<and>
     (\<forall>d. let (t, d') = rdtsc D d in pit_moves hz phase lag now view id d d' \<and> t = word_of_nat (now d'))"

lemma pit_deviceD:
  assumes "pit_device D hz phase lag now view"
  shows "pit_moves hz phase lag now view (pit_write p b) d (outb D p b d)"
    "inb D 0x61 d = (c, d') \<Longrightarrow> pit_moves hz phase lag now view id d d' \<and> now d < now d'"
    "inb D 0x61 d = (c, d') \<Longrightarrow> pit_out (view d') = Some high \<Longrightarrow> bit c 5 = high"
    "rdtsc D d = (t, d') \<Longrightarrow> pit_moves hz phase lag now view id d d' \<and> t = word_of_nat (now d')"
proof -
  note D = assms[unfolded pit_device_def Let_def, THEN conjunct1] assms[unfolded pit_device_def Let_def, THEN conjunct2, THEN conjunct1]
    assms[unfolded pit_device_def Let_def, THEN conjunct2, THEN conjunct2]
  show "pit_moves hz phase lag now view (pit_write p b) d (outb D p b d)" using D(1) by blast
  show "pit_moves hz phase lag now view id d d' \<and> now d < now d'" "pit_out (view d') = Some high \<Longrightarrow> bit c 5 = high"
    if "inb D 0x61 d = (c, d')" using D(2)[rule_format, of d] that by simp_all
  show "pit_moves hz phase lag now view id d d' \<and> t = word_of_nat (now d')" if "rdtsc D d = (t, d')"
    using D(3)[rule_format, of d] that by simp
qed

lemma pit_elapse_simps [simp]:
  "ch2_gate (pit_elapse k p) = ch2_gate p" "pit_elapse 0 p = p" "pit_elapse j (pit_elapse k p) = pit_elapse (j + k) p"
  "ch2 p \<in> {Unprogrammed, Await_low} \<union> range Await_high \<Longrightarrow> pit_elapse k p = p"
proof -
  show "ch2_gate (pit_elapse k p) = ch2_gate p" "pit_elapse 0 p = p" "pit_elapse j (pit_elapse k p) = pit_elapse (j + k) p"
    by (simp_all add: pit_elapse_def funpow_add)
  assume "ch2 p \<in> {Unprogrammed, Await_low} \<union> range Await_high"
  then have "ch2_pulse (ch2_gate p) (ch2 p) = ch2 p" by auto
  then have "(ch2_pulse (ch2_gate p) ^^ k) (ch2 p) = ch2 p" by (induction k) simp_all
  then show "pit_elapse k p = p" by (simp add: pit_elapse_def)
qed

lemma counting_pulses: "(ch2_pulse g ^^ k) (Counting n) = Counting (if g then n - k else n)"
  by (induction k) simp_all

lemma loading_pulses: "(ch2_pulse g ^^ k) (Loading n) = (if k = 0 then Loading n else Counting (if g then n - (k - 1) else n))"
  by (cases k) (simp_all add: counting_pulses funpow_Suc_right del: funpow.simps)

text \<open>The count is armed: written, and perhaps loaded, but not yet counted down.  From when the gate opens, \<open>n\<close> or \<open>n + 1\<close> pulses raise the output.\<close>

definition armed :: "nat \<Rightarrow> pit \<Rightarrow> bool" where
  "armed n p \<longleftrightarrow> ch2 p = Loading n \<or> ch2 p = Counting n"

lemma armed_closed: "armed n p \<Longrightarrow> \<not> ch2_gate p \<Longrightarrow> armed n (pit_elapse k p)"
  by (auto simp: armed_def pit_elapse_def counting_pulses loading_pulses split: if_splits)

lemma armed_out:
  assumes "armed n p" "ch2_gate p" "0 < n"
  obtains m where "n \<le> m" "m \<le> n + 1" "\<And>k. pit_out (pit_elapse k p) = Some (m \<le> k)"
proof -
  have "pit_out (pit_elapse k p) = Some (n \<le> k)" if "ch2 p = Counting n" for k
    using that assms(2) by (simp add: pit_out_def pit_elapse_def counting_pulses)
  moreover have "pit_out (pit_elapse k p) = Some (n + 1 \<le> k)" if "ch2 p = Loading n" for k
    using that assms(2,3) by (auto simp: pit_out_def pit_elapse_def loading_pulses)
  ultimately show thesis using assms(1) that[of n] that[of "n + 1"] by (auto simp: armed_def)
qed

lemma pulses_mono: "t \<le> t' \<Longrightarrow> pulses hz phase t \<le> pulses hz phase t'"
  by (simp add: pulses_def div_le_mono)

lemma pulses_apart:
  assumes "0 < hz" "t \<le> t'"
  shows "(pulses hz phase t' - pulses hz phase t) * hz < (t' - t) * 1193182 + hz"
    "(t' - t) * 1193182 < (pulses hz phase t' - pulses hz phase t + 1) * hz"
proof -
  let ?a = "t * 1193182 + phase" and ?d = "(t' - t) * 1193182"
  have e: "t' * 1193182 + phase = ?a + ?d" using assms(2) by (simp add: algebra_simps diff_mult_distrib)
  have m: "?a div hz \<le> (?a + ?d) div hz" by (simp add: div_le_mono)
  have a: "?a = hz * (?a div hz) + ?a mod hz" "?a mod hz < hz"
    and b: "?a + ?d = hz * ((?a + ?d) div hz) + (?a + ?d) mod hz" "(?a + ?d) mod hz < hz" using assms(1) by simp_all
  have "hz * ((?a + ?d) div hz) = hz * (?a div hz) + ((?a + ?d) div hz - ?a div hz) * hz"
    using m by (simp add: algebra_simps diff_mult_distrib2)
  then show "(pulses hz phase t' - pulses hz phase t) * hz < ?d + hz"
    "?d < (pulses hz phase t' - pulses hz phase t + 1) * hz"
    unfolding pulses_def e using a b by (simp_all only: distrib_right mult_1)
qed

section \<open>The frequency\<close>

definition pit_poll :: "'d io \<Rightarrow> 'd \<Rightarrow> 'd" where
  "pit_poll D d = snd (inb D 0x61 d)"

lemma pit_wait_ok:
  assumes "\<forall>k<n. fst (inb D 0x61 ((pit_poll D ^^ k) d)) AND 0x20 = 0"
    and "fst (inb D 0x61 ((pit_poll D ^^ n) d)) AND 0x20 \<noteq> 0"
  shows "pit_wait D d = Some ((pit_poll D ^^ Suc n) d)"
  using assms
proof (induction n arbitrary: d)
  case 0
  then show ?case by (subst pit_wait.simps) (simp add: split_beta pit_poll_def)
next
  case (Suc n)
  have "pit_wait D d = pit_wait D (pit_poll D d)"
    using Suc.prems(1)[rule_format, of 0] by (subst pit_wait.simps) (simp add: split_beta pit_poll_def)
  moreover have "fst (inb D 0x61 ((pit_poll D ^^ k) (pit_poll D d))) AND 0x20 = 0" if "k < n" for k
    using Suc.prems(1)[rule_format, of "Suc k"] that by (simp add: funpow_swap1)
  ultimately show ?case using Suc.IH[of "pit_poll D d"] Suc.prems(2) by (simp add: funpow_swap1)
qed

text \<open>The programming sequence arms the timer with 65535, gate closed.\<close>

lemma pit_setup_arms:
  assumes D: "pit_device D hz phase lag now view" and "pit_setup D d = (p61, d')"
  shows "armed 65535 (view d')" "\<not> ch2_gate (view d')" "\<not> bit p61 0" "now d \<le> now d'" "now d' \<le> now d + 5 * lag"
proof -
  obtain b d1 where i: "inb D 0x61 d = (b, d1)" by force
  define d2 where "d2 = outb D 0x61 (b AND NOT 3) d1"
  define d3 where "d3 = outb D 0x43 0xB0 d2"
  define d4 where "d4 = outb D 0x42 0xFF d3"
  have e: "p61 = b AND NOT 3" "d' = outb D 0x42 0xFF d4"
    using assms(2) by (auto simp: pit_setup_def i Let_def d2_def d3_def d4_def)
  show p: "\<not> bit p61 0" by (simp add: e bit_simps)
  note m = pit_deviceD(1)[OF D, unfolded pit_moves_def]
  have v2: "\<not> ch2_gate (view d2)" using m[where p = "0x61" and b = "b AND NOT 3" and d = d1] p by (simp add: d2_def e pit_write_def)
  have "drop_bit 6 (0xB0 :: u8) = 2" "take_bit 6 (0xB0 :: u8) = 0x30" by simp_all
  then have v3: "\<not> ch2_gate (view d3)" "ch2 (view d3) = Await_low"
    using m[where p = "0x43" and b = "0xB0" and d = d2] v2 by (simp_all add: d3_def pit_write_def)
  have v4: "\<not> ch2_gate (view d4)" "ch2 (view d4) = Await_high 0xFF"
    using m[where p = "0x42" and b = "0xFF" and d = d3] v3 by (simp_all add: d4_def pit_write_def)
  show "armed 65535 (view d')" "\<not> ch2_gate (view d')"
    using m[where p = "0x42" and b = "0xFF" and d = d4] v4 by (simp_all add: e pit_write_def armed_def)
  have "now d \<le> now d1" "now d1 \<le> now d + lag" using pit_deviceD(2)[OF D i] by (simp_all add: pit_moves_def)
  moreover have t: "now x \<le> now (outb D p b x)" "now (outb D p b x) \<le> now x + lag" for x p b using m by blast+
  moreover note t[where x = d1 and p = "0x61" and b = "b AND NOT 3", folded d2_def] t[where x = d2 and p = "0x43" and b = "0xB0", folded d3_def]
    t[where x = d3 and p = "0x42" and b = "0xFF", folded d4_def] t[where x = d4 and p = "0x42" and b = "0xFF", folded e(2)]
  ultimately show "now d \<le> now d'" "now d' \<le> now d + 5 * lag" by - linarith+
qed

lemma pit_polls:
  assumes D: "pit_device D hz phase lag now view" and at: "\<And>k. at k = (pit_poll D ^^ k) d"
  shows "now d + k \<le> now (at k)" "now (at (Suc k)) \<le> now (at k) + lag"
    "view (at k) = pit_elapse (pulses hz phase (now (at k)) - pulses hz phase (now d)) (view d)"
proof -
  have step: "pit_moves hz phase lag now view id (at k) (at (Suc k)) \<and> now (at k) < now (at (Suc k))" for k
    using pit_deviceD(2)[OF D, of "at k" "fst (inb D 0x61 (at k))" "at (Suc k)"] by (simp add: at pit_poll_def prod_eq_iff)
  show "now (at (Suc k)) \<le> now (at k) + lag" using step[of k] by (simp add: pit_moves_def)
  show t: "now d + k \<le> now (at k)" for k
  proof (induction k)
    case (Suc k)
    then show ?case using step[of k] by simp
  qed (simp add: at)
  show "view (at k) = pit_elapse (pulses hz phase (now (at k)) - pulses hz phase (now d)) (view d)"
  proof (induction k)
    case (Suc k)
    have "pulses hz phase (now d) \<le> pulses hz phase (now (at k))" "pulses hz phase (now (at k)) \<le> pulses hz phase (now (at (Suc k)))"
      using t[of k] step[of k] by (auto intro!: pulses_mono)
    then show ?case using step[of k] Suc.IH by (simp add: pit_moves_def)
  qed (simp add: at)
qed

text \<open>The wait ends, at the first poll after 65535 or 65536 pulses.\<close>

lemma pit_wait_ends:
  assumes D: "pit_device D hz phase lag now view" and hz: "0 < hz" and a: "armed 65535 (view d)" "ch2_gate (view d)"
  obtains d' where "pit_wait D d = Some d'" "now d \<le> now d'" "65534 * hz < (now d' - now d) * 1193182"
    "(now d' - now d) * 1193182 < 65536 * hz + lag * 1193182"
proof -
  define at where "at k = (pit_poll D ^^ k) d" for k
  define el where "el k = pulses hz phase (now (at k)) - pulses hz phase (now d)" for k
  note q = pit_polls[OF D at_def]
  obtain m where m: "65535 \<le> m" "m \<le> 65535 + 1" "\<And>k. pit_out (pit_elapse k (view d)) = Some (m \<le> k)"
    using armed_out[OF a] by auto
  have le: "now d \<le> now (at k)" for k using q(1)[of k] by simp
  have ap: "el k * hz < (now (at k) - now d) * 1193182 + hz" "(now (at k) - now d) * 1193182 < (el k + 1) * hz" for k
    unfolding el_def by (rule pulses_apart[OF hz le])+
  have out: "(fst (inb D 0x61 (at k)) AND 0x20 = 0) = (el (Suc k) < m)" for k
    using pit_deviceD(3)[OF D, of "at k" "fst (inb D 0x61 (at k))" "at (Suc k)"] q(3)[of "Suc k"] m(3)
    by (simp add: and_0x20 at_def pit_poll_def prod_eq_iff el_def not_le)
  have "m \<le> el (m * hz)"
  proof (rule ccontr)
    assume "\<not> ?thesis"
    then have "(el (m * hz) + 1) * hz \<le> m * hz" by (intro mult_right_mono) simp_all
    moreover have "m * hz \<le> (now (at (m * hz)) - now d) * 1193182" using q(1)[of "m * hz"] by simp
    ultimately show False using ap(2)[of "m * hz"] by simp
  qed
  moreover have "\<not> m \<le> el 0" using m(1) by (simp add: el_def at_def)
  ultimately obtain n where n: "m \<le> el (Suc n)" "\<forall>k\<le>n. el k < m"
    using ex_least_nat_less[of "\<lambda>k. m \<le> el k"] by (metis not_le)
  have "pit_wait D d = Some (at (Suc n))"
    using pit_wait_ok[of n D d] out n unfolding at_def[symmetric] by (metis Suc_le_eq not_le)
  moreover have "65534 * hz < (now (at (Suc n)) - now d) * 1193182"
  proof -
    have "65535 * hz \<le> el (Suc n) * hz" using m(1) n(1) by (intro mult_right_mono) simp_all
    then show ?thesis using ap(1)[of "Suc n"] by linarith
  qed
  moreover have "(now (at (Suc n)) - now d) * 1193182 < 65536 * hz + lag * 1193182"
  proof -
    have "(el n + 1) * hz \<le> 65536 * hz" using m(2) n(2) by (intro mult_right_mono) (auto simp: Suc_le_eq dest: spec[of _ n])
    then have "((now (at n) - now d) + lag) * 1193182 < 65536 * hz + lag * 1193182" using ap(2)[of n] by (simp only: distrib_right)
    moreover have "(now (at (Suc n)) - now d) * 1193182 \<le> ((now (at n) - now d) + lag) * 1193182"
      using q(2)[of n] by (intro mult_right_mono) linarith+
    ultimately show ?thesis by (rule le_less_trans[rotated])
  qed
  ultimately show thesis using that le by blast
qed

lemma calibrate_with_pit_ok:
  assumes D: "pit_device D hz phase lag now view" and hz: "0 < hz"
    and small: "65536 * hz + 3 * 1193182 * lag < 2 ^ 64" "now d + hz + 9 * lag < 2 ^ 64"
  obtains f d' where "calibrate_with_pit D d = Some (f, d')" "f \<noteq> 0" "65534 * hz < 65535 * (unat f + 1)"
    "65535 * unat f < 65536 * hz + 3 * 1193182 * lag"
proof -
  obtain p61 d1 where p: "pit_setup D d = (p61, d1)" by force
  note su = pit_setup_arms[OF D p]
  obtain start d2 where s: "rdtsc D d1 = (start, d2)" by force
  note ts = pit_deviceD(4)[OF D s]
  define d3 where "d3 = outb D 0x61 (p61 OR 0x01) d2"
  have g: "now d2 \<le> now d3" "now d3 \<le> now d2 + lag" "armed 65535 (view d3)" "ch2_gate (view d3)"
  proof -
    have "armed 65535 (view d2)" "\<not> ch2_gate (view d2)" using ts su(1,2) by (auto simp: pit_moves_def armed_closed)
    then show "now d2 \<le> now d3" "now d3 \<le> now d2 + lag" "armed 65535 (view d3)" "ch2_gate (view d3)"
      using pit_deviceD(1)[OF D, of "0x61" "p61 OR 0x01" d2] armed_closed[of 65535 "view d2"]
      by (simp_all add: d3_def pit_moves_def pit_write_def armed_def bit_simps)
  qed
  obtain d4 where w: "pit_wait D d3 = Some d4" "now d3 \<le> now d4" "65534 * hz < (now d4 - now d3) * 1193182"
    "(now d4 - now d3) * 1193182 < 65536 * hz + lag * 1193182"
    by (rule pit_wait_ends[OF D hz g(3,4)])
  obtain stop d5 where e: "rdtsc D d4 = (stop, d5)" by force
  note te = pit_deviceD(4)[OF D e]
  have n: "now d2 \<le> now d5" "now d2 \<le> now d + 6 * lag" "65534 * hz < (now d5 - now d2) * 1193182"
    "(now d5 - now d2) * 1193182 < 65536 * hz + 3 * 1193182 * lag"
    using ts te g(1,2) w(2-4) su(4,5) by (auto simp: pit_moves_def)
  then have "now d5 < 2 ^ 64" "now d2 < 2 ^ 64" using small(2) by - linarith+
  then have u: "unat stop = now d5" "unat start = now d2" using ts te by (simp_all add: unat_of_nat)
  define delta where "delta = stop - start"
  have d: "unat delta = now d5 - now d2" using n(1) u by (simp add: delta_def unat_sub word_le_nat_alt)
  have lt: "unat delta * unat PIT_FREQ < 2 ^ 64" using n(4) small(1) d by (simp add: PIT_FREQ_def)
  let ?f = "delta * PIT_FREQ div 0xFFFF"
  have f: "unat ?f = (now d5 - now d2) * 1193182 div 65535"
    using lt d by (simp add: unat_div unat_word_ariths PIT_FREQ_def)
  have "calibrate_with_pit D d = Some (?f, outb D 0x61 p61 d5)"
    using lt n(1) u w(1) by (simp add: calibrate_with_pit_def p s e mul64_alt delta_def word_le_nat_alt flip: d3_def)
  moreover have "0 < unat ?f" "65534 * hz < 65535 * (unat ?f + 1)" "65535 * unat ?f < 65536 * hz + 3 * 1193182 * lag"
  proof -
    define x q where "x = (now d5 - now d2) * 1193182" and "q = x div 65535"
    note x = n(3,4)[folded x_def]
    have q: "65535 * q \<le> x" "x < 65535 * q + 65535" by (simp_all add: q_def)
    have "65534 * hz < 65535 * q + 65535" using less_trans[OF x(1) q(2)] .
    then show "65534 * hz < 65535 * (unat ?f + 1)" unfolding f x_def[symmetric] q_def[symmetric] by simp
    show "65535 * unat ?f < 65536 * hz + 3 * 1193182 * lag"
      unfolding f x_def[symmetric] q_def[symmetric] using le_less_trans[OF q(1) x(2)] .
    show "0 < unat ?f" unfolding f x_def[symmetric] q_def[symmetric] using x(1) q(2) hz by (cases q) simp_all
  qed
  ultimately show ?thesis by (intro that) (simp_all only: unat_gt_0 not_False_eq_True)
qed

text \<open>
  C34. Initialisation of the clock.  Without an invariant counter it reports \<open>NotInvariant\<close> and stores nothing; a
  frequency that \<open>cpuid\<close> reports is used as it is; otherwise, on a machine with an interval timer as its data sheet describes it, the
  measurement ends and the frequency stored is below the true one by less than one part in 65535 and one Hertz, and above it by
  less than one part in 65535 and 55 Hz for every tick the slowest access takes.  In both
  cases the frequency is not zero and the boot time is the counter's
  value.  (The bounds on \<open>hz\<close> and on the time say that nothing overflows 64 bits: a counter below 2^48 Hz, not about to wrap.)
\<close>

theorem tsc_init_correct:
  assumes D: "pit_device D hz phase lag now view" and "0 < hz"
    and "65536 * hz + 3 * 1193182 * lag < 2 ^ 64" "now (dev s) + hz + 9 * lag < 2 ^ 64"
  shows "(apm \<noteq> Some True \<longrightarrow> tsc_init D apm info s = Some (Inl NotInvariant, s)) \<and>
    (apm = Some True \<longrightarrow> (\<exists>f d d' boot. tsc_init D apm info s = Some (Inr (), \<lparr>TSC_FREQUENCY = f, BOOT_TSC = boot, dev = d'\<rparr>) \<and>
       rdtsc D d = (boot, d') \<and> f \<noteq> 0 \<and>
       (\<forall>h. info = Some (Some h) \<and> h \<noteq> 0 \<longrightarrow> f = h \<and> d = dev s) \<and>
       ((\<nexists>h. info = Some (Some h) \<and> h \<noteq> 0) \<longrightarrow>
          65534 * hz < 65535 * (unat f + 1) \<and> 65535 * unat f < 65536 * hz + 3 * 1193182 * lag)))"
proof -
  obtain f d where c: "calibrate_with_pit D (dev s) = Some (f, d)" and f: "f \<noteq> 0" and b: "65534 * hz < 65535 * (unat f + 1)"
    "65535 * unat f < 65536 * hz + 3 * 1193182 * lag"
    by (rule calibrate_with_pit_ok[OF assms])
  show ?thesis
  proof (cases "\<exists>h. info = Some (Some h) \<and> h \<noteq> 0")
    case True
    then show ?thesis by (cases s) (auto simp: tsc_init_def word_gt_0 split: prod.splits)
  next
    case False
    then have "tsc_init D (Some True) info s = (let (boot, d) = rdtsc D d in
        Some (Inr (), s\<lparr>TSC_FREQUENCY := f, dev := d, BOOT_TSC := boot\<rparr>))"
      using c by (cases info) (auto simp: tsc_init_def word_gt_0 split: option.splits prod.splits)
    then show ?thesis using False f b
      by (cases s) (auto simp: tsc_init_def split: prod.splits)
  qed
qed

section \<open>The time\<close>

text \<open>
  What the clock relies on: the counter is a number of ticks that has not passed \<open>2^64\<close> and never goes back.
\<close>

definition counter_ok :: "'d io \<Rightarrow> ('d \<Rightarrow> nat) \<Rightarrow> bool" where
  "counter_ok D ticks \<longleftrightarrow> (\<forall>d. fst (rdtsc D d) = word_of_nat (ticks d) \<and> ticks d < 2 ^ 64 \<and> ticks d \<le> ticks (snd (rdtsc D d)))"

lemma current_time_ns_eq:
  assumes "counter_ok D ticks" "unat (BOOT_TSC s) \<le> ticks (dev s)" "TSC_FREQUENCY s \<noteq> 0"
  shows "current_time_ns D s = Some (word_of_nat ((ticks (dev s) - unat (BOOT_TSC s)) * 1000000000 div unat (TSC_FREQUENCY s)),
      s\<lparr>dev := snd (rdtsc D (dev s))\<rparr>)"
proof -
  have t: "fst (rdtsc D (dev s)) = word_of_nat (ticks (dev s))" "ticks (dev s) < 2 ^ 64"
    using assms(1) by (simp_all add: counter_ok_def)
  then have u: "unat (word_of_nat (ticks (dev s)) :: u64) = ticks (dev s)" by (simp add: unat_of_nat)
  then have "BOOT_TSC s \<le> word_of_nat (ticks (dev s))" using assms(2) by (simp add: word_le_nat_alt)
  then show ?thesis using t u assms(3) by (simp add: current_time_ns_def split_beta unat_sub)
qed

text \<open>
  C35. The time since boot.  Once the clock is initialised \<open>current_time_ns\<close> never panics; while fewer than
  \<open>2^64\<close> nanoseconds have passed it returns the elapsed ticks divided by the frequency, rounded down to a nanosecond; and
  a later call, whatever the device did in between, returns no smaller a time.
\<close>

theorem tsc_time:
  assumes "counter_ok D ticks" "TSC_FREQUENCY s \<noteq> 0" "unat (BOOT_TSC s) \<le> ticks (dev s)"
    "ticks (dev s) \<le> ticks d"
    "(ticks d - unat (BOOT_TSC s)) * 1000000000 < 2 ^ 64 * unat (TSC_FREQUENCY s)"
  shows "\<exists>t t' s1 s2. current_time_ns D s = Some (t, s1) \<and> current_time_ns D (s\<lparr>dev := d\<rparr>) = Some (t', s2) \<and> t \<le> t' \<and>
    unat t * unat (TSC_FREQUENCY s) \<le> (ticks (dev s) - unat (BOOT_TSC s)) * 1000000000 \<and>
    (ticks (dev s) - unat (BOOT_TSC s)) * 1000000000 < (unat t + 1) * unat (TSC_FREQUENCY s)"
proof -
  let ?ns = "\<lambda>k. (k - unat (BOOT_TSC s)) * 1000000000 div unat (TSC_FREQUENCY s)"
  have pos: "0 < unat (TSC_FREQUENCY s)" using assms(2) by (simp add: unat_gt_0)
  have le: "?ns (ticks (dev s)) \<le> ?ns (ticks d)" using assms(4) by (intro div_le_mono mult_right_mono) auto
  have lt: "?ns (ticks d) < 2 ^ 64" using assms(5) by (intro less_mult_imp_div_less)
  have u: "unat (word_of_nat (?ns (ticks d)) :: u64) = ?ns (ticks d)"
      "unat (word_of_nat (?ns (ticks (dev s))) :: u64) = ?ns (ticks (dev s))"
    using lt le by (simp_all only: unat_of_nat64 le_less_trans[OF le lt])
  have e: "current_time_ns D s = Some (word_of_nat (?ns (ticks (dev s))), s\<lparr>dev := snd (rdtsc D (dev s))\<rparr>)"
      "current_time_ns D (s\<lparr>dev := d\<rparr>) = Some (word_of_nat (?ns (ticks d)), s\<lparr>dev := snd (rdtsc D d)\<rparr>)"
    using current_time_ns_eq[OF assms(1,3,2)] current_time_ns_eq[OF assms(1), of "s\<lparr>dev := d\<rparr>"] assms(2-4) by simp_all
  have "?ns (ticks (dev s)) * unat (TSC_FREQUENCY s) \<le> (ticks (dev s) - unat (BOOT_TSC s)) * 1000000000"
    by (rule div_times_less_eq_dividend)
  moreover have "(ticks (dev s) - unat (BOOT_TSC s)) * 1000000000 < (?ns (ticks (dev s)) + 1) * unat (TSC_FREQUENCY s)"
    using pos dividend_less_div_times[of "unat (TSC_FREQUENCY s)"] by (simp add: add.commute)
  ultimately show ?thesis using e le by (intro exI conjI) (assumption | simp add: u word_le_nat_alt)+
qed

section \<open>Small machines\<close>

text \<open>A board whose counter ticks once with every access, at the rate of the timer: time and timer.\<close>

definition board_tick :: "nat \<times> pit \<Rightarrow> nat \<times> pit" where
  "board_tick = (\<lambda>(t, p). (t + 1, pit_elapse 1 p))"

definition pit_board :: "(nat \<times> pit) io" where
  "pit_board = \<lparr>inb = (\<lambda>p d. (if p = 0x61 \<and> pit_out (snd (board_tick d)) = Some True then 0x20 else 0, board_tick d)),
     inw = (\<lambda>p d. (0, d)), inl = (\<lambda>p d. (0, d)), outb = (\<lambda>p b d. apsnd (pit_write p b) (board_tick d)),
     outw = (\<lambda>p b d. d), outl = (\<lambda>p b d. d), read_volatile = (\<lambda>n a d. (0, d)), write_volatile = (\<lambda>n a b d. d),
     rdtsc = (\<lambda>d. (word_of_nat (fst (board_tick d)), board_tick d))\<rparr>"

lemma pit_board_ok: "pit_device pit_board 1193182 0 1 fst snd"
proof -
  have "pulses 1193182 0 t = t" for t by (simp add: pulses_def)
  moreover have "bit (0x20 :: u8) 5" by simp
  ultimately show ?thesis
    by (auto simp: pit_device_def pit_moves_def pit_board_def board_tick_def)
qed

theorem tsc_init_correct_witness:
  "\<exists>f boot d. tsc_init pit_board (Some True) None \<lparr>TSC_FREQUENCY = 0, BOOT_TSC = 0, dev = (0, \<lparr>ch2_gate = False, ch2 = Unprogrammed\<rparr>)\<rparr> =
      Some (Inr (), \<lparr>TSC_FREQUENCY = f, BOOT_TSC = boot, dev = d\<rparr>) \<and> 1193162 \<le> unat f \<and> unat f \<le> 1193255"
  using tsc_init_correct[OF pit_board_ok, where s = "\<lparr>TSC_FREQUENCY = 0, BOOT_TSC = 0, dev = (0, \<lparr>ch2_gate = False, ch2 = Unprogrammed\<rparr>)\<rparr>"
      and apm = "Some True" and info = None]
  by fastforce

text \<open>A counter that is simply read.\<close>

definition small_clock :: "u64 io" where
  "small_clock = \<lparr>inb = (\<lambda>p d. (0, d + 1)), inw = (\<lambda>p d. (0, d)), inl = (\<lambda>p d. (0, d)),
     outb = (\<lambda>p b d. d), outw = (\<lambda>p b d. d), outl = (\<lambda>p b d. d),
     read_volatile = (\<lambda>n a d. (0, d)), write_volatile = (\<lambda>n a b d. d), rdtsc = (\<lambda>d. (d, d))\<rparr>"

lemma small_clock_counter: "counter_ok small_clock unat"
  by (simp add: counter_ok_def small_clock_def)

theorem tsc_time_witness:
  "\<exists>t t' s1 s2. current_time_ns small_clock \<lparr>TSC_FREQUENCY = 3000000000, BOOT_TSC = 7, dev = 17\<rparr> = Some (t, s1) \<and>
     current_time_ns small_clock \<lparr>TSC_FREQUENCY = 3000000000, BOOT_TSC = 7, dev = 18\<rparr> = Some (t', s2) \<and> t \<le> t' \<and>
     unat t * 3000000000 \<le> 10000000000 \<and> 10000000000 < (unat t + 1) * 3000000000"
  using tsc_time[OF small_clock_counter, of "\<lparr>TSC_FREQUENCY = 3000000000, BOOT_TSC = 7, dev = 17\<rparr>" 18] by simp

end
