(* ===== verification/Pci.thy ===== *)
theory Pci
  imports Devices Vmm
begin

text \<open>
  PCI configuration space, kernel/src/pci.rs: register access through the ports 0xCF8 and 0xCFC or
  through the memory-mapped window the MCFG table describes, the enumeration of all functions, and initialisation.
\<close>

record PciAddress =
  pci_bus :: u8
  pci_device :: u8
  pci_function :: u8

definition io_address :: "PciAddress \<Rightarrow> u64 \<Rightarrow> u32" where
  "io_address a offset =
     (let bus = ucast (pci_bus a); device = ucast (pci_device a); function = ucast (pci_function a);
          offset = ucast offset AND 0xFC
      in 0x80000000 OR push_bit 16 bus OR push_bit 11 device OR push_bit 8 function OR offset)"

definition mmio_address :: "PciAddress \<Rightarrow> u64 \<Rightarrow> u64 \<Rightarrow> u64 option" where
  "mmio_address a offset mcfg = do {
     let bus = ucast (pci_bus a);
     let device = ucast (pci_device a);
     let function = ucast (pci_function a);
     x \<leftarrow> add64 mcfg (push_bit 20 bus);
     x \<leftarrow> add64 x (push_bit 15 device);
     x \<leftarrow> add64 x (push_bit 12 function);
     add64 x offset }"

text \<open>
  \<open>sz\<close> is the size of the type parameter; values are widened to 32 bits.  A volatile access must be
  aligned; what a misaligned one does is not defined (with debug assertions it panics), and here it is \<open>None\<close>.
\<close>

definition pci_read :: "'d io \<Rightarrow> u64 \<Rightarrow> nat \<Rightarrow> PciAddress \<Rightarrow> u64 \<Rightarrow> 'd \<Rightarrow> (u32 \<times> 'd) option" where
  "pci_read D mcfg sz addr offset d = do {
     check (sz \<in> {1, 2, 4});
     if mcfg \<noteq> 0 then do {
       p \<leftarrow> mmio_address addr offset mcfg;
       check (sz dvd unat p);
       Some (read_volatile D sz p d) }
     else do {
       let d = outl D 0xCF8 (io_address addr offset) d;
       let port = 0xCFC + (ucast offset AND 3);
       Some (if sz = 1 then let (v, d) = inb D port d in (ucast v, d)
             else if sz = 2 then let (v, d) = inw D port d in (ucast v, d)
             else inl D port d) } }"

definition pci_write :: "'d io \<Rightarrow> u64 \<Rightarrow> nat \<Rightarrow> PciAddress \<Rightarrow> u64 \<Rightarrow> u32 \<Rightarrow> 'd \<Rightarrow> 'd option" where
  "pci_write D mcfg sz addr offset value d = do {
     check (sz \<in> {1, 2, 4});
     if mcfg \<noteq> 0 then do {
       p \<leftarrow> mmio_address addr offset mcfg;
       check (sz dvd unat p);
       Some (write_volatile D sz p value d) }
     else do {
       let d = outl D 0xCF8 (io_address addr offset) d;
       let port = 0xCFC + (ucast offset AND 3);
       Some (if sz = 1 then outb D port (ucast value) d
             else if sz = 2 then outw D port (ucast value) d
             else outl D port value d) } }"

section \<open>Enumeration\<close>

text \<open>
  The two functions call each other; \<open>enum_bus\<close> counts the nesting down and \<open>None\<close> is also nesting
  deeper than that.  \<open>enum_device\<close> takes the call it makes as an argument.  The messages are not modelled.
\<close>

primrec enum_functions ::
    "'d io \<Rightarrow> u64 \<Rightarrow> (u8 \<Rightarrow> PciAddress list \<Rightarrow> 'd \<Rightarrow> (PciAddress list \<times> 'd) option) \<Rightarrow> u8 \<Rightarrow> u8 \<Rightarrow> nat list \<Rightarrow>
     PciAddress list \<Rightarrow> 'd \<Rightarrow> (PciAddress list \<times> 'd) option" where
  "enum_functions D mcfg recur bus device [] funcs d = Some (funcs, d)"
| "enum_functions D mcfg recur bus device (function # fns) funcs d = do {
     let pciaddr = \<lparr>pci_bus = bus, pci_device = device, pci_function = word_of_nat function\<rparr>;
     (vendor_device, d) \<leftarrow> pci_read D mcfg 4 pciaddr 0x00 d;
     let vendor_id = vendor_device AND 0xFFFF;
     if vendor_id = 0xFFFF then
       (if function = 0 then Some (funcs, d) else enum_functions D mcfg recur bus device fns funcs d)
     else do {
       (class_info, d) \<leftarrow> pci_read D mcfg 4 pciaddr 0x08 d;
       let class_code = drop_bit 24 class_info AND 0xFF;
       let subclass = drop_bit 16 class_info AND 0xFF;
       (header_reg, d) \<leftarrow> pci_read D mcfg 4 pciaddr 0x0C d;
       let header_byte = drop_bit 16 header_reg AND 0xFF;
       let multifunction = (header_byte AND 0x80 \<noteq> 0);
       let header_type = header_byte AND 0x7F;
       let funcs = funcs @ [pciaddr];
       (funcs, d) \<leftarrow>
         (if class_code = 0x06 \<and> subclass \<in> {0x04, 0x09} \<and> header_type = 1 then do {
            (w, d) \<leftarrow> pci_read D mcfg 4 pciaddr 0x18 d;
            let secondary_bus = ucast (drop_bit 8 w);
            recur secondary_bus funcs d }
          else Some (funcs, d));
       if function = 0 \<and> \<not> multifunction then Some (funcs, d)
       else enum_functions D mcfg recur bus device fns funcs d } }"

definition enum_device ::
    "'d io \<Rightarrow> u64 \<Rightarrow> (u8 \<Rightarrow> PciAddress list \<Rightarrow> 'd \<Rightarrow> (PciAddress list \<times> 'd) option) \<Rightarrow> u8 \<Rightarrow> u8 \<Rightarrow>
     PciAddress list \<Rightarrow> 'd \<Rightarrow> (PciAddress list \<times> 'd) option" where
  "enum_device D mcfg recur bus device funcs d = enum_functions D mcfg recur bus device [0..<8] funcs d"

primrec enum_devices ::
    "(u8 \<Rightarrow> PciAddress list \<Rightarrow> 'd \<Rightarrow> (PciAddress list \<times> 'd) option) \<Rightarrow> nat list \<Rightarrow>
     PciAddress list \<Rightarrow> 'd \<Rightarrow> (PciAddress list \<times> 'd) option" where
  "enum_devices one [] funcs d = Some (funcs, d)"
| "enum_devices one (device # devs) funcs d = do {
     (funcs, d) \<leftarrow> one (word_of_nat device) funcs d;
     enum_devices one devs funcs d }"

primrec enum_bus :: "nat \<Rightarrow> 'd io \<Rightarrow> u64 \<Rightarrow> u8 \<Rightarrow> PciAddress list \<Rightarrow> 'd \<Rightarrow> (PciAddress list \<times> 'd) option" where
  "enum_bus 0 D mcfg bus devices d = None"
| "enum_bus (Suc n) D mcfg bus devices d =
     enum_devices (enum_device D mcfg (enum_bus n D mcfg) bus) [0..<32] devices d"

section \<open>Initialisation\<close>

datatype PciError = McfgNotFound string | CouldNotMap MapError

text \<open>\<open>u64::div_ceil\<close>.\<close>

definition div_ceil :: "u64 \<Rightarrow> u64 \<Rightarrow> u64" where
  "div_ceil a b = (if a mod b = 0 then a div b else a div b + 1)"

record McfgEntry =
  mcfg_base :: u64
  start_bus :: u8
  end_bus :: u8

text \<open>
  \<open>table\<close> is what \<open>uacpi\<close> finds under the signature MCFG, the first entry of the table or a
  message.  \<open>depth\<close> bounds the nesting of the enumeration.  The result carries the address that is stored in
  \<open>MCFG_ADDRESS\<close>.
\<close>

definition pci_init ::
    "nat \<Rightarrow> x86 \<Rightarrow> 'd io \<Rightarrow> (string + McfgEntry) \<Rightarrow> u64 \<times> 'd \<times> 'a vkernel_scheme \<Rightarrow>
     ((PciError + PciAddress list) \<times> u64 \<times> 'd \<times> 'a vkernel_scheme) option" where
  "pci_init depth X D table = (\<lambda>(MCFG_ADDRESS, d, s).
     case table of
       Inl e \<Rightarrow> Some (Inl (McfgNotFound e), MCFG_ADDRESS, d, s)
     | Inr entry \<Rightarrow> do {
         let phys = mcfg_base entry;
         n \<leftarrow> sub64 (ucast (end_bus entry)) (ucast (start_bus entry));
         bus_count \<leftarrow> add64 n 1;
         let bytes = push_bit 20 bus_count;
         let stride = PageSize_bytes X Large;
         let pages = div_ceil bytes stride;
         let hhdm = HHDM_OFFSET s;
         virt \<leftarrow> add64 phys hhdm;
         (r, s) \<leftarrow> vmm_map_range X virt phys pages
           (FLAG_P X OR FLAG_RW X OR FLAG_XD X OR FLAG_PCD X OR FLAG_PWT X) Large s;
         (case r of
            Inl e \<Rightarrow> Some (Inl (CouldNotMap e), MCFG_ADDRESS, d, s)
          | Inr _ \<Rightarrow> do {
              let MCFG_ADDRESS = virt;
              (devices, d) \<leftarrow> enum_bus depth D MCFG_ADDRESS (start_bus entry) [] d;
              Some (Inr devices, MCFG_ADDRESS, d, s) }) })"

section \<open>The two access methods\<close>

text \<open>
  What the access relies on.  \<open>conf\<close> is the content of configuration space in a device state, \<open>rd\<close> and
  \<open>wr\<close> read and write a register of it by size, bus, device, function and offset.  Through the ports, the
  address register selects bus, device, function and an aligned offset, and the port of the data register a byte of it.
  In the memory-mapped window at \<open>mcfg\<close> every function has 4096 bytes; only the buses in \<open>B\<close>
  answer there, and only aligned accesses are specified.  Reading a register changes nothing.
\<close>

type_synonym 'c config_read = "nat \<Rightarrow> nat \<Rightarrow> nat \<Rightarrow> nat \<Rightarrow> nat \<Rightarrow> 'c \<Rightarrow> u32"
type_synonym 'c config_write = "nat \<Rightarrow> nat \<Rightarrow> nat \<Rightarrow> nat \<Rightarrow> nat \<Rightarrow> u32 \<Rightarrow> 'c \<Rightarrow> 'c"

definition port_read :: "'d io \<Rightarrow> nat \<Rightarrow> u16 \<Rightarrow> 'd \<Rightarrow> u32 \<times> 'd" where
  "port_read D sz p d =
     (if sz = 1 then let (v, d) = inb D p d in (ucast v, d) else if sz = 2 then let (v, d) = inw D p d in (ucast v, d) else inl D p d)"

definition port_write :: "'d io \<Rightarrow> nat \<Rightarrow> u16 \<Rightarrow> u32 \<Rightarrow> 'd \<Rightarrow> 'd" where
  "port_write D sz p v d = (if sz = 1 then outb D p (ucast v) d else if sz = 2 then outw D p (ucast v) d else outl D p v d)"

definition port_config_ok :: "'d io \<Rightarrow> ('d \<Rightarrow> 'c) \<Rightarrow> 'c config_read \<Rightarrow> 'c config_write \<Rightarrow> bool" where
  "port_config_ok D conf rd wr \<longleftrightarrow> (\<forall>d w k sz v. bit w 31 \<and> w AND 3 = 0 \<and> sz \<in> {1, 2, 4} \<and> k + sz \<le> 4 \<longrightarrow>
     (let b = unat (drop_bit 16 w AND 0xFF); dv = unat (drop_bit 11 w AND 0x1F); f = unat (drop_bit 8 w AND 7);
          off = unat (w AND 0xFF) + k; d' = outl D 0xCF8 w d; p = 0xCFC + word_of_nat k
      in fst (port_read D sz p d') = rd sz b dv f off (conf d) \<and> conf (snd (port_read D sz p d')) = conf d \<and>
         conf (port_write D sz p v d') = wr sz b dv f off v (conf d)))"

definition window_config_ok :: "'d io \<Rightarrow> u64 \<Rightarrow> u8 set \<Rightarrow> ('d \<Rightarrow> 'c) \<Rightarrow> 'c config_read \<Rightarrow> 'c config_write \<Rightarrow> bool" where
  "window_config_ok D mcfg B conf rd wr \<longleftrightarrow> (\<forall>d x sz v. x div 2 ^ 20 \<in> unat ` B \<and> sz \<in> {1, 2, 4} \<and> sz dvd x \<longrightarrow>
     (let b = x div 2 ^ 20; dv = x div 2 ^ 15 mod 32; f = x div 2 ^ 12 mod 8; off = x mod 2 ^ 12; a = mcfg + word_of_nat x
      in fst (read_volatile D sz a d) = rd sz b dv f off (conf d) \<and> conf (snd (read_volatile D sz a d)) = conf d \<and>
         conf (write_volatile D sz a v d) = wr sz b dv f off v (conf d)))"

lemma bit_bound: "unat (a :: 'a :: len word) < 2 ^ k \<Longrightarrow> bit a n \<Longrightarrow> n < k"
proof (rule ccontr)
  assume a: "unat a < 2 ^ k" "bit a n" "\<not> n < k"
  then have "unat a < 2 ^ n" using power_increasing[of k n "2 :: nat"] by linarith
  then have "\<not> bit (unat a) n" by (simp add: bit_iff_odd)
  then show False using a(2) by (simp add: bit_unsigned_iff)
qed

lemma masks: "(0xFF :: u32) = mask 8" "(0x1F :: u32) = mask 5" "(7 :: u32) = mask 3" "(3 :: u32) = mask 2"
  "(0xFC :: u32) = mask 8 AND NOT (mask 2)"
  by (simp_all add: mask_eq_exp_minus_1)

lemma bit_enable: "\<exists>en. (0x80000000 :: u32) = en \<and> (\<forall>n. bit en n \<longleftrightarrow> n = 31)"
  by (intro exI[of _ "push_bit 31 1"] conjI allI) (simp, auto simp only: bit_push_bit_iff bit_1_iff, simp_all)

lemma io_address_fields:
  assumes "unat (pci_device a) < 32" "unat (pci_function a) < 8"
  shows "bit (io_address a off) 31" "io_address a off AND 3 = 0"
    "drop_bit 16 (io_address a off) AND 0xFF = ucast (pci_bus a)"
    "drop_bit 11 (io_address a off) AND 0x1F = ucast (pci_device a)"
    "drop_bit 8 (io_address a off) AND 7 = ucast (pci_function a)"
    "io_address a off AND 0xFF = ucast off AND 0xFC"
proof -
  obtain en where en: "(0x80000000 :: u32) = en" "\<And>n. bit en n \<longleftrightarrow> n = 31" using bit_enable by blast
  have d: "bit (pci_device a) n \<Longrightarrow> n < 5" "bit (pci_function a) n \<Longrightarrow> n < 3" for n
    using assms bit_bound[of "pci_device a" 5 n] bit_bound[of "pci_function a" 3 n] by simp_all
  have b: "bit (x :: u8) n \<Longrightarrow> n < 8" for x n using bit_imp_le_length[of x n] by simp
  show "bit (io_address a off) 31" "io_address a off AND 3 = 0"
    "drop_bit 16 (io_address a off) AND 0xFF = ucast (pci_bus a)"
    "drop_bit 11 (io_address a off) AND 0x1F = ucast (pci_device a)"
    "drop_bit 8 (io_address a off) AND 7 = ucast (pci_function a)"
    "io_address a off AND 0xFF = ucast off AND 0xFC"
    unfolding io_address_def Let_def masks en(1)
    by (simp add: bit_simps en(2)) (rule bit_eqI, (auto simp: bit_simps en(2) dest: d b)[1])+
qed

lemma config_offset:
  "unat (ucast off AND 0xFC :: u32) + unat off mod 4 = unat (off :: u64) mod 256"
  "(ucast off AND 3 :: u16) = word_of_nat (unat off mod 4)"
proof -
  have "ucast off AND 0xFC = (push_bit 2 (drop_bit 2 (take_bit 8 (ucast off))) :: u32)"
    unfolding masks by (rule bit_eqI) (auto simp: bit_simps simp del: add_2_eq_Suc add_2_eq_Suc')
  then have "unat (ucast off AND 0xFC :: u32) = unat off mod 256 div 4 * 4"
    by (simp only: unsigned_push_bit_eq unsigned_drop_bit_eq unsigned_take_bit_eq unsigned_ucast_eq)
      (simp add: take_bit_eq_mod push_bit_eq_mult drop_bit_eq_div mod_mod_cancel)
  moreover have "unat off mod 256 div 4 * 4 + unat off mod 256 mod 4 = unat off mod 256" by (rule div_mult_mod_eq)
  moreover have "unat off mod 256 mod 4 = unat off mod 4" by (simp add: mod_mod_cancel)
  ultimately show "unat (ucast off AND 0xFC :: u32) + unat off mod 4 = unat off mod 256" by simp
  have "(ucast off AND 3 :: u16) = take_bit 2 (ucast off)"
    by (simp add: take_bit_eq_mask mask_eq_exp_minus_1)
  moreover have m: "unat (take_bit 2 (ucast off) :: u16) = unat off mod 4"
    by (simp only: unsigned_take_bit_eq unsigned_ucast_eq) (simp add: take_bit_eq_mod mod_mod_cancel)
  ultimately show "(ucast off AND 3 :: u16) = word_of_nat (unat off mod 4)"
    unfolding m[symmetric] by simp
qed

lemma mmio_address_eq:
  assumes "unat (pci_device a) < 32" "unat (pci_function a) < 8" "unat off < 4096" "unat mcfg + 2 ^ 28 \<le> 2 ^ 64"
  defines "x \<equiv> unat (pci_bus a) * 2 ^ 20 + unat (pci_device a) * 2 ^ 15 + unat (pci_function a) * 2 ^ 12 + unat off"
  shows "mmio_address a off mcfg = Some (mcfg + word_of_nat x)" "x < 2 ^ 28"
    "x div 2 ^ 20 = unat (pci_bus a)" "x div 2 ^ 15 mod 32 = unat (pci_device a)"
    "x div 2 ^ 12 mod 8 = unat (pci_function a)" "x mod 2 ^ 12 = unat off"
proof -
  have b: "unat (pci_bus a) < 256" using unsigned_less[of "pci_bus a", where ?'a = nat] by simp
  have u: "unat (ucast (y :: u8) :: u64) = unat y" for y
    using unsigned_less[of y, where ?'a = nat] by (simp add: unsigned_ucast_eq take_bit_eq_mod)
  have p: "unat (push_bit n (ucast y :: u64)) = unat y * 2 ^ n" if "n \<le> 20" for n and y :: u8
  proof -
    have "unat y * 2 ^ n < 2 ^ 8 * 2 ^ n" using unsigned_less[of y, where ?'a = nat] by simp
    also have "\<dots> \<le> 2 ^ 64" unfolding power_add[symmetric] using that by (intro power_increasing) auto
    finally show ?thesis using unat_push_bit64[of "ucast y" n] by (simp add: u)
  qed
  have x: "x = unat off + 4096 * (unat (pci_function a) + 8 * (unat (pci_device a) + 32 * unat (pci_bus a)))"
    by (simp add: x_def)
  have digit: "(r + m * q) div m = q" "(r + m * q) mod m = r" if "r < m" for r m q :: nat using that by simp_all
  have d12: "x div 4096 = unat (pci_function a) + 8 * (unat (pci_device a) + 32 * unat (pci_bus a))" "x mod 4096 = unat off"
    by (simp_all only: x digit[OF assms(3)])
  have d15: "x div 4096 div 8 = unat (pci_device a) + 32 * unat (pci_bus a)" "x div 4096 mod 8 = unat (pci_function a)"
    by (simp_all only: d12 digit[OF assms(2)])
  have d20: "x div 4096 div 8 div 32 = unat (pci_bus a)" "x div 4096 div 8 mod 32 = unat (pci_device a)"
    by (simp_all only: d15 digit[OF assms(1)])
  show "x div 2 ^ 20 = unat (pci_bus a)" "x div 2 ^ 15 mod 32 = unat (pci_device a)"
    "x div 2 ^ 12 mod 8 = unat (pci_function a)" "x mod 2 ^ 12 = unat off"
    using d12(2) d15(2) d20 by (simp_all add: div_mult2_eq[symmetric])
  show "x < 2 ^ 28" using assms(1-3) b by (simp add: x)
  show "mmio_address a off mcfg = Some (mcfg + word_of_nat x)"
    using assms(1-4) b by (simp add: mmio_address_def Let_def add64_alt p unat_word_ariths x_def) (simp add: push_bit_eq_mult)
qed

text \<open>A register access that does what configuration space says, and nothing else.\<close>

definition reads_config :: "('d \<Rightarrow> 'c) \<Rightarrow> 'c config_read \<Rightarrow> nat \<Rightarrow> PciAddress \<Rightarrow> nat \<Rightarrow> 'd \<Rightarrow> (u32 \<times> 'd) option \<Rightarrow> bool" where
  "reads_config conf rd sz a off d r \<longleftrightarrow> (\<exists>d'. conf d' = conf d \<and>
     r = Some (rd sz (unat (pci_bus a)) (unat (pci_device a)) (unat (pci_function a)) off (conf d), d'))"

definition writes_config :: "('d \<Rightarrow> 'c) \<Rightarrow> 'c config_write \<Rightarrow> nat \<Rightarrow> PciAddress \<Rightarrow> nat \<Rightarrow> u32 \<Rightarrow> 'd \<Rightarrow> 'd option \<Rightarrow> bool" where
  "writes_config conf wr sz a off v d r \<longleftrightarrow> (\<exists>d'. r = Some d' \<and>
     conf d' = wr sz (unat (pci_bus a)) (unat (pci_device a)) (unat (pci_function a)) off v (conf d))"

definition pci_addr_ok :: "PciAddress \<Rightarrow> bool" where
  "pci_addr_ok a \<longleftrightarrow> unat (pci_device a) < 32 \<and> unat (pci_function a) < 8"

lemma ucast_u8_u32: "unat (ucast (y :: u8) :: u32) = unat y"
  using unsigned_less[of y, where ?'a = nat] by (simp add: unsigned_ucast_eq take_bit_eq_mod)

lemma port_access:
  assumes c: "port_config_ok D conf rd wr" and a: "pci_addr_ok a" and sz: "sz \<in> {1, 2, 4}" "unat off mod 4 + sz \<le> 4"
  shows "reads_config conf rd sz a (unat off mod 256) d (pci_read D 0 sz a off d)"
    "writes_config conf wr sz a (unat off mod 256) v d (pci_write D 0 sz a off v d)"
proof -
  have a: "unat (pci_device a) < 32" "unat (pci_function a) < 8" using a by (simp_all add: pci_addr_ok_def)
  note f = io_address_fields[OF a, of off] config_offset[of off] ucast_u8_u32
  note c[unfolded port_config_ok_def, rule_format, of "io_address a off" sz "unat off mod 4" d v, unfolded Let_def f]
  moreover have "bit (io_address a off) 31 \<and> io_address a off AND 3 = 0 \<and> sz \<in> {1, 2, 4} \<and> unat off mod 4 + sz \<le> 4"
    using sz f(1,2) by blast
  moreover have "pci_read D 0 sz a off d = Some (port_read D sz (0xCFC + word_of_nat (unat off mod 4)) (outl D 0xCF8 (io_address a off) d))"
      "pci_write D 0 sz a off v d = Some (port_write D sz (0xCFC + word_of_nat (unat off mod 4)) v (outl D 0xCF8 (io_address a off) d))"
    using sz(1) by (auto simp: pci_read_def pci_write_def port_read_def port_write_def config_offset(2) Let_def)
  ultimately show "reads_config conf rd sz a (unat off mod 256) d (pci_read D 0 sz a off d)"
      "writes_config conf wr sz a (unat off mod 256) v d (pci_write D 0 sz a off v d)"
    by (auto simp: reads_config_def writes_config_def prod_eq_iff)
qed

lemma window_access:
  assumes c: "window_config_ok D mcfg B conf rd wr" and a: "pci_addr_ok a" "pci_bus a \<in> B"
    and sz: "sz \<in> {1, 2, 4}" "unat off < 4096" "sz dvd unat off"
    and m: "mcfg \<noteq> 0" "unat mcfg + 2 ^ 28 \<le> 2 ^ 64" "4 dvd unat mcfg"
  shows "reads_config conf rd sz a (unat off) d (pci_read D mcfg sz a off d)"
    "writes_config conf wr sz a (unat off) v d (pci_write D mcfg sz a off v d)"
proof -
  have b: "unat (pci_bus a) \<in> unat ` B" and a: "unat (pci_device a) < 32" "unat (pci_function a) < 8"
    using a by (simp_all add: pci_addr_ok_def)
  define x where "x = unat (pci_bus a) * 2 ^ 20 + unat (pci_device a) * 2 ^ 15 + unat (pci_function a) * 2 ^ 12 + unat off"
  note e = mmio_address_eq[OF a sz(2) m(2), folded x_def]
  have s4: "sz dvd 4" "sz dvd unat mcfg" using sz(1) m(3) by (auto intro: dvd_trans)
  have x4: "sz dvd x" unfolding x_def
    using s4(1) sz(3) by (intro dvd_add) (auto intro: dvd_mult dvd_trans[of sz 4])
  have "unat (mcfg + word_of_nat x) = unat mcfg + x"
    using e(2) m(2) unat_add_lt[of mcfg "word_of_nat x"] unat_of_nat64[of x] by simp
  then have al: "sz dvd unat (mcfg + word_of_nat x)" using s4(2) x4 by simp
  have "x div 2 ^ 20 \<in> unat ` B \<and> sz \<in> {1, 2, 4} \<and> sz dvd x" using e(3) b sz(1) x4 by simp
  note c[unfolded window_config_ok_def, rule_format, OF this, of d v, unfolded Let_def e(3-6)]
  moreover have "pci_read D mcfg sz a off d = Some (read_volatile D sz (mcfg + word_of_nat x) d)"
      "pci_write D mcfg sz a off v d = Some (write_volatile D sz (mcfg + word_of_nat x) v d)"
    using sz(1) m(1) al by (simp_all add: pci_read_def pci_write_def e(1))
  ultimately show "reads_config conf rd sz a (unat off) d (pci_read D mcfg sz a off d)"
      "writes_config conf wr sz a (unat off) v d (pci_write D mcfg sz a off v d)"
    by (auto simp: reads_config_def writes_config_def prod_eq_iff)
qed

end
