(* ===== verification/Pci_Enum.thy ===== *)
theory Pci_Enum
  imports Pci
begin

text \<open>
  What the enumeration of the PCI functions returns: the configuration space determines a graph of buses, and
  \<open>enum_bus\<close> returns the functions on the buses that can be reached, each once.
\<close>

section \<open>Configuration space as a graph of buses\<close>

text \<open>\<open>cw a off\<close> is the 32-bit register of function \<open>a\<close> at \<open>off\<close>.\<close>

type_synonym config_words = "PciAddress \<Rightarrow> nat \<Rightarrow> u32"

definition pci_fn :: "u8 \<Rightarrow> u8 \<Rightarrow> nat \<Rightarrow> PciAddress" where
  "pci_fn b dv f = \<lparr>pci_bus = b, pci_device = dv, pci_function = word_of_nat f\<rparr>"

definition fn_present :: "config_words \<Rightarrow> PciAddress \<Rightarrow> bool" where
  "fn_present cw a \<longleftrightarrow> cw a 0 AND 0xFFFF \<noteq> 0xFFFF"

definition multi :: "config_words \<Rightarrow> PciAddress \<Rightarrow> bool" where
  "multi cw a \<longleftrightarrow> (drop_bit 16 (cw a 0xC) AND 0xFF) AND 0x80 \<noteq> 0"

definition bridge :: "config_words \<Rightarrow> PciAddress \<Rightarrow> bool" where
  "bridge cw a \<longleftrightarrow> drop_bit 24 (cw a 8) AND 0xFF = 0x06 \<and> drop_bit 16 (cw a 8) AND 0xFF \<in> {0x04, 0x09} \<and>
     (drop_bit 16 (cw a 0xC) AND 0xFF) AND 0x7F = 1"

definition secondary :: "config_words \<Rightarrow> PciAddress \<Rightarrow> u8" where
  "secondary cw a = ucast (drop_bit 8 (cw a 0x18))"

text \<open>Function 0 of a device is always there; the others count when it says it has several.\<close>

definition device_functions :: "config_words \<Rightarrow> u8 \<Rightarrow> u8 \<Rightarrow> PciAddress list" where
  "device_functions cw b dv =
     (if \<not> fn_present cw (pci_fn b dv 0) then []
      else if multi cw (pci_fn b dv 0) then filter (fn_present cw) (map (pci_fn b dv) [0..<8])
      else [pci_fn b dv 0])"

definition bus_functions :: "config_words \<Rightarrow> u8 \<Rightarrow> PciAddress list" where
  "bus_functions cw b = concat (map (\<lambda>dv. device_functions cw b (word_of_nat dv)) [0..<32])"

definition visit :: "config_words \<Rightarrow> (u8 \<Rightarrow> PciAddress list) \<Rightarrow> PciAddress \<Rightarrow> PciAddress list" where
  "visit cw walk a = a # (if bridge cw a then walk (secondary cw a) else [])"

primrec bus_walk :: "nat \<Rightarrow> config_words \<Rightarrow> u8 \<Rightarrow> PciAddress list" where
  "bus_walk 0 cw b = []"
| "bus_walk (Suc n) cw b = concat (map (visit cw (bus_walk n cw)) (bus_functions cw b))"

definition bus_link :: "config_words \<Rightarrow> u8 \<Rightarrow> u8 \<Rightarrow> bool" where
  "bus_link cw b b' \<longleftrightarrow> (\<exists>a \<in> set (bus_functions cw b). bridge cw a \<and> secondary cw a = b')"

text \<open>
  What firmware that has numbered the buses guarantees: the bus behind a bridge has a higher number than the bus the
  bridge is on, and no bus is behind two bridges.
\<close>

definition numbered :: "config_words \<Rightarrow> bool" where
  "numbered cw \<longleftrightarrow>
     (\<forall>b. \<forall>a \<in> set (bus_functions cw b). bridge cw a \<longrightarrow> b < secondary cw a) \<and>
     (\<forall>b b'. \<forall>a \<in> set (bus_functions cw b). \<forall>a' \<in> set (bus_functions cw b').
        bridge cw a \<and> bridge cw a' \<and> secondary cw a = secondary cw a' \<longrightarrow> a = a')"

section \<open>The enumeration is the walk\<close>

text \<open>
  The register accesses of the enumeration read configuration space, on the buses in \<open>B\<close>; \<open>closed\<close>
  says that bridges on these buses lead to these buses.
\<close>

definition config_reads :: "'d io \<Rightarrow> u64 \<Rightarrow> u8 set \<Rightarrow> ('d \<Rightarrow> 'c) \<Rightarrow> 'c config_read \<Rightarrow> bool" where
  "config_reads D mcfg B conf rd \<longleftrightarrow> (\<forall>a d. \<forall>off \<in> {0, 8, 0xC, 0x18}. pci_addr_ok a \<and> pci_bus a \<in> B \<longrightarrow>
     reads_config conf rd 4 a (unat off) d (pci_read D mcfg 4 a off d))"

definition closed :: "config_words \<Rightarrow> u8 set \<Rightarrow> bool" where
  "closed cw B \<longleftrightarrow> (\<forall>b \<in> B. \<forall>a \<in> set (bus_functions cw b). bridge cw a \<longrightarrow> secondary cw a \<in> B)"

lemma closed_UNIV [simp]: "closed cw UNIV"
  by (simp add: closed_def)

definition words_of :: "'c config_read \<Rightarrow> 'c \<Rightarrow> config_words" where
  "words_of rd c a off = rd 4 (unat (pci_bus a)) (unat (pci_device a)) (unat (pci_function a)) off c"

definition extends :: "('d \<Rightarrow> 'c) \<Rightarrow> 'c \<Rightarrow> PciAddress list \<Rightarrow> (PciAddress list \<Rightarrow> 'd \<Rightarrow> (PciAddress list \<times> 'd) option) \<Rightarrow> bool" where
  "extends conf c xs step \<longleftrightarrow> (\<forall>fs d. conf d = c \<longrightarrow> (\<exists>d'. step fs d = Some (fs @ xs, d') \<and> conf d' = c))"

lemma extendsD: "extends conf c xs step \<Longrightarrow> conf d = c \<Longrightarrow> \<exists>d'. step fs d = Some (fs @ xs, d') \<and> conf d' = c"
  by (simp add: extends_def)

lemma config_reads_port:
  assumes "port_config_ok D conf rd wr"
  shows "config_reads D 0 B conf rd"
  unfolding config_reads_def
proof (intro allI ballI impI)
  fix a :: PciAddress and d and off :: u64 assume "off \<in> {0, 8, 0xC, 0x18}" and "pci_addr_ok a \<and> pci_bus a \<in> B"
  then have ok: "pci_addr_ok a" and "unat off mod 4 = 0" "unat off mod 256 = unat off" by auto
  then show "reads_config conf rd 4 a (unat off) d (pci_read D 0 4 a off d)"
    using port_access(1)[OF assms ok, of 4 off d] by simp
qed

lemma config_reads_window:
  assumes "window_config_ok D mcfg B conf rd wr" "mcfg \<noteq> 0" "unat mcfg + 2 ^ 28 \<le> 2 ^ 64" "4 dvd unat mcfg"
  shows "config_reads D mcfg B conf rd"
  unfolding config_reads_def
proof (intro allI ballI impI)
  fix a :: PciAddress and d and off :: u64 assume "off \<in> {0, 8, 0xC, 0x18}" and ok: "pci_addr_ok a \<and> pci_bus a \<in> B"
  then have "unat off < 4096" "4 dvd unat off" by auto
  then show "reads_config conf rd 4 a (unat off) d (pci_read D mcfg 4 a off d)"
    using window_access(1)[OF assms(1) _ _ _ _ _ assms(2-4), of a 4 off d] ok by simp
qed

lemma read_word:
  assumes "config_reads D mcfg B conf rd" "conf d = c" "pci_addr_ok a" "pci_bus a \<in> B" "off \<in> {0, 8, 0xC, 0x18}"
  shows "\<exists>d'. pci_read D mcfg 4 a off d = Some (words_of rd c a (unat off), d') \<and> conf d' = c"
  using assms unfolding config_reads_def reads_config_def words_of_def by blast

lemma pci_fn_ok: "unat dv < 32 \<Longrightarrow> f < 8 \<Longrightarrow> pci_addr_ok (pci_fn b dv f)" "pci_bus (pci_fn b dv f) = b"
  by (simp_all add: pci_addr_ok_def pci_fn_def unat_of_nat)

text \<open>One turn of the loop, for a function that is present.\<close>

lemma enum_present:
  fixes b :: u8
  assumes r: "config_reads D mcfg B conf rd" "conf d = c" and ok: "unat dv < 32" "f < 8" and b: "b \<in> B"
  defines "a \<equiv> pci_fn b dv f" and "cw \<equiv> words_of rd c"
  assumes p: "fn_present cw a" and rec: "bridge cw a \<Longrightarrow> extends conf c (walk (secondary cw a)) (recur (secondary cw a))"
  shows "\<exists>d'. conf d' = c \<and> enum_functions D mcfg recur b dv (f # fns) fs d =
    (if f = 0 \<and> \<not> multi cw a then Some (fs @ visit cw walk a, d')
     else enum_functions D mcfg recur b dv fns (fs @ visit cw walk a) d')"
proof -
  have a: "pci_addr_ok a" "pci_bus a \<in> B" using pci_fn_ok(1)[OF ok] b by (simp_all add: a_def pci_fn_ok)
  obtain d1 where d1: "pci_read D mcfg 4 a 0 d = Some (cw a 0, d1)" "conf d1 = c"
    using read_word[OF r a, of 0] by (auto simp: cw_def)
  obtain d2 where d2: "pci_read D mcfg 4 a 8 d1 = Some (cw a 8, d2)" "conf d2 = c"
    using read_word[OF r(1) d1(2) a, of 8] by (auto simp: cw_def)
  obtain d3 where d3: "pci_read D mcfg 4 a 0xC d2 = Some (cw a 0xC, d3)" "conf d3 = c"
    using read_word[OF r(1) d2(2) a, of "0xC"] by (auto simp: cw_def)
  obtain d4 where d4: "pci_read D mcfg 4 a 0x18 d3 = Some (cw a 0x18, d4)" "conf d4 = c"
    using read_word[OF r(1) d3(2) a, of "0x18"] by (auto simp: cw_def)
  have av: "\<lparr>pci_bus = b, pci_device = dv, pci_function = word_of_nat f\<rparr> = a" by (simp add: a_def pci_fn_def)
  show ?thesis
  proof (cases "bridge cw a")
    case True
    obtain d5 where "recur (secondary cw a) (fs @ [a]) d4 = Some ((fs @ [a]) @ walk (secondary cw a), d5)" "conf d5 = c"
      using rec[OF True] d4(2) unfolding extends_def by blast
    then show ?thesis using p True d1 d2 d3 d4
      by (intro exI[of _ d5]) (simp add: av Let_def fn_present_def multi_def bridge_def secondary_def visit_def)
  next
    case False
    then show ?thesis using p d1 d2 d3
      by (intro exI[of _ d3]) (auto simp: av Let_def fn_present_def multi_def bridge_def visit_def)
  qed
qed

lemma enum_absent:
  assumes r: "config_reads D mcfg B conf rd" "conf d = c" and ok: "unat dv < 32" "f < 8" and b: "b \<in> B"
    and p: "\<not> fn_present (words_of rd c) (pci_fn b dv f)"
  shows "\<exists>d'. conf d' = c \<and> enum_functions D mcfg recur b dv (f # fns) fs d =
    (if f = 0 then Some (fs, d') else enum_functions D mcfg recur b dv fns fs d')"
proof -
  obtain d1 where "pci_read D mcfg 4 (pci_fn b dv f) 0 d = Some (words_of rd c (pci_fn b dv f) 0, d1)" "conf d1 = c"
    using read_word[OF r pci_fn_ok(1)[OF ok], of b 0] b by (auto simp: pci_fn_ok)
  then show ?thesis using p by (intro exI[of _ d1]) (simp add: fn_present_def Let_def pci_fn_def)
qed


lemma enum_rest:
  assumes r: "config_reads D mcfg B conf rd" and ok: "unat dv < 32" and b: "b \<in> B"
    and rec: "\<And>f. f \<in> set fns \<Longrightarrow> fn_present (words_of rd c) (pci_fn b dv f) \<Longrightarrow> bridge (words_of rd c) (pci_fn b dv f) \<Longrightarrow>
      extends conf c (walk (secondary (words_of rd c) (pci_fn b dv f))) (recur (secondary (words_of rd c) (pci_fn b dv f)))"
    and fns: "\<forall>f \<in> set fns. f \<noteq> 0 \<and> f < 8"
  shows "extends conf c (concat (map (visit (words_of rd c) walk) (filter (fn_present (words_of rd c)) (map (pci_fn b dv) fns))))
    (enum_functions D mcfg recur b dv fns)"
  using rec fns
proof (induction fns)
  case Nil
  then show ?case by (simp add: extends_def)
next
  case (Cons f fns)
  let ?cw = "words_of rd c"
  have IH: "extends conf c (concat (map (visit ?cw walk) (filter (fn_present ?cw) (map (pci_fn b dv) fns))))
      (enum_functions D mcfg recur b dv fns)"
    using Cons by simp
  have f: "f \<noteq> 0" "f < 8" using Cons.prems(2) by simp_all
  show ?case unfolding extends_def
  proof (intro allI impI)
    fix fs d assume d: "conf d = c"
    show "\<exists>d'. enum_functions D mcfg recur b dv (f # fns) fs d =
      Some (fs @ concat (map (visit ?cw walk) (filter (fn_present ?cw) (map (pci_fn b dv) (f # fns)))), d') \<and> conf d' = c"
    proof (cases "fn_present ?cw (pci_fn b dv f)")
      case True
      with enum_present[OF r d ok f(2) b, where walk = walk and recur = recur and fns = fns and fs = fs]
      obtain d' where "conf d' = c" "enum_functions D mcfg recur b dv (f # fns) fs d =
          enum_functions D mcfg recur b dv fns (fs @ visit ?cw walk (pci_fn b dv f)) d'"
        using Cons.prems(1)[of f] f by auto
      then show ?thesis using extendsD[OF IH, of d' "fs @ visit ?cw walk (pci_fn b dv f)"] True by (simp del: enum_functions.simps)
    next
      case False
      with enum_absent[OF r d ok f(2) b, where recur = recur and fns = fns and fs = fs]
      obtain d' where "conf d' = c" "enum_functions D mcfg recur b dv (f # fns) fs d = enum_functions D mcfg recur b dv fns fs d'"
        using f by auto
      then show ?thesis using extendsD[OF IH, of d' fs] False by (simp del: enum_functions.simps)
    qed
  qed
qed

lemma device_functions_fn: "a \<in> set (device_functions cw b dv) \<Longrightarrow> \<exists>f<8. a = pci_fn b dv f \<and> fn_present cw a"
  by (auto simp: device_functions_def intro: exI[of _ 0] split: if_splits)

lemma enum_device_walk:
  assumes r: "config_reads D mcfg B conf rd" and ok: "unat dv < 32" and b: "b \<in> B"
    and rec: "\<And>a. a \<in> set (device_functions (words_of rd c) b dv) \<Longrightarrow> bridge (words_of rd c) a \<Longrightarrow>
      extends conf c (walk (secondary (words_of rd c) a)) (recur (secondary (words_of rd c) a))"
  shows "extends conf c (concat (map (visit (words_of rd c) walk) (device_functions (words_of rd c) b dv)))
    (enum_device D mcfg recur b dv)"
  unfolding extends_def enum_device_def
proof (intro allI impI)
  fix fs d assume d: "conf d = c"
  let ?cw = "words_of rd c" and ?a = "pci_fn b dv 0"
  have upt: "[0..<8] = (0 :: nat) # [1..<8]" by (simp add: upt_rec)
  show "\<exists>d'. enum_functions D mcfg recur b dv [0..<8] fs d =
      Some (fs @ concat (map (visit ?cw walk) (device_functions ?cw b dv)), d') \<and> conf d' = c"
  proof (cases "fn_present ?cw ?a")
    case False
    then show ?thesis
      using enum_absent[OF r d ok _ b False, where recur = recur and fns = "[1..<8]" and fs = fs]
      by (auto simp: device_functions_def upt simp del: enum_functions.simps)
  next
    case True
    have "?a \<in> set (device_functions ?cw b dv)" using True by (auto simp: device_functions_def)
    from enum_present[OF r d ok _ b True, where walk = walk and recur = recur and fns = "[1..<8]" and fs = fs, OF _ rec[OF this]]
    obtain d' where d': "conf d' = c" "enum_functions D mcfg recur b dv [0..<8] fs d =
        (if \<not> multi ?cw ?a then Some (fs @ visit ?cw walk ?a, d')
         else enum_functions D mcfg recur b dv [1..<8] (fs @ visit ?cw walk ?a) d')"
      by (auto simp: upt simp del: enum_functions.simps)
    show ?thesis
    proof (cases "multi ?cw ?a")
      case m: True
      have rest: "extends conf c (concat (map (visit ?cw walk) (filter (fn_present ?cw) (map (pci_fn b dv) [1..<8]))))
          (enum_functions D mcfg recur b dv [1..<8])"
        by (rule enum_rest[OF r ok b]) (use rec m True in \<open>auto simp: device_functions_def\<close>)
      have "device_functions ?cw b dv = ?a # filter (fn_present ?cw) (map (pci_fn b dv) [1..<8])"
        using m True by (simp add: device_functions_def upt)
      then show ?thesis using d' m extendsD[OF rest d'(1), of "fs @ visit ?cw walk ?a"] by simp
    next
      case False
      then show ?thesis using d' True by (auto simp: device_functions_def)
    qed
  qed
qed

lemma enum_devices_walk:
  assumes "\<And>dv. dv \<in> set dvs \<Longrightarrow> extends conf c (g dv) (one (word_of_nat dv))"
  shows "extends conf c (concat (map g dvs)) (enum_devices one dvs)"
  using assms
proof (induction dvs)
  case (Cons dv dvs)
  have "extends conf c (concat (map g dvs)) (enum_devices one dvs)" "extends conf c (g dv) (one (word_of_nat dv))"
    using Cons by simp_all
  note IH = extendsD[OF this(1)] and one = extendsD[OF this(2)]
  show ?case unfolding extends_def
  proof (intro allI impI)
    fix fs d assume "conf d = c"
    then obtain d1 where "one (word_of_nat dv) fs d = Some (fs @ g dv, d1)" "conf d1 = c" using one by blast
    then show "\<exists>d'. enum_devices one (dv # dvs) fs d = Some (fs @ concat (map g (dv # dvs)), d') \<and> conf d' = c"
      using IH[of d1 "fs @ g dv"] by simp
  qed
qed (simp add: extends_def)

lemma concat_map_concat: "concat (map f (concat xss)) = concat (map (\<lambda>xs. concat (map f xs)) xss)"
  by (induction xss) simp_all

lemma enum_bus_walk:
  assumes r: "config_reads D mcfg B conf rd" and num: "numbered (words_of rd c)" and cl: "closed (words_of rd c) B"
  shows "256 \<le> n + unat b \<Longrightarrow> b \<in> B \<Longrightarrow> extends conf c (bus_walk n (words_of rd c) b) (enum_bus n D mcfg b)"
proof (induction n arbitrary: b)
  case 0
  then show ?case using unsigned_less[of b, where ?'a = nat] by simp
next
  case (Suc n)
  let ?cw = "words_of rd c"
  have rec: "extends conf c (bus_walk n ?cw (secondary ?cw a)) (enum_bus n D mcfg (secondary ?cw a))"
    if "a \<in> set (bus_functions ?cw b)" "bridge ?cw a" for a
  proof -
    have "b < secondary ?cw a" "secondary ?cw a \<in> B"
      using num cl that Suc.prems(2) unfolding numbered_def closed_def by blast+
    then show ?thesis using Suc.prems(1) by (intro Suc.IH) (simp_all add: word_less_nat_alt)
  qed
  have "extends conf c (concat (map (visit ?cw (bus_walk n ?cw)) (device_functions ?cw b (word_of_nat dv))))
      (enum_device D mcfg (enum_bus n D mcfg) b (word_of_nat dv))" if "dv \<in> set [0..<32]" for dv
  proof (rule enum_device_walk[OF r _ Suc.prems(2)])
    show "unat (word_of_nat dv :: u8) < 32" using that by (simp add: unat_of_nat)
    fix a assume "a \<in> set (device_functions ?cw b (word_of_nat dv))" "bridge ?cw a"
    moreover from this have "a \<in> set (bus_functions ?cw b)" using that by (auto simp: bus_functions_def)
    ultimately show "extends conf c (bus_walk n ?cw (secondary ?cw a)) (enum_bus n D mcfg (secondary ?cw a))" using rec by blast
  qed
  then have "extends conf c (concat (map (\<lambda>dv. concat (map (visit ?cw (bus_walk n ?cw)) (device_functions ?cw b (word_of_nat dv)))) [0..<32]))
      (enum_devices (enum_device D mcfg (enum_bus n D mcfg) b) [0..<32])"
    by (rule enum_devices_walk)
  moreover have "concat (map (\<lambda>dv. concat (map (visit ?cw (bus_walk n ?cw)) (device_functions ?cw b (word_of_nat dv)))) [0..<32]) =
      bus_walk (Suc n) ?cw b"
    by (simp add: bus_functions_def concat_map_concat comp_def)
  ultimately show ?case unfolding extends_def by simp
qed

section \<open>The walk visits the reachable buses\<close>

lemma bus_functions_bus: "a \<in> set (bus_functions cw b) \<Longrightarrow> pci_bus a = b"
  by (auto simp: bus_functions_def dest!: device_functions_fn) (simp add: pci_fn_def)

lemma distinct_concat_map:
  assumes "distinct xs" "\<And>x. x \<in> set xs \<Longrightarrow> distinct (g x)"
    "\<And>x y. x \<in> set xs \<Longrightarrow> y \<in> set xs \<Longrightarrow> x \<noteq> y \<Longrightarrow> set (g x) \<inter> set (g y) = {}"
  shows "distinct (concat (map g xs))"
  using assms
proof (induction xs)
  case (Cons x xs)
  have "set (g x) \<inter> set (g y) = {}" if "y \<in> set xs" for y using Cons.prems that by (intro Cons.prems(3)) auto
  moreover have "distinct (concat (map g xs))" using Cons.prems by (intro Cons.IH) auto
  ultimately show ?case using Cons.prems(2)[of x] by auto
qed simp

lemma distinct_bus_functions: "distinct (bus_functions cw b)"
proof -
  have fn: "inj_on (pci_fn b dv) {0..<8}" for dv
    by (auto simp: inj_on_def pci_fn_def word_of_nat_eq_iff take_bit_eq_mod)
  have d: "distinct (device_functions cw b dv)" for dv
    using fn[of dv] by (simp add: device_functions_def distinct_map distinct_filter)
  have dv: "pci_device a = dv" if "a \<in> set (device_functions cw b dv)" for a dv
    using device_functions_fn[OF that] by (auto simp: pci_fn_def)
  have "(word_of_nat x :: u8) \<noteq> word_of_nat y" if "x < 32" "y < 32" "x \<noteq> y" for x y
    using that by (simp add: word_of_nat_eq_iff take_bit_eq_mod)
  then show ?thesis unfolding bus_functions_def
    by (intro distinct_concat_map) (auto simp: d dest!: dv)
qed

lemma link_mono:
  assumes "numbered cw" "(bus_link cw)\<^sup>*\<^sup>* b b'"
  shows "b \<le> b'"
  using assms(2)
proof (induction rule: rtranclp_induct)
  case (step u z)
  then have "u < z" using assms(1) unfolding numbered_def bus_link_def by blast
  then show ?case using step.IH by simp
qed simp

lemma link_parent: "numbered cw \<Longrightarrow> bus_link cw x z \<Longrightarrow> bus_link cw y z \<Longrightarrow> x = y"
  unfolding bus_link_def numbered_def by (metis bus_functions_bus)

lemma link_chain:
  assumes "numbered cw" "(bus_link cw)\<^sup>*\<^sup>* x z"
  shows "(bus_link cw)\<^sup>*\<^sup>* y z \<Longrightarrow> (bus_link cw)\<^sup>*\<^sup>* x y \<or> (bus_link cw)\<^sup>*\<^sup>* y x"
  using assms(2)
proof (induction rule: rtranclp_induct)
  case (step u z)
  show ?case
  proof (cases "y = z")
    case True
    then show ?thesis using step.hyps by (blast intro: rtranclp.rtrancl_into_rtrancl)
  next
    case False
    then obtain w where "(bus_link cw)\<^sup>*\<^sup>* y w" "bus_link cw w z" using step.prems by (metis rtranclp.cases)
    then show ?thesis using step.IH link_parent[OF assms(1) step.hyps(2)] by blast
  qed
qed simp

lemma bus_walk_set:
  assumes num: "numbered cw"
  shows "256 \<le> n + unat b \<Longrightarrow> set (bus_walk n cw b) = (\<Union>b' \<in> {b'. (bus_link cw)\<^sup>*\<^sup>* b b'}. set (bus_functions cw b'))"
proof (induction n arbitrary: b)
  case 0
  then show ?case using unsigned_less[of b, where ?'a = nat] by simp
next
  case (Suc n)
  have IH: "set (bus_walk n cw (secondary cw a)) = (\<Union>b' \<in> {b'. (bus_link cw)\<^sup>*\<^sup>* (secondary cw a) b'}. set (bus_functions cw b'))"
    if "a \<in> set (bus_functions cw b)" "bridge cw a" for a
  proof -
    have "b < secondary cw a" using num that unfolding numbered_def by blast
    then show ?thesis using Suc.prems by (intro Suc.IH) (simp add: word_less_nat_alt)
  qed
  have "set (bus_walk (Suc n) cw b) = set (bus_functions cw b) \<union>
      (\<Union>a \<in> {a \<in> set (bus_functions cw b). bridge cw a}. set (bus_walk n cw (secondary cw a)))"
    by (auto simp: visit_def split: if_splits)
  also have "\<dots> = set (bus_functions cw b) \<union>
      (\<Union>a \<in> {a \<in> set (bus_functions cw b). bridge cw a}. \<Union>b' \<in> {b'. (bus_link cw)\<^sup>*\<^sup>* (secondary cw a) b'}. set (bus_functions cw b'))"
    using IH by auto
  also have "\<dots> = (\<Union>b' \<in> {b'. (bus_link cw)\<^sup>*\<^sup>* b b'}. set (bus_functions cw b'))"
  proof -
    have "(bus_link cw)\<^sup>*\<^sup>* b b' \<longleftrightarrow> b' = b \<or> (\<exists>u. bus_link cw b u \<and> (bus_link cw)\<^sup>*\<^sup>* u b')" for b'
      by (metis converse_rtranclp_into_rtranclp converse_rtranclpE rtranclp.rtrancl_refl)
    then have "(bus_link cw)\<^sup>*\<^sup>* b b' \<longleftrightarrow> b' = b \<or> (\<exists>a \<in> set (bus_functions cw b). bridge cw a \<and> (bus_link cw)\<^sup>*\<^sup>* (secondary cw a) b')" for b'
      unfolding bus_link_def by blast
    then show ?thesis by auto
  qed
  finally show ?case .
qed

lemma distinct_bus_walk:
  assumes num: "numbered cw"
  shows "256 \<le> n + unat b \<Longrightarrow> distinct (bus_walk n cw b)"
proof (induction n arbitrary: b)
  case (Suc n)
  have up: "b < secondary cw a" "256 \<le> n + unat (secondary cw a)" if "a \<in> set (bus_functions cw b)" "bridge cw a" for a
    using num that Suc.prems unfolding numbered_def by (blast, fastforce simp: word_less_nat_alt)
  have on: "(bus_link cw)\<^sup>*\<^sup>* (secondary cw a) (pci_bus x)"
    if "a \<in> set (bus_functions cw b)" "bridge cw a" "x \<in> set (bus_walk n cw (secondary cw a))" for a x
    using that bus_walk_set[OF num up(2)[OF that(1,2)]] bus_functions_bus by fastforce
  have off: "pci_bus x \<noteq> b" if "a \<in> set (bus_functions cw b)" "bridge cw a" "x \<in> set (bus_walk n cw (secondary cw a))" for a x
    using link_mono[OF num on[OF that]] up(1)[OF that(1,2)] by auto
  have apart: "x \<notin> set (bus_walk n cw (secondary cw a'))"
    if a: "a \<in> set (bus_functions cw b)" "bridge cw a" "x \<in> set (bus_walk n cw (secondary cw a))"
      and a': "a' \<in> set (bus_functions cw b)" "bridge cw a'" "a \<noteq> a'" for a a' x
  proof
    assume x: "x \<in> set (bus_walk n cw (secondary cw a'))"
    have ne: "secondary cw a \<noteq> secondary cw a'" using num a a' unfolding numbered_def by blast
    have no: False if h: "(bus_link cw)\<^sup>*\<^sup>* (secondary cw u) (secondary cw u')" "secondary cw u \<noteq> secondary cw u'"
      "u \<in> set (bus_functions cw b)" "bridge cw u" "u' \<in> set (bus_functions cw b)" "bridge cw u'" for u u'
    proof -
      obtain w where w: "(bus_link cw)\<^sup>*\<^sup>* (secondary cw u) w" "bus_link cw w (secondary cw u')"
        using h(1,2) by (metis rtranclp.cases)
      have "bus_link cw b (secondary cw u')" using h(5,6) by (auto simp: bus_link_def)
      then have "w = b" using link_parent[OF num w(2)] by simp
      then show False using link_mono[OF num w(1)] up(1)[OF h(3,4)] by simp
    qed
    show False
      using link_chain[OF num on[OF a] on[OF a'(1,2) x]] no[of a a'] no[of a' a] ne a a' by auto
  qed
  show ?case unfolding bus_walk.simps
  proof (rule distinct_concat_map[OF distinct_bus_functions])
    fix a assume a: "a \<in> set (bus_functions cw b)"
    show "distinct (visit cw (bus_walk n cw) a)"
      using Suc.IH up(2)[OF a] off[OF a] bus_functions_bus[OF a] by (auto simp: visit_def)
    fix a' assume a': "a' \<in> set (bus_functions cw b)" "a \<noteq> a'"
    show "set (visit cw (bus_walk n cw) a) \<inter> set (visit cw (bus_walk n cw) a') = {}"
      using a a' apart[of a _ a'] off bus_functions_bus[OF a] bus_functions_bus[OF a'(1)]
      by (auto simp: visit_def split: if_splits)
  qed
qed simp

end
