(* ===== verification/Pci_Theorems.thy ===== *)
theory Pci_Theorems
  imports Pci_Enum Vmm_Range
begin

text \<open>
  The properties of the PCI code: the two ways to configuration space agree, the enumeration ends and is
  complete, and initialisation maps the window the accesses go through.
\<close>

section \<open>Access and enumeration\<close>

text \<open>
  C30. The two ways to configuration space are the same.  For a bus that answers in the window, a device below 32, a function below 8 and an aligned
  access of 1, 2 or 4 bytes to the first 256 bytes, reading through the ports and through the memory-mapped window (at an aligned address) returns the
  same value and changes nothing, and writing has the same effect; neither panics.
\<close>

theorem config_access_equiv:
  assumes port: "port_config_ok D conf rd wr" and win: "window_config_ok D mcfg B conf rd wr"
    and m: "mcfg \<noteq> 0" "unat mcfg + 2 ^ 28 \<le> 2 ^ 64" "4 dvd unat mcfg"
    and a: "pci_addr_ok a" "pci_bus a \<in> B" and sz: "sz \<in> {1, 2, 4}" "sz dvd unat off" and off: "unat off < 256"
  shows "\<exists>x d1 d2 d3 d4. pci_read D 0 sz a off d = Some (x, d1) \<and> pci_read D mcfg sz a off d = Some (x, d2) \<and>
    pci_write D 0 sz a off v d = Some d3 \<and> pci_write D mcfg sz a off v d = Some d4 \<and>
    conf d1 = conf d \<and> conf d2 = conf d \<and> conf d3 = conf d4 \<and>
    x = rd sz (unat (pci_bus a)) (unat (pci_device a)) (unat (pci_function a)) (unat off) (conf d) \<and>
    conf d3 = wr sz (unat (pci_bus a)) (unat (pci_device a)) (unat (pci_function a)) (unat off) v (conf d)"
proof -
  have "unat off mod 4 + sz \<le> 4" using sz by (auto elim!: dvdE) presburger
  note p = port_access[OF port a(1) sz(1) this]
  have "unat off < 4096" "unat off mod 256 = unat off" using off by simp_all
  then show ?thesis
    using p(1)[of d] p(2)[of v d] window_access(1)[OF win a sz(1) _ sz(2) m, of d] window_access(2)[OF win a sz(1) _ sz(2) m, of v d]
    by (auto simp: reads_config_def writes_config_def)
qed

text \<open>
  C24. The enumeration ends and is complete.  When firmware has numbered the buses, and the buses whose registers can be read
  include the given one and those behind the bridges on them, a nesting depth of 256 is
  enough, and \<open>enum_bus\<close> returns each function on the buses that can be reached from
  the given one through bridges, exactly once, and no other; it only reads.
\<close>

theorem enum_bus_complete:
  assumes "config_reads D mcfg B conf rd" "numbered (words_of rd (conf d))" "closed (words_of rd (conf d)) B" "b \<in> B"
  shows "\<exists>funcs d'. enum_bus 256 D mcfg b [] d = Some (funcs, d') \<and> conf d' = conf d \<and> distinct funcs \<and>
    set funcs = (\<Union>b' \<in> {b'. (bus_link (words_of rd (conf d)))\<^sup>*\<^sup>* b b'}. set (bus_functions (words_of rd (conf d)) b'))"
  using extendsD[OF enum_bus_walk[OF assms(1-3), of 256 b] refl, of "[]"] assms(4)
    bus_walk_set[OF assms(2), of 256 b] distinct_bus_walk[OF assms(2), of 256 b]
  by auto

section \<open>Initialisation\<close>

text \<open>The physical address of a register, and the flags of the window.\<close>

definition ecam :: "u64 \<Rightarrow> PciAddress \<Rightarrow> u64 \<Rightarrow> u64" where
  "ecam base a off = base + word_of_nat (unat (pci_bus a) * 2 ^ 20 + unat (pci_device a) * 2 ^ 15 + unat (pci_function a) * 2 ^ 12 + unat off)"

definition window_flags :: "x86 \<Rightarrow> u64" where
  "window_flags X = FLAG_P X OR FLAG_RW X OR FLAG_XD X OR FLAG_PCD X OR FLAG_PWT X"

lemma window_flags_ok: "x86_ok X \<Longrightarrow> window_flags X AND ADDRESS_MASK = 0"
  by (simp add: window_flags_def x86_simps ADDRESS_MASK_def)

text \<open>The number of pages that covers buses 0 to \<open>e\<close>.\<close>

lemma window_pages:
  fixes e :: u64
  defines "bytes \<equiv> push_bit 20 (e + 1)"
  defines "pages \<equiv> div_ceil bytes (2 ^ 21)"
  assumes e: "unat e < 256"
  shows "(unat e + 1) * 2 ^ 20 \<le> unat pages * 2 ^ 21" "unat pages * 2 ^ 21 \<le> 2 ^ 28" "unat pages = (unat e + 2) div 2"
proof -
  have u: "unat (e + 1) = unat e + 1" using e by (simp add: unat_word_ariths)
  have b: "unat bytes = (unat e + 1) * 2 ^ 20"
    using unat_push_bit64[of "e + 1" 20] e by (simp add: bytes_def u)
  have z: "bytes mod 2 ^ 21 = 0 \<longleftrightarrow> unat bytes mod 2 ^ 21 = 0"
    using is_multiple_of_pow2[of 21 bytes] by (simp add: is_multiple_of_def dvd_eq_mod_eq_0)
  have d: "unat (bytes div 2 ^ 21) = (unat e + 1) div 2" by (simp add: unat_div b)
  have p: "unat pages = (if (unat e + 1) mod 2 = 0 then (unat e + 1) div 2 else (unat e + 1) div 2 + 1)"
  proof -
    have "unat bytes mod (2 * 2 ^ 20) = (unat e + 1) mod 2 * 2 ^ 20" unfolding b by (rule mult_mod_left[symmetric])
    then have "unat bytes mod 2 ^ 21 = 0 \<longleftrightarrow> (unat e + 1) mod 2 = 0" by simp
    moreover have "unat (bytes div 2 ^ 21 + 1) = unat (bytes div 2 ^ 21) + unat (1 :: u64)"
      by (rule unat_add_lt) (unfold d, use e in simp)
    then have "unat (bytes div 2 ^ 21 + 1) = (unat e + 1) div 2 + 1" unfolding d by simp
    ultimately show ?thesis unfolding pages_def div_ceil_def if_distrib[of unat] z d by simp
  qed
  show "(unat e + 1) * 2 ^ 20 \<le> unat pages * 2 ^ 21" "unat pages * 2 ^ 21 \<le> 2 ^ 28"
    using e unfolding p by (auto simp: mod_eq_0_iff_dvd)
  show "unat pages = (unat e + 2) div 2" unfolding p by presburger
qed

text \<open>The buses the window of a segment covers: those from 0 on, as many as the segment has.\<close>

definition window_buses :: "McfgEntry \<Rightarrow> u8 set" where
  "window_buses e = {b. unat b \<le> unat (end_bus e) - unat (start_bus e)}"

lemma window_register:
  assumes "pci_addr_ok a" "pci_bus a \<in> window_buses e" "unat off < 4096" "unat virt + 2 ^ 28 \<le> 2 ^ 64"
    and n: "(unat (end_bus e) - unat (start_bus e) + 1) * 2 ^ 20 \<le> n" "n \<le> 2 ^ 28"
  shows "mmio_address a off virt = Some (ecam virt a off)" "virt \<le> ecam virt a off" "unat (ecam virt a off) < unat virt + n"
    "base + (ecam virt a off - virt) = ecam base a off"
proof -
  have a: "unat (pci_device a) < 32" "unat (pci_function a) < 8" using assms(1) by (simp_all add: pci_addr_ok_def)
  define k where "k = unat (pci_bus a) * 2 ^ 20 + unat (pci_device a) * 2 ^ 15 + unat (pci_function a) * 2 ^ 12 + unat off"
  have "k < (unat (end_bus e) - unat (start_bus e) + 1) * 2 ^ 20" using a assms(2,3) by (simp add: k_def window_buses_def)
  then have k: "k < n" "k < 2 ^ 28" using n by linarith+
  have u: "unat (word_of_nat k :: u64) = k" using k(2) by (intro unat_of_nat64) simp
  have "unat (virt + word_of_nat k) = unat virt + k"
    using assms(4) k(2) unat_add_lt[of virt "word_of_nat k"] by (simp add: u)
  moreover have ec: "ecam y a off = y + word_of_nat k" for y by (simp only: ecam_def k_def)
  ultimately show "virt \<le> ecam virt a off" "unat (ecam virt a off) < unat virt + n" "base + (ecam virt a off - virt) = ecam base a off"
    using k(1) by (simp_all add: word_le_nat_alt)
  show "mmio_address a off virt = Some (ecam virt a off)"
    unfolding ec unfolding k_def by (rule mmio_address_eq(1)[OF a assms(3,4)])
qed

lemma pci_init_eq:
  assumes x: "x86_ok X" and vmm: "VMM s = Some v" and seg: "start_bus e \<le> end_bus e"
    and fit: "unat (mcfg_base e) + unat (HHDM_OFFSET s) < 2 ^ 64"
    and r: "Vmm_map_range X v (mcfg_base e + HHDM_OFFSET s) (mcfg_base e)
      (div_ceil (push_bit 20 (ucast (end_bus e) - ucast (start_bus e) + 1)) (2 ^ 21)) (window_flags X) Large s = Some (r, s')"
  shows "pci_init depth X D (Inr e) (m, d, s) = (case r of
      Inl me \<Rightarrow> Some (Inl (CouldNotMap me), m, d, s')
    | Inr _ \<Rightarrow> (case enum_bus depth D (mcfg_base e + HHDM_OFFSET s) (start_bus e) [] d of None \<Rightarrow> None
        | Some (funcs, d') \<Rightarrow> Some (Inr funcs, mcfg_base e + HHDM_OFFSET s, d', s')))"
proof -
  let ?n = "ucast (end_bus e) - ucast (start_bus e) :: u64"
  have u: "unat (ucast (y :: u8) :: u64) = unat y" for y
    using unsigned_less[of y, where ?'a = nat] by (simp add: unsigned_ucast_eq take_bit_eq_mod)
  have le: "(ucast (start_bus e) :: u64) \<le> ucast (end_bus e)" using seg by (simp add: word_le_nat_alt u)
  have "unat ?n < 256" using le unsigned_less[of "end_bus e", where ?'a = nat] by (simp add: unat_sub u)
  then have a: "sub64 (ucast (end_bus e)) (ucast (start_bus e)) = Some ?n" "add64 ?n 1 = Some (?n + 1)"
      "add64 (mcfg_base e) (HHDM_OFFSET s) = Some (mcfg_base e + HHDM_OFFSET s)"
    using le fit by (simp add: sub64_def, auto intro!: add64_Some)
  show ?thesis unfolding pci_init_def Let_def prod.case sum.case a Option.bind.bind_lunit using vmm r
    by (cases r) (simp_all add: vmm_map_range_def window_flags_def x86_simps(2)[OF x] split: option.split)
qed


section \<open>A small machine\<close>

text \<open>
  Configuration space with a bridge at 00:01.0 to bus 1 and one device behind it; the state of the
  machine is the address register.  The registers cannot be written.
\<close>

definition sample_word :: "nat \<Rightarrow> nat \<Rightarrow> nat \<Rightarrow> nat \<Rightarrow> u32" where
  "sample_word b dv f off =
     (if (b, dv, f) = (0, 1, 0) then
        (if off = 0 then 0x12348086 else if off = 8 then 0x06040000 else if off = 0xC then 0x00010000
         else if off = 0x18 then 0x00010100 else 0)
      else if (b, dv, f) = (1, 0, 0) \<and> off < 0x100 then (if off = 0 then 0x56781AF4 else 0)
      else 0xFFFFFFFF)"

definition sample_rd :: "unit config_read" where
  "sample_rd sz b dv f off c = take_bit (8 * sz) (sample_word b dv f off)"

definition sample_port :: "u16 \<Rightarrow> u32 \<Rightarrow> u32" where
  "sample_port p w = sample_word (unat (drop_bit 16 w AND 0xFF)) (unat (drop_bit 11 w AND 0x1F)) (unat (drop_bit 8 w AND 7))
     (unat (w AND 0xFF) + unat (p - 0xCFC))"

definition sample_io :: "u64 \<Rightarrow> u32 io" where
  "sample_io mcfg = \<lparr>inb = (\<lambda>p d. (ucast (sample_port p d), d)), inw = (\<lambda>p d. (ucast (sample_port p d), d)),
     inl = (\<lambda>p d. (sample_port p d, d)), outb = (\<lambda>p b d. d), outw = (\<lambda>p b d. d),
     outl = (\<lambda>p b d. if p = 0xCF8 then b else d),
     read_volatile = (\<lambda>n a d. let x = unat (a - mcfg) in
       (sample_rd n (x div 2 ^ 20) (x div 2 ^ 15 mod 32) (x div 2 ^ 12 mod 8) (x mod 2 ^ 12) (), d)),
     write_volatile = (\<lambda>n a b d. d), rdtsc = (\<lambda>d. (0, d))\<rparr>"

abbreviation no_conf :: "u32 \<Rightarrow> unit" where "no_conf \<equiv> \<lambda>_. ()"

abbreviation no_wr :: "unit config_write" where "no_wr \<equiv> \<lambda>_ _ _ _ _ _ c. c"

lemma sample_window: "window_config_ok (sample_io mcfg) mcfg B no_conf sample_rd no_wr"
proof -
  have "x < 2 ^ 64" if "x div 2 ^ 20 \<in> unat ` B" for x
  proof -
    have "x div 2 ^ 20 < 256" using that unsigned_less[where ?'a = nat and ?'b = 8] by auto
    then show ?thesis by (simp add: div_less_iff_less_mult)
  qed
  then show ?thesis by (auto simp: window_config_ok_def sample_io_def Let_def unat_of_nat64)
qed

lemma sample_ports: "port_config_ok (sample_io mcfg) no_conf sample_rd no_wr"
proof -
  have "ucast (ucast w :: u8) = take_bit 8 w" "ucast (ucast w :: u16) = take_bit 16 w" "take_bit 32 w = w" for w :: u32
    by (rule bit_eqI, auto simp: bit_simps)+
  then show ?thesis
    by (auto simp: port_config_ok_def sample_io_def port_read_def sample_port_def sample_rd_def unat_of_nat Let_def)
qed

theorem config_access_equiv_witness:
  "\<exists>x d1 d2. pci_read (sample_io 0x1000) 0 2 (pci_fn 0 1 0) 0x0A 0 = Some (x, d1) \<and>
     pci_read (sample_io 0x1000) 0x1000 2 (pci_fn 0 1 0) 0x0A 0 = Some (x, d2)"
  using config_access_equiv[OF sample_ports sample_window, of "0x1000" "pci_fn 0 1 0" UNIV 2 "0x0A" 0 0]
  by (auto simp: pci_addr_ok_def pci_fn_def)

lemma sample_bridge:
  assumes "bridge (words_of sample_rd ()) a"
  shows "a = pci_fn 0 1 0" "secondary (words_of sample_rd ()) a = 1"
proof -
  have *: "unat (pci_bus a) = unat (0 :: u8)" "unat (pci_device a) = unat (1 :: u8)" "unat (pci_function a) = unat (0 :: u8)"
    using assms by (auto simp: bridge_def words_of_def sample_rd_def sample_word_def split: if_splits)
  show a: "a = pci_fn 0 1 0" using *[unfolded unat_eq_iff] by (cases a) (simp add: pci_fn_def)
  show "secondary (words_of sample_rd ()) a = 1"
    by (simp add: a secondary_def words_of_def sample_rd_def sample_word_def pci_fn_def)
qed

lemma sample_numbered: "numbered (words_of sample_rd ())"
proof -
  have "b < secondary (words_of sample_rd ()) a" if "a \<in> set (bus_functions (words_of sample_rd ()) b)" "bridge (words_of sample_rd ()) a" for a b
    using bus_functions_bus[OF that(1)] sample_bridge[OF that(2)] by (auto simp: pci_fn_def)
  then show ?thesis using sample_bridge(1) unfolding numbered_def by blast
qed

theorem enum_bus_complete_witness:
  "\<exists>funcs d'. enum_bus 256 (sample_io 0x1000) 0 0 [] 0 = Some (funcs, d') \<and> distinct funcs \<and>
     set funcs = (\<Union>b' \<in> {b'. (bus_link (words_of sample_rd ()))\<^sup>*\<^sup>* 0 b'}. set (bus_functions (words_of sample_rd ()) b'))"
  using enum_bus_complete[OF config_reads_port[OF sample_ports[of "0x1000"], where B = UNIV], of 0 0] sample_numbered by simp


end
