(* ===== verification/Idt.thy ===== *)
theory Idt
  imports Utils
begin

text \<open>
  Interrupt dispatch, kernel/src/idt.rs: the table of gates, the table of handlers and
  \<open>isr_handler\<close>, which the assembly stubs call with the saved context of what was interrupted.
\<close>

record InterruptFrame =
  r15 :: u64
  r14 :: u64
  r13 :: u64
  r12 :: u64
  r11 :: u64
  r10 :: u64
  r9 :: u64
  r8 :: u64
  rbp :: u64
  rdi :: u64
  rsi :: u64
  rdx :: u64
  rcx :: u64
  rbx :: u64
  rax :: u64
  vector :: u64
  error_code :: u64
  rip :: u64
  cs :: u64
  rflags :: u64
  rsp :: u64
  ss :: u64

text \<open>
  A handler is a closure that may change the frame and whatever it captured, here the rest \<open>'w\<close> of the kernel; \<open>None\<close> is a
  handler that panics.  A slot is a \<open>SpinLock\<close> and the handler it protects.
\<close>

type_synonym 'w handler = "InterruptFrame \<Rightarrow> 'w \<Rightarrow> (InterruptFrame \<times> 'w) option"

datatype event =
    Exception nat InterruptFrame
  | Dr6_write u64
  | Syscall InterruptFrame
  | Unhandled InterruptFrame

text \<open>
  A handler is a function of the frame and of \<open>world\<close>, the rest of the kernel's state.  It does not reach the table itself: a handler that
  would install or clear one for its own vector waits for the lock \<open>isr_handler\<close> holds, one for another vector is not modelled.
\<close>

record 'w isr_state =
  HANDLERS :: "(bool \<times> 'w handler option) list"
  events :: "event list"
  world :: 'w

definition HANDLERS_INIT :: "(bool \<times> 'w handler option) list" where
  "HANDLERS_INIT = replicate 256 (SpinLock_INIT, None)"

definition emit :: "event \<Rightarrow> 'w isr_state \<Rightarrow> 'w isr_state" where
  "emit e s = s\<lparr>events := events s @ [e]\<rparr>"

text \<open>The guard of the slot's lock, taken and given back around an access.\<close>

definition slot_lock :: "nat \<Rightarrow> 'w isr_state \<Rightarrow> ('w handler option \<times> 'w isr_state) option" where
  "slot_lock vec s = do {
     (l, slot) \<leftarrow> idx (HANDLERS s) vec;
     l \<leftarrow> SpinLock_lock [] l;
     Some (slot, s\<lparr>HANDLERS := (HANDLERS s)[vec := (l, slot)]\<rparr>) }"

definition slot_release :: "nat \<Rightarrow> 'w handler option \<Rightarrow> 'w isr_state \<Rightarrow> 'w isr_state" where
  "slot_release vec slot s = s\<lparr>HANDLERS := (HANDLERS s)[vec := (SpinLock_unlock True, slot)]\<rparr>"

definition isr_handler :: "InterruptFrame \<Rightarrow> 'w isr_state \<Rightarrow> (InterruptFrame \<times> 'w isr_state) option" where
  "isr_handler frame s =
     (let vec = unat (vector frame) in
      if vec = 1 then Some (frame, emit (Dr6_write 0xFFFF0FF0) (emit (Exception vec frame) s))
      else if vec = 2 then Some (frame, s)
      else if vec = 3 then Some (frame, emit (Exception vec frame) s)
      else if vec = 14 then None
      else if vec = 0 \<or> (4 \<le> vec \<and> vec < 32) then None
      else if vec = 0x80 then Some (frame, emit (Syscall frame) s)
      else do {
        (slot, s) \<leftarrow> slot_lock vec s;
        (frame, s) \<leftarrow> (case slot of
            Some handler \<Rightarrow> map_option (\<lambda>(frame, w). (frame, s\<lparr>world := w\<rparr>)) (handler frame (world s))
          | None \<Rightarrow> Some (frame, emit (Unhandled frame) s));
        Some (frame, slot_release vec slot s) })"

definition is_handler_installed :: "u8 \<Rightarrow> 'w isr_state \<Rightarrow> (bool \<times> 'w isr_state) option" where
  "is_handler_installed v s = do {
     (slot, s) \<leftarrow> slot_lock (unat v) s;
     Some (slot \<noteq> None, slot_release (unat v) slot s) }"

definition install_handler :: "u8 \<Rightarrow> 'w handler \<Rightarrow> 'w isr_state \<Rightarrow> 'w isr_state option" where
  "install_handler v handler s = do {
     (_, s) \<leftarrow> slot_lock (unat v) s;
     Some (slot_release (unat v) (Some handler) s) }"

definition clear_handler :: "u8 \<Rightarrow> 'w isr_state \<Rightarrow> 'w isr_state option" where
  "clear_handler v s = do {
     (_, s) \<leftarrow> slot_lock (unat v) s;
     Some (slot_release (unat v) None s) }"

section \<open>The table of gates\<close>

text \<open>
  The \<open>x86\<close> crate builds the gate (selector index, entry point, ring, stack index); \<open>gate\<close> stands for
  \<open>interrupt_descriptor(..).dpl(..).ist(..).present().finish()\<close>, \<open>lidt\<close> for loading the pointer.
\<close>

definition DOUBLE_FAULT_IST :: nat where "DOUBLE_FAULT_IST = 1"

definition idt_init :: "irq \<Rightarrow> (nat \<Rightarrow> u64 \<Rightarrow> nat \<Rightarrow> nat \<Rightarrow> 'g) \<Rightarrow> ('g list \<Rightarrow> 'p) \<Rightarrow> u64 list \<Rightarrow>
    'g list Singleton \<times> bool \<Rightarrow> ('p \<times> 'g list Singleton \<times> bool) option" where
  "idt_init Q gate pointer isr_table s = do {
     let idt = map (\<lambda>i. gate 1 (isr_table ! i) (if i = 0x80 then 3 else 0) (if i = 8 then DOUBLE_FAULT_IST else 0)) [0..<256];
     s \<leftarrow> Singleton_install Q idt s;
     Singleton_with Q (\<lambda>idt. (pointer idt, idt)) s }"

section \<open>Handlers\<close>

text \<open>Outside the operations no slot is locked.\<close>

definition handlers_ok :: "'w isr_state \<Rightarrow> bool" where
  "handlers_ok s \<longleftrightarrow> length (HANDLERS s) = 256 \<and> (\<forall>v<256. \<not> fst (HANDLERS s ! v))"

definition handler_at :: "'w isr_state \<Rightarrow> nat \<Rightarrow> 'w handler option" where
  "handler_at s v = snd (HANDLERS s ! v)"

lemma unat_u8 [simp]: "unat (v :: u8) < 256"
  using unsigned_less[of v, where ?'a = nat] by simp

lemma slot_lock_free:
  assumes "handlers_ok s" "v < 256"
  shows "slot_lock v s = Some (handler_at s v, s\<lparr>HANDLERS := (HANDLERS s)[v := (True, handler_at s v)]\<rparr>)"
  using assms by (cases "HANDLERS s ! v") (auto simp: slot_lock_def handlers_ok_def handler_at_def SpinLock_lock_free)

lemma install_handler_eq:
  assumes "handlers_ok s"
  shows "install_handler v h s = Some (s\<lparr>HANDLERS := (HANDLERS s)[unat v := (False, Some h)]\<rparr>)"
  by (simp add: install_handler_def slot_lock_free[OF assms] slot_release_def SpinLock_unlock_def)

lemma clear_handler_eq:
  assumes "handlers_ok s"
  shows "clear_handler v s = Some (s\<lparr>HANDLERS := (HANDLERS s)[unat v := (False, None)]\<rparr>)"
  by (simp add: clear_handler_def slot_lock_free[OF assms] slot_release_def SpinLock_unlock_def)

lemma restore_slot:
  assumes "handlers_ok s" "v < 256"
  shows "(HANDLERS s)[v := (False, handler_at s v)] = HANDLERS s"
  using assms by (simp add: handlers_ok_def handler_at_def list_update_same_conv prod_eq_iff)

lemma is_handler_installed_eq:
  assumes "handlers_ok s"
  shows "is_handler_installed v s = Some (handler_at s (unat v) \<noteq> None, s)"
  using restore_slot[OF assms unat_u8, of v]
  by (simp add: is_handler_installed_def slot_lock_free[OF assms] slot_release_def SpinLock_unlock_def)

lemma isr_handler_irq:
  assumes "handlers_ok s" "32 \<le> unat (vector f)" "unat (vector f) < 256" "unat (vector f) \<noteq> 128"
  shows "isr_handler f s = (case handler_at s (unat (vector f)) of
      Some h \<Rightarrow> map_option (\<lambda>(f, w). (f, s\<lparr>world := w\<rparr>)) (h f (world s))
    | None \<Rightarrow> Some (f, emit (Unhandled f) s))"
  using assms restore_slot[OF assms(1,3)] slot_lock_free[OF assms(1,3)]
  by (cases s, cases "handler_at s (unat (vector f))")
    (auto simp: isr_handler_def slot_release_def SpinLock_unlock_def emit_def Let_def map_option_case split: option.splits)

lemma handlers_ok_update:
  "handlers_ok s \<Longrightarrow> handlers_ok (s\<lparr>HANDLERS := (HANDLERS s)[unat (v :: u8) := (False, x)]\<rparr>)"
  by (simp add: handlers_ok_def nth_list_update)

lemma handler_at_update:
  "handlers_ok s \<Longrightarrow> handler_at (s\<lparr>HANDLERS := (HANDLERS s)[unat (v :: u8) := (False, x)]\<rparr>) u =
     (if u = unat v then x else handler_at s u)"
  by (simp add: handlers_ok_def handler_at_def)

text \<open>A sequence of the operations on the table, as drivers issue them, and the handler it leaves at a vector.\<close>

datatype 'w handler_op = Install u8 "'w handler" | Clear u8 | Query u8

fun handler_step :: "'w handler_op \<Rightarrow> 'w isr_state \<Rightarrow> 'w isr_state option" where
  "handler_step (Install v h) s = install_handler v h s"
| "handler_step (Clear v) s = clear_handler v s"
| "handler_step (Query v) s = map_option snd (is_handler_installed v s)"

fun handler_steps :: "'w handler_op list \<Rightarrow> 'w isr_state \<Rightarrow> 'w isr_state option" where
  "handler_steps [] s = Some s"
| "handler_steps (op # ops) s = do { s \<leftarrow> handler_step op s; handler_steps ops s }"

fun last_handler :: "u8 \<Rightarrow> 'w handler option \<Rightarrow> 'w handler_op list \<Rightarrow> 'w handler option" where
  "last_handler u h [] = h"
| "last_handler u h (Install v h' # ops) = last_handler u (if v = u then Some h' else h) ops"
| "last_handler u h (Clear v # ops) = last_handler u (if v = u then None else h) ops"
| "last_handler u h (Query v # ops) = last_handler u h ops"

lemma handler_steps_ok:
  assumes "handlers_ok s"
  shows "\<exists>H. handler_steps ops s = Some (s\<lparr>HANDLERS := H\<rparr>) \<and> handlers_ok (s\<lparr>HANDLERS := H\<rparr>) \<and>
    (\<forall>u :: u8. handler_at (s\<lparr>HANDLERS := H\<rparr>) (unat u) = last_handler u (handler_at s (unat u)) ops)"
  using assms
proof (induction ops arbitrary: s)
  case Nil
  then show ?case by (intro exI[of _ "HANDLERS s"]) simp
next
  case (Cons op ops)
  let ?put = "\<lambda>v x. s\<lparr>HANDLERS := (HANDLERS s)[unat (v :: u8) := (False, x)]\<rparr>"
  show ?case
  proof (cases op)
    case (Install v h)
    from Cons.IH[OF handlers_ok_update[OF Cons.prems, of v "Some h"]] show ?thesis
      using Install by (auto simp: install_handler_eq[OF Cons.prems] handler_at_update[OF Cons.prems] unat_eq_iff)
  next
    case (Clear v)
    from Cons.IH[OF handlers_ok_update[OF Cons.prems, of v None]] show ?thesis
      using Clear by (auto simp: clear_handler_eq[OF Cons.prems] handler_at_update[OF Cons.prems] unat_eq_iff)
  next
    case (Query v)
    then show ?thesis using Cons.IH[OF Cons.prems] by (simp add: is_handler_installed_eq[OF Cons.prems])
  qed
qed

text \<open>
  C31. The table of handlers.  Any sequence of \<open>install_handler\<close>, \<open>clear_handler\<close> and \<open>is_handler_installed\<close> returns, with every
  slot unlocked and nothing but the table changed.  Afterwards each vector has the handler that was installed last for
  that very vector, unless it was cleared since, or the one it had before when none of the operations named it:
  \<open>is_handler_installed\<close> tells whether there is one, and an interrupt runs
  exactly that handler, on the frame and the state it finds, and leaves the table as it was; with
  none the interrupt is only reported.
\<close>

theorem handlers_correct:
  assumes "handlers_ok s"
  shows "\<exists>H. handler_steps ops s = Some (s\<lparr>HANDLERS := H\<rparr>) \<and> handlers_ok (s\<lparr>HANDLERS := H\<rparr>) \<and>
    (\<forall>u. let h = last_handler u (handler_at s (unat u)) ops; s' = s\<lparr>HANDLERS := H\<rparr> in
       is_handler_installed u s' = Some (h \<noteq> None, s') \<and>
       (32 \<le> u \<and> u \<noteq> 0x80 \<longrightarrow> (\<forall>f. vector f = ucast u \<longrightarrow> isr_handler f s' =
          (case h of Some h \<Rightarrow> map_option (\<lambda>(f, w). (f, s'\<lparr>world := w\<rparr>)) (h f (world s))
           | None \<Rightarrow> Some (f, emit (Unhandled f) s')))))"
proof -
  obtain H where H: "handler_steps ops s = Some (s\<lparr>HANDLERS := H\<rparr>)" "handlers_ok (s\<lparr>HANDLERS := H\<rparr>)"
    "\<And>u :: u8. handler_at (s\<lparr>HANDLERS := H\<rparr>) (unat u) = last_handler u (handler_at s (unat u)) ops"
    using handler_steps_ok[OF assms, of ops] by blast
  have "isr_handler f (s\<lparr>HANDLERS := H\<rparr>) = (case last_handler u (handler_at s (unat u)) ops of
      Some h \<Rightarrow> map_option (\<lambda>(f, w). (f, s\<lparr>HANDLERS := H, world := w\<rparr>)) (h f (world s))
    | None \<Rightarrow> Some (f, emit (Unhandled f) (s\<lparr>HANDLERS := H\<rparr>)))" if "32 \<le> u" "u \<noteq> 0x80" "vector f = ucast u" for u :: u8 and f
  proof -
    have u: "unat (vector f) = unat u"
      using that(3) less_trans[OF unat_u8[of u], where z = "2 ^ 64"] by (simp add: unsigned_ucast_eq take_bit_nat_eq_self_iff)
    have "unat u \<noteq> 128" using that(2) unat_eq_iff[of u 128] by simp
    then have r: "32 \<le> unat (vector f)" "unat (vector f) < 256" "unat (vector f) \<noteq> 128"
      using that(1) unfolding u by (simp_all add: word_le_nat_alt)
    show ?thesis using isr_handler_irq[OF H(2) r] by (simp add: u H(3) split: option.split)
  qed
  then show ?thesis using H by (intro exI[of _ H]) (simp add: is_handler_installed_eq[OF H(2)] Let_def)
qed

text \<open>While a slot is locked its interrupt spins: nothing can unlock the slot on this processor.\<close>

lemma isr_handler_held:
  assumes "idx (HANDLERS s) (unat (vector f)) = Some (True, h)" "32 \<le> unat (vector f)" "unat (vector f) \<noteq> 128"
  shows "isr_handler f s = None"
proof -
  have "SpinLock_lock [] True = None"
    using SpinLock_lock_returns[of "[]" True] by (cases "SpinLock_lock [] True") auto
  then show ?thesis using assms by (simp add: isr_handler_def slot_lock_def)
qed

section \<open>Instances\<close>

definition frame_at :: "u64 \<Rightarrow> InterruptFrame" where
  "frame_at v = \<lparr>r15 = 15, r14 = 14, r13 = 13, r12 = 12, r11 = 11, r10 = 10, r9 = 9, r8 = 8, rbp = 7, rdi = 6, rsi = 5,
     rdx = 4, rcx = 3, rbx = 2, rax = 1, vector = v, error_code = 0, rip = 0x1000, cs = 8, rflags = 0x202,
     rsp = 0x8000, ss = 16\<rparr>"

definition no_handlers :: "nat isr_state" where
  "no_handlers = \<lparr>HANDLERS = HANDLERS_INIT, events = [], world = 0\<rparr>"

lemma no_handlers_ok: "handlers_ok no_handlers"
  by (simp add: handlers_ok_def no_handlers_def HANDLERS_INIT_def SpinLock_INIT_def)

theorem handlers_correct_witness:
  "\<exists>H. handler_steps [Install 0x29 (\<lambda>f n. Some (f, n + 1)), Install 0x30 (\<lambda>f n. None), Install 0x29 (\<lambda>f n. Some (f, n + 2)), Clear 0x30]
       no_handlers = Some (no_handlers\<lparr>HANDLERS := H\<rparr>) \<and>
     isr_handler (frame_at 0x29) (no_handlers\<lparr>HANDLERS := H\<rparr>) = Some (frame_at 0x29, no_handlers\<lparr>HANDLERS := H, world := 2\<rparr>) \<and>
     is_handler_installed 0x30 (no_handlers\<lparr>HANDLERS := H\<rparr>) = Some (False, no_handlers\<lparr>HANDLERS := H\<rparr>)"
proof -
  let ?ops = "[Install 0x29 (\<lambda>f n. Some (f, n + 1)), Install 0x30 (\<lambda>f n. None), Install 0x29 (\<lambda>f n. Some (f, n + 2)), Clear 0x30]"
  obtain H where H: "handler_steps ?ops no_handlers = Some (no_handlers\<lparr>HANDLERS := H\<rparr>)"
    and a: "\<And>u. is_handler_installed u (no_handlers\<lparr>HANDLERS := H\<rparr>) =
        Some (last_handler u (handler_at no_handlers (unat u)) ?ops \<noteq> None, no_handlers\<lparr>HANDLERS := H\<rparr>)"
    and b: "\<And>u f. 32 \<le> u \<and> u \<noteq> 0x80 \<Longrightarrow> vector f = ucast u \<Longrightarrow> isr_handler f (no_handlers\<lparr>HANDLERS := H\<rparr>) =
        (case last_handler u (handler_at no_handlers (unat u)) ?ops of
          Some h \<Rightarrow> map_option (\<lambda>(f, w). (f, no_handlers\<lparr>HANDLERS := H, world := w\<rparr>)) (h f (world no_handlers))
        | None \<Rightarrow> Some (f, emit (Unhandled f) (no_handlers\<lparr>HANDLERS := H\<rparr>)))"
    using handlers_correct[OF no_handlers_ok, of ?ops] unfolding Let_def by blast
  show ?thesis
    using H a[of "0x30"] b[of "0x29" "frame_at 0x29"] by (intro exI[of _ H]) (simp add: frame_at_def no_handlers_def word_le_nat_alt)
qed

end
