(* ===== verification/Apic.thy ===== *)
theory Apic
  imports Devices Idt Vmm
begin

text \<open>
  Interrupt controllers, kernel/src/apic.rs: the search of the ACPI table for the I/O APIC and for
  overrides of interrupt lines, and the initialisation that routes the keyboard.  The table, the local APIC and the I/O APIC's
  registers belong to third-party packages and are parameters.
\<close>

datatype ApicError = AcpiTableNotFound | IoApicNotFound | ApicCouldNotMap MapError

text \<open>The entries of the table that the code looks at, with the fields it reads.\<close>

datatype madt_entry = MADT_IOAPIC u32 u32 | MADT_OVERRIDE u8 u32 | MADT_OTHER

datatype decision = BREAK | CONTINUE

definition ioapic_cb :: "madt_entry \<Rightarrow> (u64 \<times> u32) option \<Rightarrow> decision \<times> (u64 \<times> u32) option" where
  "ioapic_cb hdr out = (case hdr of
     MADT_IOAPIC address gsi_base \<Rightarrow> (BREAK, Some (ucast address, gsi_base))
   | _ \<Rightarrow> (CONTINUE, out))"

text \<open>\<open>found\<close> says whether the table is there; \<open>each\<close> is \<open>uacpi_for_each_subtable\<close> on it.\<close>

definition find_ioapic ::
    "bool \<Rightarrow> ((madt_entry \<Rightarrow> (u64 \<times> u32) option \<Rightarrow> decision \<times> (u64 \<times> u32) option) \<Rightarrow> (u64 \<times> u32) option \<Rightarrow> (u64 \<times> u32) option) \<Rightarrow>
     ApicError + (u64 \<times> u32)" where
  "find_ioapic found each =
     (if \<not> found then Inl AcpiTableNotFound
      else case each ioapic_cb None of None \<Rightarrow> Inl IoApicNotFound | Some r \<Rightarrow> Inr r)"

record IsoCtx =
  iso_source :: u8
  iso_gsi :: u32

definition iso_cb :: "madt_entry \<Rightarrow> IsoCtx \<Rightarrow> decision \<times> IsoCtx" where
  "iso_cb hdr ctx = (case hdr of
     MADT_OVERRIDE source gsi \<Rightarrow> if source = iso_source ctx then (BREAK, ctx\<lparr>iso_gsi := gsi\<rparr>) else (CONTINUE, ctx)
   | _ \<Rightarrow> (CONTINUE, ctx))"

definition resolve_isa_irq :: "bool \<Rightarrow> ((madt_entry \<Rightarrow> IsoCtx \<Rightarrow> decision \<times> IsoCtx) \<Rightarrow> IsoCtx \<Rightarrow> IsoCtx) \<Rightarrow> u8 \<Rightarrow> u32" where
  "resolve_isa_irq found each source =
     (if \<not> found then ucast source
      else iso_gsi (each iso_cb \<lparr>iso_source = source, iso_gsi = ucast source\<rparr>))"

section \<open>Initialisation\<close>

record 'd apic =
  lapic_attach :: "'d \<Rightarrow> 'd"
  rdmsr_apicid :: "'d \<Rightarrow> u64 \<times> 'd"
  wrmsr_eoi :: "'d \<Rightarrow> 'd"
  ioapic_enable :: "u64 \<Rightarrow> u8 \<Rightarrow> u8 \<Rightarrow> 'd \<Rightarrow> 'd"

text \<open>The handler of the keyboard reads the scan code and signals the end of the interrupt.\<close>

definition keyboard_handler :: "'d io \<Rightarrow> 'd apic \<Rightarrow> 'd handler" where
  "keyboard_handler D A frame d = (let (scancode, d) = inb D 0x60 d in Some (frame, wrmsr_eoi A d))"

text \<open>
  The state is the handler table, whose handlers act on the devices, the memory and the interrupt flag; \<open>scan\<close> and
  \<open>scan_iso\<close> are the two iterations over the table.
\<close>

definition apic_init ::
    "x86 \<Rightarrow> irq \<Rightarrow> 'd io \<Rightarrow> 'd apic \<Rightarrow> bool \<Rightarrow>
     ((madt_entry \<Rightarrow> (u64 \<times> u32) option \<Rightarrow> decision \<times> (u64 \<times> u32) option) \<Rightarrow> (u64 \<times> u32) option \<Rightarrow> (u64 \<times> u32) option) \<Rightarrow>
     ((madt_entry \<Rightarrow> IsoCtx \<Rightarrow> decision \<times> IsoCtx) \<Rightarrow> IsoCtx \<Rightarrow> IsoCtx) \<Rightarrow>
     'd isr_state \<times> 'a vkernel_scheme \<times> bool \<Rightarrow> ((ApicError + unit) \<times> 'd isr_state \<times> 'a vkernel_scheme \<times> bool) option" where
  "apic_init X Q D A found scan scan_iso = (\<lambda>(i, s, f). do {
     let d = outb D 0xA1 0xFF (outb D 0x21 0xFF (world i));
     let d = lapic_attach A d;
     let (bsp, d) = rdmsr_apicid A d;
     let bsp_id = (ucast bsp :: u32);
     i \<leftarrow> install_handler 0x21 (keyboard_handler D A) (i\<lparr>world := d\<rparr>);
     (case find_ioapic found scan of
        Inl e \<Rightarrow> Some (Inl e, i, s, f)
      | Inr (phys, base_gsi) \<Rightarrow> do {
          let kb_gsi = resolve_isa_irq found scan_iso 1;
          check (base_gsi \<le> kb_gsi);
          (r, s) \<leftarrow> vmm_map_hhdm X phys (FLAG_P X OR FLAG_RW X OR FLAG_XD X OR FLAG_PCD X OR FLAG_PWT X) Base s;
          (case r of
             Inl e \<Rightarrow> Some (Inl (ApicCouldNotMap e), i, s, f)
           | Inr virt \<Rightarrow>
               let i = i\<lparr>world := ioapic_enable A virt (ucast (kb_gsi - base_gsi)) (ucast bsp_id) (world i)\<rparr>
               in Some (Inr (), i, s, irq_enable Q f)) }) })"

section \<open>The searches\<close>

text \<open>What the code relies on: the entries are visited in order until the callback says stop.\<close>

primrec scan_entries :: "madt_entry list \<Rightarrow> (madt_entry \<Rightarrow> 'u \<Rightarrow> decision \<times> 'u) \<Rightarrow> 'u \<Rightarrow> 'u" where
  "scan_entries [] cb u = u"
| "scan_entries (e # es) cb u = (case cb e u of (BREAK, u) \<Rightarrow> u | (CONTINUE, u) \<Rightarrow> scan_entries es cb u)"

text \<open>The first I/O APIC of the table is found, and only then is the search without result.\<close>

lemma find_ioapic_first:
  assumes "each = scan_entries es"
  shows "find_ioapic True each =
    (case filter (\<lambda>e. \<exists>a g. e = MADT_IOAPIC a g) es of
       MADT_IOAPIC a g # _ \<Rightarrow> Inr (ucast a, g) | _ \<Rightarrow> Inl IoApicNotFound)"
proof -
  have "scan_entries es ioapic_cb None =
      (case filter (\<lambda>e. \<exists>a g. e = MADT_IOAPIC a g) es of MADT_IOAPIC a g # _ \<Rightarrow> Some (ucast a, g) | _ \<Rightarrow> None)"
    by (induction es) (auto simp: ioapic_cb_def split: madt_entry.splits)
  then show ?thesis
    by (auto simp: find_ioapic_def assms split: list.splits madt_entry.splits)
qed

text \<open>A line is the first override for it in the table, and itself when there is none.\<close>

lemma resolve_isa_irq_first:
  assumes "each = scan_entries es"
  shows "resolve_isa_irq True each source =
    (case filter (\<lambda>e. \<exists>g. e = MADT_OVERRIDE source g) es of MADT_OVERRIDE _ g # _ \<Rightarrow> g | _ \<Rightarrow> ucast source)"
proof -
  have "iso_gsi (scan_entries es iso_cb \<lparr>iso_source = source, iso_gsi = k\<rparr>) =
      (case filter (\<lambda>e. \<exists>g. e = MADT_OVERRIDE source g) es of MADT_OVERRIDE _ g # _ \<Rightarrow> g | _ \<Rightarrow> k)" for k
    by (induction es) (auto simp: iso_cb_def split: madt_entry.splits)
  then show ?thesis by (simp add: resolve_isa_irq_def assms)
qed

text \<open>
  After a successful initialisation an interrupt on the keyboard's vector reads the scan code and is acknowledged, whatever was
  installed before, and interrupts are on.
\<close>

lemma keyboard_served:
  assumes Q: "irq_ok Q" and h: "handlers_ok i" and ok: "apic_init X Q D A found scan scan_iso (i, s, f) = Some (Inr (), i', s', f')"
    and v: "vector fr = 0x21"
  shows "f' \<and> isr_handler fr i' = Some (fr, i'\<lparr>world := wrmsr_eoi A (snd (inb D 0x60 (world i')))\<rparr>)"
proof -
  obtain d' where i': "i' = i\<lparr>HANDLERS := (HANDLERS i)[0x21 := (False, Some (keyboard_handler D A))], world := d'\<rparr>" and f': f'
    using ok irq_simps(3)[OF Q] h
    by (auto simp: apic_init_def install_handler_eq handlers_ok_def Let_def split: prod.splits sum.splits if_splits bind_splits)
  have "handlers_ok i'" "handler_at i' 0x21 = Some (keyboard_handler D A)"
    using h by (auto simp: i' handlers_ok_def handler_at_def nth_list_update)
  then show ?thesis using f' isr_handler_irq[of i' fr] v
    by (simp add: keyboard_handler_def Let_def split_beta)
qed

end
