(* ===== verification/Uacpi.thy ===== *)
theory Uacpi
  imports Mm Pci Tsc Idt
begin

text \<open>
  The host interface of the ACPI library, kernel/src/acpi/uacpi.rs: what the library, a third-party package, asks of the
  kernel.  Each function acts on the part of the kernel it calls into: memory, clock, interrupt flag, handler
  table or devices.  A pointer argument that is written through is a result here, a handle is the object behind it, and a null
  handle is \<open>None\<close>.
\<close>

datatype uacpi_status = STATUS_OK | INVALID_ARGUMENT | NOT_FOUND | TIMEOUT | ALREADY_EXISTS | UNIMPLEMENTED

section \<open>Tables and memory\<close>

text \<open>The responses of the boot loader are \<open>response\<close> and \<open>revision\<close>; the second result is what is written.\<close>

definition uacpi_kernel_get_rsdp :: "u64 option \<Rightarrow> u64 option \<Rightarrow> u64 \<Rightarrow> bool \<Rightarrow> uacpi_status \<times> u64 option" where
  "uacpi_kernel_get_rsdp response revision hhdm null =
     (if null then (INVALID_ARGUMENT, None)
      else case response of
        Some address \<Rightarrow> (STATUS_OK, Some (if revision = Some 3 then address else address - hhdm))
      | None \<Rightarrow> (NOT_FOUND, None))"

definition device_flags :: "x86 \<Rightarrow> u64" where
  "device_flags X = FLAG_P X OR FLAG_RW X OR FLAG_XD X OR FLAG_PCD X OR FLAG_PWT X"

partial_function (option) uacpi_map_loop ::
    "x86 \<Rightarrow> u64 \<Rightarrow> u64 \<Rightarrow> u64 \<Rightarrow> 'a vkernel_scheme \<Rightarrow> (bool \<times> 'a vkernel_scheme) option" where
  "uacpi_map_loop X hhdm last_page phys s =
     (if phys < last_page then do {
        virt \<leftarrow> add64 phys hhdm;
        (r, s) \<leftarrow> vmm_map X virt phys (device_flags X) Base s;
        if r = Inr () \<or> r = Inl AlreadyMapped then do {
          phys \<leftarrow> add64 phys (BASE_PAGE_SIZE X);
          uacpi_map_loop X hhdm last_page phys s }
        else Some (False, s) }
      else Some (True, s))"

definition uacpi_kernel_map :: "x86 \<Rightarrow> u64 \<Rightarrow> u64 \<Rightarrow> 'a vkernel_scheme \<Rightarrow> (u64 \<times> 'a vkernel_scheme) option" where
  "uacpi_kernel_map X addr len s = do {
     let hhdm = HHDM_OFFSET s;
     phys \<leftarrow> align_down addr (BASE_PAGE_SIZE X);
     top_addr \<leftarrow> add64 addr len;
     last_page \<leftarrow> align_up top_addr (BASE_PAGE_SIZE X);
     (ok, s) \<leftarrow> uacpi_map_loop X hhdm last_page phys s;
     if ok then do { p \<leftarrow> add64 addr hhdm; Some (p, s) } else Some (0, s) }"

partial_function (option) uacpi_unmap_loop ::
    "x86 \<Rightarrow> u64 \<Rightarrow> u64 \<Rightarrow> 'a vkernel_scheme \<Rightarrow> 'a vkernel_scheme option" where
  "uacpi_unmap_loop X last_page virt s =
     (if virt < last_page then do {
        (r, s) \<leftarrow> vmm_unmap X virt Base s;
        virt \<leftarrow> add64 virt (BASE_PAGE_SIZE X);
        uacpi_unmap_loop X last_page virt s }
      else Some s)"

definition uacpi_kernel_unmap :: "x86 \<Rightarrow> u64 \<Rightarrow> u64 \<Rightarrow> 'a vkernel_scheme \<Rightarrow> 'a vkernel_scheme option" where
  "uacpi_kernel_unmap X addr len s = do {
     virt \<leftarrow> align_down addr (BASE_PAGE_SIZE X);
     top_addr \<leftarrow> add64 addr len;
     last_page \<leftarrow> align_up top_addr (BASE_PAGE_SIZE X);
     uacpi_unmap_loop X last_page virt s }"

definition uacpi_kernel_alloc :: "u64 \<Rightarrow> 'a hkernel_scheme \<Rightarrow> (u64 \<times> 'a hkernel_scheme) option" where
  "uacpi_kernel_alloc sz s = heap_alloc \<lparr>lsize = max sz 1, lalign = 16\<rparr> s"

definition uacpi_kernel_free :: "u64 \<Rightarrow> u64 \<Rightarrow> 'a hkernel_scheme \<Rightarrow> 'a hkernel_scheme option" where
  "uacpi_kernel_free mem size_hint s =
     (if mem \<noteq> 0 then heap_dealloc mem \<lparr>lsize = max size_hint 1, lalign = 16\<rparr> s else Some s)"

section \<open>Configuration space and ports\<close>

definition uacpi_kernel_pci_read8 :: "'d io \<Rightarrow> u64 \<Rightarrow> PciAddress \<Rightarrow> u64 \<Rightarrow> 'd \<Rightarrow> (uacpi_status \<times> u32 \<times> 'd) option" where
  "uacpi_kernel_pci_read8 D mcfg device offset d = do { (v, d) \<leftarrow> pci_read D mcfg 1 device offset d; Some (STATUS_OK, v, d) }"

definition uacpi_kernel_pci_read16 :: "'d io \<Rightarrow> u64 \<Rightarrow> PciAddress \<Rightarrow> u64 \<Rightarrow> 'd \<Rightarrow> (uacpi_status \<times> u32 \<times> 'd) option" where
  "uacpi_kernel_pci_read16 D mcfg device offset d = do { (v, d) \<leftarrow> pci_read D mcfg 2 device offset d; Some (STATUS_OK, v, d) }"

definition uacpi_kernel_pci_read32 :: "'d io \<Rightarrow> u64 \<Rightarrow> PciAddress \<Rightarrow> u64 \<Rightarrow> 'd \<Rightarrow> (uacpi_status \<times> u32 \<times> 'd) option" where
  "uacpi_kernel_pci_read32 D mcfg device offset d = do { (v, d) \<leftarrow> pci_read D mcfg 4 device offset d; Some (STATUS_OK, v, d) }"

definition uacpi_kernel_pci_write8 :: "'d io \<Rightarrow> u64 \<Rightarrow> PciAddress \<Rightarrow> u64 \<Rightarrow> u8 \<Rightarrow> 'd \<Rightarrow> (uacpi_status \<times> 'd) option" where
  "uacpi_kernel_pci_write8 D mcfg device offset v d = do { d \<leftarrow> pci_write D mcfg 1 device offset (ucast v) d; Some (STATUS_OK, d) }"

definition uacpi_kernel_pci_write16 :: "'d io \<Rightarrow> u64 \<Rightarrow> PciAddress \<Rightarrow> u64 \<Rightarrow> u16 \<Rightarrow> 'd \<Rightarrow> (uacpi_status \<times> 'd) option" where
  "uacpi_kernel_pci_write16 D mcfg device offset v d = do { d \<leftarrow> pci_write D mcfg 2 device offset (ucast v) d; Some (STATUS_OK, d) }"

definition uacpi_kernel_pci_write32 :: "'d io \<Rightarrow> u64 \<Rightarrow> PciAddress \<Rightarrow> u64 \<Rightarrow> u32 \<Rightarrow> 'd \<Rightarrow> (uacpi_status \<times> 'd) option" where
  "uacpi_kernel_pci_write32 D mcfg device offset v d = do { d \<leftarrow> pci_write D mcfg 4 device offset v d; Some (STATUS_OK, d) }"

definition uacpi_kernel_io_map :: "u64 \<Rightarrow> u64 \<Rightarrow> uacpi_status \<times> u64" where
  "uacpi_kernel_io_map base len = (STATUS_OK, base)"

definition uacpi_kernel_io_read8 :: "'d io \<Rightarrow> u64 \<Rightarrow> u64 \<Rightarrow> 'd \<Rightarrow> (uacpi_status \<times> u8 \<times> 'd) option" where
  "uacpi_kernel_io_read8 D handle offset d = do {
     p \<leftarrow> add16 (ucast handle) (ucast offset); let (v, d) = inb D p d; Some (STATUS_OK, v, d) }"

definition uacpi_kernel_io_read16 :: "'d io \<Rightarrow> u64 \<Rightarrow> u64 \<Rightarrow> 'd \<Rightarrow> (uacpi_status \<times> u16 \<times> 'd) option" where
  "uacpi_kernel_io_read16 D handle offset d = do {
     p \<leftarrow> add16 (ucast handle) (ucast offset); let (v, d) = inw D p d; Some (STATUS_OK, v, d) }"

definition uacpi_kernel_io_read32 :: "'d io \<Rightarrow> u64 \<Rightarrow> u64 \<Rightarrow> 'd \<Rightarrow> (uacpi_status \<times> u32 \<times> 'd) option" where
  "uacpi_kernel_io_read32 D handle offset d = do {
     p \<leftarrow> add16 (ucast handle) (ucast offset); let (v, d) = inl D p d; Some (STATUS_OK, v, d) }"

definition uacpi_kernel_io_write8 :: "'d io \<Rightarrow> u64 \<Rightarrow> u64 \<Rightarrow> u8 \<Rightarrow> 'd \<Rightarrow> (uacpi_status \<times> 'd) option" where
  "uacpi_kernel_io_write8 D handle offset v d = do {
     p \<leftarrow> add16 (ucast handle) (ucast offset); Some (STATUS_OK, outb D p v d) }"

definition uacpi_kernel_io_write16 :: "'d io \<Rightarrow> u64 \<Rightarrow> u64 \<Rightarrow> u16 \<Rightarrow> 'd \<Rightarrow> (uacpi_status \<times> 'd) option" where
  "uacpi_kernel_io_write16 D handle offset v d = do {
     p \<leftarrow> add16 (ucast handle) (ucast offset); Some (STATUS_OK, outw D p v d) }"

definition uacpi_kernel_io_write32 :: "'d io \<Rightarrow> u64 \<Rightarrow> u64 \<Rightarrow> u32 \<Rightarrow> 'd \<Rightarrow> (uacpi_status \<times> 'd) option" where
  "uacpi_kernel_io_write32 D handle offset v d = do {
     p \<leftarrow> add16 (ucast handle) (ucast offset); Some (STATUS_OK, outl D p v d) }"

section \<open>Time\<close>

definition uacpi_kernel_get_nanoseconds_since_boot :: "'d io \<Rightarrow> 'd tsc \<Rightarrow> (u64 \<times> 'd tsc) option" where
  "uacpi_kernel_get_nanoseconds_since_boot D s = current_time_ns D s"

text \<open>The waiting loop of \<open>stall\<close> and \<open>sleep\<close>; \<open>None\<close> is a clock that stands still, or a panic.\<close>

partial_function (option) wait_until :: "'d io \<Rightarrow> u64 \<Rightarrow> 'd tsc \<Rightarrow> 'd tsc option" where
  "wait_until D limit s = do { (now, s) \<leftarrow> current_time_ns D s; if now < limit then wait_until D limit s else Some s }"

definition uacpi_kernel_stall :: "'d io \<Rightarrow> u8 \<Rightarrow> 'd tsc \<Rightarrow> 'd tsc option" where
  "uacpi_kernel_stall D usec s = do {
     (start, s) \<leftarrow> current_time_ns D s;
     n \<leftarrow> mul64 (ucast usec) 1000;
     limit \<leftarrow> add64 start n;
     wait_until D limit s }"

definition uacpi_kernel_sleep :: "'d io \<Rightarrow> u64 \<Rightarrow> 'd tsc \<Rightarrow> 'd tsc option" where
  "uacpi_kernel_sleep D msec s = do {
     (start, s) \<leftarrow> current_time_ns D s;
     n \<leftarrow> mul64 msec 1000000;
     limit \<leftarrow> add64 start n;
     wait_until D limit s }"

section \<open>Mutexes and events\<close>

text \<open>
  A mutex is a \<open>SpinLock\<close>, an event its counter.  While a processor sleeps, others may use the object: \<open>other\<close> is
  what they do to it in one sleep.
\<close>

partial_function (option) acquire_loop ::
    "'d io \<Rightarrow> (bool \<Rightarrow> bool) \<Rightarrow> u16 \<Rightarrow> u64 \<Rightarrow> bool \<Rightarrow> 'd tsc \<Rightarrow> (bool \<times> bool \<times> 'd tsc) option" where
  "acquire_loop D other timeout time l s = do {
     (now, s) \<leftarrow> current_time_ns D s;
     n \<leftarrow> mul64 (ucast timeout) 1000000;
     limit \<leftarrow> add64 time n;
     if now < limit then
       (case SpinLock_try_lock l of
          (got, l) \<Rightarrow> if got then Some (True, l, s)
            else do { s \<leftarrow> uacpi_kernel_sleep D 1 s; acquire_loop D other timeout time (other l) s })
     else Some (False, l, s) }"

definition uacpi_kernel_acquire_mutex ::
    "'d io \<Rightarrow> (bool \<Rightarrow> bool) \<Rightarrow> u16 \<Rightarrow> bool \<Rightarrow> 'd tsc \<Rightarrow> (uacpi_status \<times> bool \<times> 'd tsc) option" where
  "uacpi_kernel_acquire_mutex D other timeout l s =
     (if timeout = 0xFFFF then do { l \<leftarrow> SpinLock_lock [] l; Some (STATUS_OK, l, s) }
      else do {
        (locked, l, s) \<leftarrow>
          (if timeout = 0 then (case SpinLock_try_lock l of (got, l) \<Rightarrow> Some (got, l, s))
           else do { (time, s) \<leftarrow> current_time_ns D s; acquire_loop D other timeout time l s });
        Some (if locked then STATUS_OK else TIMEOUT, l, s) })"

definition uacpi_kernel_release_mutex :: "bool \<Rightarrow> bool" where
  "uacpi_kernel_release_mutex l = SpinLock_unlock l"

text \<open>
  Between the load and the exchange of \<open>decrement\<close> another processor may store to the counter; the list gives
  the value it stores at each attempt, as long as it does.
\<close>

fun SimpleEvent_decrement :: "u64 list \<Rightarrow> u64 \<Rightarrow> bool \<times> u64" where
  "SimpleEvent_decrement [] c = (if c = 0 then (False, c) else (c \<noteq> 0, c - 1))"
| "SimpleEvent_decrement (c' # stores) c =
     (if c = 0 then (False, c)
      else if c' = c then (c \<noteq> 0, c - 1)
      else SimpleEvent_decrement stores c')"

partial_function (option) wait_forever ::
    "'d io \<Rightarrow> (u64 \<Rightarrow> u64) \<Rightarrow> u64 \<Rightarrow> 'd tsc \<Rightarrow> (u64 \<times> 'd tsc) option" where
  "wait_forever D other c s =
     (case SimpleEvent_decrement [] c of
        (got, c) \<Rightarrow> if got then Some (c, s)
          else do { s \<leftarrow> uacpi_kernel_sleep D 10 s; wait_forever D other (other c) s })"

text \<open>\<open>remaining\<close> is an \<open>i64\<close> between -9 and 65534.\<close>

function wait_remaining ::
    "'d io \<Rightarrow> (u64 \<Rightarrow> u64) \<Rightarrow> int \<Rightarrow> u64 \<Rightarrow> 'd tsc \<Rightarrow> (bool \<times> u64 \<times> 'd tsc) option" where
  "wait_remaining D other remaining c s =
     (case SimpleEvent_decrement [] c of
        (got, c) \<Rightarrow> if got then Some (True, c, s)
          else if remaining \<le> 0 then Some (False, c, s)
          else do { s \<leftarrow> uacpi_kernel_sleep D 10 s; wait_remaining D other (remaining - 10) (other c) s })"
  by auto
termination by (relation "measure (\<lambda>(D, other, remaining, c, s). nat remaining)") auto

declare wait_remaining.simps [simp del]

definition uacpi_kernel_wait_for_event ::
    "'d io \<Rightarrow> (u64 \<Rightarrow> u64) \<Rightarrow> u16 \<Rightarrow> u64 \<Rightarrow> 'd tsc \<Rightarrow> (bool \<times> u64 \<times> 'd tsc) option" where
  "uacpi_kernel_wait_for_event D other timeout c s =
     (if timeout = 0xFFFF then map_option (Pair True) (wait_forever D other c s)
      else wait_remaining D other (uint timeout) c s)"

text \<open>\<open>fetch_add\<close> wraps around.\<close>

definition uacpi_kernel_signal_event :: "u64 \<Rightarrow> u64" where
  "uacpi_kernel_signal_event c = c + 1"

definition uacpi_kernel_reset_event :: "u64 \<Rightarrow> u64" where
  "uacpi_kernel_reset_event c = 0"

section \<open>Interrupts and spinlocks\<close>

definition uacpi_kernel_get_thread_id :: u64 where
  "uacpi_kernel_get_thread_id = 0"

definition uacpi_kernel_disable_interrupts :: "irq \<Rightarrow> bool \<Rightarrow> u64 \<times> bool" where
  "uacpi_kernel_disable_interrupts Q f =
     (let enabled = contains (rflags_read Q f) (FLAGS_IF Q) in (if enabled then 1 else 0, irq_disable Q f))"

definition uacpi_kernel_restore_interrupts :: "irq \<Rightarrow> u64 \<Rightarrow> bool \<Rightarrow> bool" where
  "uacpi_kernel_restore_interrupts Q state f = (if state \<noteq> 0 then irq_enable Q f else f)"

definition uacpi_kernel_lock_spinlock :: "irq \<Rightarrow> bool option \<times> bool \<Rightarrow> (u64 \<times> bool option \<times> bool) option" where
  "uacpi_kernel_lock_spinlock Q = (\<lambda>(handle, f). do {
     let (state, f) = uacpi_kernel_disable_interrupts Q f;
     handle \<leftarrow> (case handle of None \<Rightarrow> Some None | Some l \<Rightarrow> map_option Some (SpinLock_lock [] l));
     Some (state, handle, f) })"

definition uacpi_kernel_unlock_spinlock :: "irq \<Rightarrow> u64 \<Rightarrow> bool option \<times> bool \<Rightarrow> bool option \<times> bool" where
  "uacpi_kernel_unlock_spinlock Q flags = (\<lambda>(handle, f).
     (map_option SpinLock_unlock handle, uacpi_kernel_restore_interrupts Q flags f))"

text \<open>\<open>handler\<close> is the library's function pointer, if there is one, and \<open>ctx\<close> the value it asked to get.\<close>

definition uacpi_kernel_install_interrupt_handler ::
    "u32 \<Rightarrow> (u64 \<Rightarrow> 'w \<Rightarrow> 'w option) option \<Rightarrow> u64 \<Rightarrow> 'w isr_state \<Rightarrow> (uacpi_status \<times> u8 option \<times> 'w isr_state) option" where
  "uacpi_kernel_install_interrupt_handler irq handler ctx s = do {
     v \<leftarrow> add32 irq 0x20;
     let vec = ucast v;
     (installed, s) \<leftarrow> is_handler_installed vec s;
     if installed then Some (ALREADY_EXISTS, None, s)
     else do {
       s \<leftarrow> install_handler vec (\<lambda>frame w. case handler of
           Some h \<Rightarrow> map_option (Pair frame) (h ctx w)
         | None \<Rightarrow> Some (frame, w)) s;
       Some (STATUS_OK, Some vec, s) } }"

definition uacpi_kernel_uninstall_interrupt_handler :: "u64 \<Rightarrow> 'w isr_state \<Rightarrow> (uacpi_status \<times> 'w isr_state) option" where
  "uacpi_kernel_uninstall_interrupt_handler irq_handle s = do {
     let vec = ucast irq_handle;
     s \<leftarrow> clear_handler vec s;
     Some (STATUS_OK, s) }"

text \<open>The requests that the kernel does not support.\<close>

definition uacpi_kernel_handle_firmware_request :: uacpi_status where
  "uacpi_kernel_handle_firmware_request = UNIMPLEMENTED"

definition uacpi_kernel_schedule_work :: uacpi_status where
  "uacpi_kernel_schedule_work = UNIMPLEMENTED"

definition uacpi_kernel_wait_for_work_completion :: uacpi_status where
  "uacpi_kernel_wait_for_work_completion = UNIMPLEMENTED"

end
