(* ===== verification/Uacpi_Theorems.thy ===== *)
theory Uacpi_Theorems
  imports Uacpi Pci_Theorems Mm_Boot
begin

text \<open>The properties of the host interface: mappings for the ACPI library, waiting, and interrupt handlers.\<close>

section \<open>Waiting\<close>

text \<open>
  What the waiting loops rely on: up to a horizon, the counter is read as a number of ticks, every
  read finds it further on, and by no more than \<open>gap\<close> ticks.  The horizon is before the counter and
  the time in nanoseconds overflow.
\<close>

definition elapsed_ns :: "'d tsc \<Rightarrow> nat \<Rightarrow> nat" where
  "elapsed_ns s k = (k - unat (BOOT_TSC s)) * 1000000000 div unat (TSC_FREQUENCY s)"

definition paced :: "'d io \<Rightarrow> ('d \<Rightarrow> nat) \<Rightarrow> nat \<Rightarrow> nat \<Rightarrow> bool" where
  "paced D ticks gap horizon \<longleftrightarrow> horizon \<le> 2 ^ 64 \<and> (\<forall>d. ticks d < horizon \<longrightarrow>
     fst (rdtsc D d) = word_of_nat (ticks d) \<and> ticks d < ticks (snd (rdtsc D d)) \<and> ticks (snd (rdtsc D d)) \<le> ticks d + gap)"

definition clock_ok :: "'d tsc \<Rightarrow> nat \<Rightarrow> bool" where
  "clock_ok s horizon \<longleftrightarrow> TSC_FREQUENCY s \<noteq> 0 \<and> unat (BOOT_TSC s) \<le> horizon \<and> elapsed_ns s horizon < 2 ^ 64"

lemma elapsed_ns_mono: "k \<le> k' \<Longrightarrow> elapsed_ns s k \<le> elapsed_ns s k'"
  unfolding elapsed_ns_def by (intro div_le_mono mult_right_mono) auto

lemma read_clock:
  assumes p: "paced D ticks gap horizon" and c: "clock_ok s horizon"
    and k: "unat (BOOT_TSC s) \<le> ticks (dev s)" "ticks (dev s) < horizon"
  shows "\<exists>t. current_time_ns D s = Some (t, s\<lparr>dev := snd (rdtsc D (dev s))\<rparr>) \<and> unat t = elapsed_ns s (ticks (dev s))"
proof -
  have t: "fst (rdtsc D (dev s)) = word_of_nat (ticks (dev s))" "ticks (dev s) < 2 ^ 64"
    using p k(2) by (auto simp: paced_def)
  then have u: "unat (word_of_nat (ticks (dev s)) :: u64) = ticks (dev s)" by (simp add: unat_of_nat)
  have lt: "elapsed_ns s (ticks (dev s)) < 2 ^ 64"
    using elapsed_ns_mono[of "ticks (dev s)" horizon s] k(2) c by (simp add: clock_ok_def)
  have "BOOT_TSC s \<le> word_of_nat (ticks (dev s))" using k(1) u by (simp add: word_le_nat_alt)
  then have "current_time_ns D s = Some (word_of_nat (elapsed_ns s (ticks (dev s))), s\<lparr>dev := snd (rdtsc D (dev s))\<rparr>)"
    using t u c by (simp add: current_time_ns_def split_beta unat_sub elapsed_ns_def clock_ok_def)
  then show ?thesis using lt by (simp add: unat_of_nat64)
qed

lemma wait_until_ok:
  assumes p: "paced D ticks gap horizon" and m: "unat limit \<le> elapsed_ns s m" "m + gap \<le> horizon"
  shows "clock_ok s horizon \<Longrightarrow> unat (BOOT_TSC s) \<le> ticks (dev s) \<Longrightarrow> ticks (dev s) < m + gap \<Longrightarrow>
    \<exists>d k. wait_until D limit s = Some (s\<lparr>dev := d\<rparr>) \<and> ticks (dev s) \<le> k \<and> k < ticks d \<and> unat limit \<le> elapsed_ns s k \<and>
      ticks d \<le> m + 2 * gap"
  using m(1)
proof (induction "m + gap - ticks (dev s)" arbitrary: s rule: less_induct)
  case less
  let ?k = "ticks (dev s)" and ?d = "snd (rdtsc D (dev s))"
  have kh: "?k < horizon" using less.prems(3) m(2) by simp
  obtain t where t: "current_time_ns D s = Some (t, s\<lparr>dev := ?d\<rparr>)" "unat t = elapsed_ns s ?k"
    using read_clock[OF p less.prems(1,2) kh] by blast
  have step: "?k < ticks ?d" "ticks ?d \<le> ?k + gap" using p kh by (auto simp: paced_def)
  show ?case
  proof (cases "t < limit")
    case False
    then have "wait_until D limit s = Some (s\<lparr>dev := ?d\<rparr>)" by (subst wait_until.simps) (simp add: t)
    then show ?thesis using False t(2) step less.prems(3)
      by (intro exI[of _ ?d] exI[of _ ?k]) (auto simp: not_less word_le_nat_alt)
  next
    case True
    then have w: "wait_until D limit s = wait_until D limit (s\<lparr>dev := ?d\<rparr>)" by (subst wait_until.simps) (simp add: t)
    have "?k < m" using True t(2) less.prems(4) elapsed_ns_mono[of m ?k s] by (force simp: word_less_nat_alt)
    then have "ticks ?d < m + gap" "m + gap - ticks ?d < m + gap - ?k" using step by simp_all
    moreover have "elapsed_ns (s\<lparr>dev := ?d\<rparr>) = elapsed_ns s" by (rule ext) (simp add: elapsed_ns_def)
    ultimately obtain d k where "wait_until D limit (s\<lparr>dev := ?d\<rparr>) = Some (s\<lparr>dev := d\<rparr>)" "ticks ?d \<le> k" "k < ticks d"
        "unat limit \<le> elapsed_ns s k" "ticks d \<le> m + 2 * gap"
      using less.hyps[of "s\<lparr>dev := ?d\<rparr>"] less.prems step by (auto simp: clock_ok_def)
    then show ?thesis using step unfolding w by (intro exI[of _ d] exI[of _ k]) simp
  qed
qed

lemma elapsed_ns_bounds:
  assumes "clock_ok s horizon"
  shows "elapsed_ns s k * unat (TSC_FREQUENCY s) \<le> (k - unat (BOOT_TSC s)) * 1000000000"
    "(k - unat (BOOT_TSC s)) * 1000000000 < elapsed_ns s k * unat (TSC_FREQUENCY s) + unat (TSC_FREQUENCY s)"
proof -
  have "0 < unat (TSC_FREQUENCY s)" using assms by (simp add: clock_ok_def unat_gt_0)
  then show "elapsed_ns s k * unat (TSC_FREQUENCY s) \<le> (k - unat (BOOT_TSC s)) * 1000000000"
    "(k - unat (BOOT_TSC s)) * 1000000000 < elapsed_ns s k * unat (TSC_FREQUENCY s) + unat (TSC_FREQUENCY s)"
    unfolding elapsed_ns_def using dividend_less_div_times[of "unat (TSC_FREQUENCY s)"] by (simp_all add: add.commute)
qed

text \<open>Enough ticks for \<open>n\<close> nanoseconds to pass on the clock.\<close>

lemma enough_ticks:
  assumes c: "clock_ok s horizon" and b: "unat (BOOT_TSC s) \<le> k"
  shows "elapsed_ns s k + n \<le> elapsed_ns s (k + ((n + 1) * unat (TSC_FREQUENCY s) div 1000000000 + 1))"
proof -
  let ?f = "unat (TSC_FREQUENCY s)" and ?b = "unat (BOOT_TSC s)"
  let ?w = "(n + 1) * ?f div 1000000000 + 1"
  have f: "0 < ?f" using c by (simp add: clock_ok_def unat_gt_0)
  have "(n + 1) * ?f \<le> ?w * 1000000000" by simp
  then have "(elapsed_ns s k + n) * ?f \<le> (k - ?b) * 1000000000 + ?w * 1000000000"
    using elapsed_ns_bounds(1)[OF c, of k] by (simp add: distrib_right)
  also have "\<dots> = (k + ?w - ?b) * 1000000000" using b by (simp add: distrib_right[symmetric] del: div_mult_self1)
  finally show ?thesis unfolding elapsed_ns_def[of s "k + ?w"] using f by (simp add: less_eq_div_iff_mult_less_eq)
qed

text \<open>
  C38. \<open>sleep\<close> returns, within the resolution of the clock of the requested time.  The counter advances by more than the requested time less one
  nanosecond (both reads round down, so it can be short by part of a nanosecond, lemma \<open>sleep_short\<close>), and by at most that time plus one nanosecond, one tick and two reads
  of the counter.  Only the counter moves.  The counter must move with every read and neither it nor the time in nanoseconds overflow meanwhile.
\<close>

theorem uacpi_sleep_waits:
  assumes p: "paced D ticks gap horizon" and c: "clock_ok s horizon" and b: "unat (BOOT_TSC s) \<le> ticks (dev s)"
    and w: "w = (unat msec * 1000000 + 1) * unat (TSC_FREQUENCY s) div 1000000000 + 1"
    and h: "ticks (dev s) + w + gap \<le> horizon" "unat msec * 1000000 + elapsed_ns s horizon < 2 ^ 64"
  shows "\<exists>d. uacpi_kernel_sleep D msec s = Some (s\<lparr>dev := d\<rparr>) \<and>
    unat msec * 1000000 * unat (TSC_FREQUENCY s) < (ticks d - ticks (dev s)) * 1000000000 + unat (TSC_FREQUENCY s) \<and>
    ticks d \<le> ticks (dev s) + w + 2 * gap"
proof -
  let ?f = "unat (TSC_FREQUENCY s)" and ?k = "ticks (dev s)" and ?N = "unat msec * 1000000"
  have k: "?k < horizon" using h(1) by (simp add: w)
  obtain t where t: "current_time_ns D s = Some (t, s\<lparr>dev := snd (rdtsc D (dev s))\<rparr>)" "unat t = elapsed_ns s ?k"
    using read_clock[OF p c b k] by blast
  define s1 where "s1 = s\<lparr>dev := snd (rdtsc D (dev s))\<rparr>"
  have step: "?k < ticks (dev s1)" "ticks (dev s1) \<le> ?k + gap" using p k by (auto simp: paced_def s1_def)
  have e1: "elapsed_ns s1 = elapsed_ns s" "clock_ok s1 horizon" "BOOT_TSC s1 = BOOT_TSC s"
    using c by (auto simp: s1_def elapsed_ns_def clock_ok_def fun_eq_iff)
  have sum: "unat t + ?N < 2 ^ 64" using elapsed_ns_mono[of ?k horizon s] k h(2) t(2) by simp
  then have n: "mul64 msec 1000000 = Some (msec * 1000000)" "unat (msec * 1000000) = ?N"
    by (simp_all add: mul64_alt unat_word_ariths)
  define limit where "limit = t + msec * 1000000"
  have l: "add64 t (msec * 1000000) = Some limit" "unat limit = unat t + ?N"
    using sum n(2) unat_add_lt[of t "msec * 1000000"] by (simp_all add: limit_def)
  have m: "unat limit \<le> elapsed_ns s1 (?k + w)" using enough_ticks[OF c b, of ?N] by (simp add: e1 l(2) t(2) w)
  obtain d k' where d: "wait_until D limit s1 = Some (s1\<lparr>dev := d\<rparr>)" "ticks (dev s1) \<le> k'" "k' < ticks d"
      "unat limit \<le> elapsed_ns s1 k'" "ticks d \<le> ?k + w + 2 * gap"
    using wait_until_ok[OF p m h(1) e1(2)] step b w by (auto simp: e1)
  have "(elapsed_ns s ?k + ?N) * ?f \<le> elapsed_ns s k' * ?f" using d(4) by (intro mult_right_mono) (simp_all add: e1 l(2) t(2))
  also have "\<dots> \<le> (k' - unat (BOOT_TSC s)) * 1000000000" by (rule elapsed_ns_bounds(1)[OF c])
  also have "\<dots> \<le> (ticks d - ?k) * 1000000000 + (?k - unat (BOOT_TSC s)) * 1000000000" using d(2,3) step(1) b by simp
  finally have "?N * ?f < (ticks d - ?k) * 1000000000 + ?f"
    using elapsed_ns_bounds(2)[OF c, of ?k] by (simp add: distrib_right)
  moreover have "uacpi_kernel_sleep D msec s = Some (s\<lparr>dev := d\<rparr>)"
    using d(1) by (simp add: uacpi_kernel_sleep_def t n l s1_def)
  ultimately show ?thesis using d(5) by blast
qed

text \<open>A counter that advances by one tick with every read.\<close>

definition tick_io :: "nat io" where
  "tick_io = \<lparr>inb = (\<lambda>p d. (0, d)), inw = (\<lambda>p d. (0, d)), inl = (\<lambda>p d. (0, d)),
     outb = (\<lambda>p b d. d), outw = (\<lambda>p b d. d), outl = (\<lambda>p b d. d),
     read_volatile = (\<lambda>n a d. (0, d)), write_volatile = (\<lambda>n a b d. d), rdtsc = (\<lambda>d. (word_of_nat d, d + 1))\<rparr>"

lemma tick_io_paced: "horizon \<le> 2 ^ 64 \<Longrightarrow> paced tick_io (\<lambda>d. d) 1 horizon"
  by (simp add: paced_def tick_io_def)

theorem uacpi_sleep_waits_witness:
  "\<exists>d. uacpi_kernel_sleep tick_io 1 \<lparr>TSC_FREQUENCY = 1000000000, BOOT_TSC = 3, dev = 5\<rparr> =
     Some \<lparr>TSC_FREQUENCY = 1000000000, BOOT_TSC = 3, dev = d\<rparr> \<and> 1000004 \<le> d \<and> d \<le> 1000009"
proof -
  let ?s = "\<lparr>TSC_FREQUENCY = 1000000000, BOOT_TSC = 3, dev = 5 :: nat\<rparr>"
  have "paced tick_io (\<lambda>d. d) 1 10000000" by (rule tick_io_paced) simp
  from uacpi_sleep_waits[OF this, of ?s 1000002 1] show ?thesis by (auto simp: clock_ok_def elapsed_ns_def)
qed

text \<open>
  The bound is sharp.  A counter of 3 GHz that is read at ticks 2 and 3000000: a millisecond is 3000000 ticks, but
  \<open>sleep\<close> ends after 2999999.
\<close>

definition jump_io :: "nat io" where
  "jump_io = tick_io\<lparr>rdtsc := \<lambda>d. (word_of_nat d, if d = 2 then 3000000 else d + 1)\<rparr>"

lemma sleep_short:
  "uacpi_kernel_sleep jump_io 1 \<lparr>TSC_FREQUENCY = 3000000000, BOOT_TSC = 0, dev = 2\<rparr> =
     Some \<lparr>TSC_FREQUENCY = 3000000000, BOOT_TSC = 0, dev = 3000001\<rparr>"
  by (simp add: uacpi_kernel_sleep_def wait_until.simps current_time_ns_def jump_io_def tick_io_def mul64_alt add64_alt)

section \<open>Mappings for the library\<close>

text \<open>
  Only translations of addresses between \<open>a\<close> and \<open>b\<close> above the direct map's base \<open>h\<close> are added, to the
  physical address they stand for, and none is changed.
\<close>

definition added :: "x86 \<Rightarrow> Vmm \<Rightarrow> u64 \<Rightarrow> nat \<Rightarrow> nat \<Rightarrow> 'a vkernel_scheme \<Rightarrow> 'a vkernel_scheme \<Rightarrow> bool" where
  "added X v h a b s s' \<longleftrightarrow> vm_kept v s s' \<and> (\<forall>w. is_canonical w \<longrightarrow>
     Vmm_translate X v w s' = Vmm_translate X v w s \<or>
     Vmm_translate X v w s = Some None \<and> unat h + a \<le> unat w \<and> unat w < unat h + b \<and>
       (\<exists>f. Vmm_translate X v w s' = Some (Some (w - h, f))))"

lemma added_refl: "vm_inv v s \<Longrightarrow> added X v h a b s s"
  by (simp add: added_def vm_kept_refl)

lemma added_trans:
  assumes "added X v h a b s s1" "added X v h b c s1 s2" "a \<le> b" "b \<le> c"
  shows "added X v h a c s s2"
  unfolding added_def
proof (intro conjI allI impI)
  show "vm_kept v s s2" using assms(1,2) vm_kept_trans by (auto simp: added_def)
  fix w assume w: "is_canonical w"
  have 1: "Vmm_translate X v w s1 = Vmm_translate X v w s \<or> Vmm_translate X v w s = Some None \<and>
      unat h + a \<le> unat w \<and> unat w < unat h + b \<and> (\<exists>f. Vmm_translate X v w s1 = Some (Some (w - h, f)))"
    using assms(1) w by (simp add: added_def)
  have 2: "Vmm_translate X v w s2 = Vmm_translate X v w s1 \<or> Vmm_translate X v w s1 = Some None \<and>
      unat h + b \<le> unat w \<and> unat w < unat h + c \<and> (\<exists>f. Vmm_translate X v w s2 = Some (Some (w - h, f)))"
    using assms(2) w by (simp add: added_def)
  show "Vmm_translate X v w s2 = Vmm_translate X v w s \<or> Vmm_translate X v w s = Some None \<and>
      unat h + a \<le> unat w \<and> unat w < unat h + c \<and> (\<exists>f. Vmm_translate X v w s2 = Some (Some (w - h, f)))"
    using 1 2 assms(3,4) by (elim disjE) auto
qed

text \<open>A base page that is refused because something is there is mapped at all its addresses.\<close>

lemma occupied_lookup:
  "occupied m h 0 virt l pa \<Longrightarrow> same_page 0 l virt w \<Longrightarrow> lookup m h l pa w \<noteq> None"
  by (induction l arbitrary: pa) (auto simp: Let_def same_page_Suc)

lemma missing_le: "missing m h t virt l pa \<le> l"
  by (induction l arbitrary: pa) (auto simp: Let_def intro: le_SucI)

text \<open>The addresses of a page are canonical together.\<close>

lemma in_page_canonical:
  assumes "2 ^ 12 dvd unat virt" "in_page virt Base w"
  shows "is_canonical w \<longleftrightarrow> is_canonical virt"
proof -
  obtain q where q: "unat virt = 2 ^ 12 * q" using assms(1) by (auto elim: dvdE)
  have "unat w div 2 ^ 12 = unat virt div 2 ^ 12"
    using assms(2) q by (intro div_nat_eqI) (simp_all add: in_page_def word_le_nat_alt)
  moreover have "unat (drop_bit 47 a) = unat a div 2 ^ 12 div 2 ^ 35" for a :: u64
    unfolding unat_drop_bit_eq by (simp add: drop_bit_eq_div div_mult2_eq[symmetric])
  ultimately have "drop_bit 47 w = drop_bit 47 virt" by (simp only: word_unat_eq_iff)
  then show ?thesis by (simp add: is_canonical_def)
qed

lemma map_base_page:
  assumes x: "x86_ok X" and inv: "vm_inv v s" and pa: "unat phys < 2 ^ 52" and fl: "flags AND ADDRESS_MASK = 0"
    and lin: "unat (phys + h) = unat phys + unat h"
  shows "\<exists>r s'. Vmm_map X v (phys + h) phys flags Base s = Some (r, s') \<and> added X v h (unat phys) (unat phys + 4096) s s' \<and>
    (if r = Inr () \<or> r = Inl AlreadyMapped then \<forall>w. in_page (phys + h) Base w \<longrightarrow> Vmm_translate X v w s' \<noteq> Some None
     else \<not> is_canonical (phys + h) \<or> \<not> 4096 dvd unat phys \<or> \<not> 4096 dvd unat h \<or> card (pmm_avail s') < 3)"
proof (cases "map_guard X (phys + h) phys Base")
  case (Some e)
  then have "Vmm_map X v (phys + h) phys flags Base s = Some (Inl e, s)" by (simp add: Vmm_map_eq[OF x])
  moreover have "e \<noteq> AlreadyMapped" "\<not> is_canonical (phys + h) \<or> \<not> 4096 dvd unat phys \<or> \<not> 4096 dvd unat h"
    using Some lin bytes_multiple[OF x, of _ Base] by (auto simp: map_guard_def split: if_splits)
  ultimately show ?thesis using added_refl[OF inv] by (intro exI[of _ "Inl e"] exI[of _ s]) auto
next
  case None
  note gd = map_guard_None[OF x None]
  obtain r s' where r: "Vmm_map X v (phys + h) phys flags Base s = Some (r, s')"
    "pmm_tables.map_post (phys + h) (phys OR leaf_bits X flags Base) (page_level Base) 3 (top_level v) s r s'"
    by (rule Vmm_map_ok[OF x inv None pa fl])
  note p = map_post_vm[OF inv r(2)]
  have kept: "vm_kept v s s'" using p(1,3,4,5,6,11) by (simp add: vm_kept_def)
  have can: "is_canonical w" if "in_page (phys + h) Base w" for w using in_page_canonical[of "phys + h" w] gd(1,2) that by simp
  have tr: "Vmm_translate X v w s = Some (map_option (page_translation X w) (vm_walk v s w))"
      "Vmm_translate X v w s' = Some (map_option (page_translation X w) (vm_walk v s' w))" if "is_canonical w" for w
    using translate_eq[OF x inv, of w] translate_eq[OF x p(1), of w] that by simp_all
  consider (already) "r = Inl AlreadyMapped" | (oom) "r = Inl OutOfMemory" | (ok) "r = Inr ()" using p(10) by (auto split: if_splits)
  then show ?thesis
  proof cases
    case already
    then have "occupied (kmem s) (HHDM_OFFSET s) 0 (phys + h) 3 (top_level v)" using p(10) by (auto split: if_splits)
    then have "vm_walk v s w \<noteq> None" if "is_canonical w" "in_page (phys + h) Base w" for w
      using occupied_lookup[of _ _ "phys + h" 3 _ w] in_page_iff[OF gd(2,1) that(1)] that(2) by (simp add: vm_walk_def)
    then show ?thesis using r(1) already p(7) tr(1) can added_refl[OF inv] by (intro exI[of _ r] exI[of _ s]) auto
  next
    case oom
    then have "vm_walk v s' = vm_walk v s" using p(8) by simp
    then have "added X v h (unat phys) (unat phys + 4096) s s'" using kept tr by (simp add: added_def)
    moreover have "card (pmm_avail s') < 3"
      using p(8,10) oom missing_le[of "kmem s" "HHDM_OFFSET s" 0 "phys + h" 3 "top_level v"] by (auto split: if_splits)
    ultimately show ?thesis using r(1) oom by (intro exI[of _ r] exI[of _ s']) simp
  next
    case ok
    have walk: "vm_walk v s' w = (if in_page (phys + h) Base w then Some (0, phys OR leaf_bits X flags Base) else vm_walk v s w)"
      if "is_canonical w" for w
      using p(9)[OF ok, of w] in_page_iff[OF gd(2,1) that] by simp
    have free: "\<not> occupied (kmem s) (HHDM_OFFSET s) 0 (phys + h) 3 (top_level v)" using p(10) ok by (auto split: if_splits)
    have none: "vm_walk v s w = None" if "is_canonical w" "in_page (phys + h) Base w" for w
      using not_occupied_unmapped[OF free, of w] in_page_iff[OF gd(2,1) that(1)] that(2) by (simp add: vm_walk_def)
    have new: "Vmm_translate X v w s' = Some (Some (w - h, PTFlags_from_bits_truncate X (phys OR leaf_bits X flags Base)))"
      if w: "is_canonical w" "in_page (phys + h) Base w" for w
    proof -
      have "take_bit 12 w = w - (phys + h)" using page_offset_word[of 12 "phys + h" w] gd(2) w(2) by (simp add: in_page_def)
      then show ?thesis using tr(2)[OF w(1)] walk[OF w(1)] w(2) leaf_entry(4)[OF x fl gd(3) pa, of Base]
        by (simp add: page_translation_def)
    qed
    have "Vmm_translate X v w s' = Vmm_translate X v w s \<or> Vmm_translate X v w s = Some None \<and>
        unat h + unat phys \<le> unat w \<and> unat w < unat h + (unat phys + 4096) \<and> (\<exists>f. Vmm_translate X v w s' = Some (Some (w - h, f)))"
      if w: "is_canonical w" for w
    proof (cases "in_page (phys + h) Base w")
      case True
      then show ?thesis using new[OF w True] none[OF w True] tr(1)[OF w] lin by (auto simp: in_page_def word_le_nat_alt)
    next
      case False
      then show ?thesis using walk[OF w] tr[OF w] by simp
    qed
    then have "added X v h (unat phys) (unat phys + 4096) s s'" using kept by (simp add: added_def)
    then show ?thesis using r(1) ok new can by (intro exI[of _ r] exI[of _ s']) auto
  qed
qed

lemma uacpi_map_loop_ok:
  assumes x: "x86_ok X" and vmm: "VMM s = Some v" and inv: "vm_inv v s"
    and fit: "unat last_page \<le> 2 ^ 52" "unat last_page + unat h \<le> 2 ^ 64" and n: "unat last_page = unat phys + n * 4096"
  shows "\<exists>ok s'. uacpi_map_loop X h last_page phys s = Some (ok, s') \<and> added X v h (unat phys) (unat last_page) s s' \<and>
    (if ok then \<forall>w. unat h + unat phys \<le> unat w \<and> unat w < unat h + unat last_page \<longrightarrow> Vmm_translate X v w s' \<noteq> Some None
     else \<not> 4096 dvd unat phys \<or> \<not> 4096 dvd unat h \<or> card (pmm_avail s') < 3 \<or>
       (\<exists>w. \<not> is_canonical w \<and> unat h + unat phys \<le> unat w \<and> unat w + 4096 \<le> unat h + unat last_page))"
  using vmm inv n
proof (induction n arbitrary: phys s)
  case 0
  then show ?case using added_refl[of v s X h]
    by (intro exI[of _ True] exI[of _ s]) (subst uacpi_map_loop.simps, auto simp: word_less_nat_alt)
next
  case (Suc n)
  have lt: "phys < last_page" "unat phys < 2 ^ 52" using Suc.prems(3) fit(1) by (simp_all add: word_less_nat_alt)
  have a: "add64 phys h = Some (phys + h)" "unat (phys + h) = unat phys + unat h"
    using Suc.prems(3) fit(2) unat_add_lt[of phys h] by simp_all
  have step: "add64 phys 4096 = Some (phys + 4096)" "unat (phys + 4096) = unat phys + 4096"
    using lt(2) unat_add_lt[of phys 4096] by simp_all
  have fl: "device_flags X AND ADDRESS_MASK = 0" using window_flags_ok[OF x] by (simp add: device_flags_def window_flags_def)
  obtain r s1 where r: "Vmm_map X v (phys + h) phys (device_flags X) Base s = Some (r, s1)"
      "added X v h (unat phys) (unat phys + 4096) s s1"
      "if r = Inr () \<or> r = Inl AlreadyMapped then \<forall>w. in_page (phys + h) Base w \<longrightarrow> Vmm_translate X v w s1 \<noteq> Some None
       else \<not> is_canonical (phys + h) \<or> \<not> 4096 dvd unat phys \<or> \<not> 4096 dvd unat h \<or> card (pmm_avail s1) < 3"
    using map_base_page[OF x Suc.prems(2) lt(2) fl a(2)] by blast
  have loop: "uacpi_map_loop X h last_page phys s =
      (if r = Inr () \<or> r = Inl AlreadyMapped then uacpi_map_loop X h last_page (phys + 4096) s1 else Some (False, s1))"
    by (subst uacpi_map_loop.simps) (simp add: lt(1) a(1) vmm_map_def Suc.prems(1) r(1) x86_simps(1)[OF x] step(1))
  have le: "unat phys \<le> unat phys + 4096" "unat phys + 4096 \<le> unat last_page" using Suc.prems(3) by simp_all
  show ?case
  proof (cases "r = Inr () \<or> r = Inl AlreadyMapped")
    case False
    have "added X v h (unat phys) (unat last_page) s s1"
      using added_trans[OF r(2) added_refl le] r(2) by (simp add: added_def vm_kept_def)
    moreover have "\<not> 4096 dvd unat phys \<or> \<not> 4096 dvd unat h \<or> card (pmm_avail s1) < 3 \<or>
        (\<exists>w. \<not> is_canonical w \<and> unat h + unat phys \<le> unat w \<and> unat w + 4096 \<le> unat h + unat last_page)"
      using r(3) False a(2) le(2) by (auto intro!: exI[of _ "phys + h"])
    ultimately show ?thesis using loop False by (intro exI[of _ False] exI[of _ s1]) simp
  next
    case True
    have "VMM s1 = Some v" "vm_inv v s1" using r(2) Suc.prems(1) by (simp_all add: added_def vm_kept_def)
    moreover have "unat last_page = unat (phys + 4096) + n * 4096" using Suc.prems(3) step(2) by simp
    ultimately obtain ok s' where s': "uacpi_map_loop X h last_page (phys + 4096) s1 = Some (ok, s')"
        "added X v h (unat phys + 4096) (unat last_page) s1 s'"
        "if ok then \<forall>w. unat h + (unat phys + 4096) \<le> unat w \<and> unat w < unat h + unat last_page \<longrightarrow> Vmm_translate X v w s' \<noteq> Some None
         else \<not> 4096 dvd unat phys + 4096 \<or> \<not> 4096 dvd unat h \<or> card (pmm_avail s') < 3 \<or>
           (\<exists>w. \<not> is_canonical w \<and> unat h + (unat phys + 4096) \<le> unat w \<and> unat w + 4096 \<le> unat h + unat last_page)"
      using Suc.IH[of s1 "phys + 4096"] unfolding step(2) by blast
    have "Vmm_translate X v w s' \<noteq> Some None"
      if "ok" "unat h + unat phys \<le> unat w" "unat w < unat h + unat last_page" for w
    proof (cases "in_page (phys + h) Base w")
      case in_first: True
      then have t: "Vmm_translate X v w s1 \<noteq> Some None" using r(3) True by simp
      then have "is_canonical w" using translate_eq[OF x \<open>vm_inv v s1\<close>, of w] by (auto split: if_splits)
      then show ?thesis using s'(2) t unfolding added_def by metis
    next
      case False
      then show ?thesis using s'(3) that a(2) by (auto simp: in_page_def word_le_nat_alt)
    qed
    moreover have "added X v h (unat phys) (unat last_page) s s'" by (rule added_trans[OF r(2) s'(2) le])
    moreover have "\<not> 4096 dvd unat phys \<or> \<not> 4096 dvd unat h \<or> card (pmm_avail s') < 3 \<or>
        (\<exists>w. \<not> is_canonical w \<and> unat h + unat phys \<le> unat w \<and> unat w + 4096 \<le> unat h + unat last_page)" if no: "\<not> ok"
    proof -
      consider "\<not> 4096 dvd unat phys \<or> \<not> 4096 dvd unat h \<or> card (pmm_avail s') < 3"
        | w where "\<not> is_canonical w" "unat h + (unat phys + 4096) \<le> unat w" "unat w + 4096 \<le> unat h + unat last_page"
        using s'(3) no by auto
      then show ?thesis
      proof cases
        case 2
        then show ?thesis by (intro disjI2 exI[of _ w]) simp
      qed blast
    qed
    ultimately show ?thesis using loop True s'(1) by (intro exI[of _ ok] exI[of _ s']) simp
  qed
qed

text \<open>
  C37. \<open>uacpi_kernel_map\<close> gives access to the whole range, for a range that ends at least a page below \<open>2^52\<close> and whose direct-map
  addresses do not pass \<open>2^64\<close> (past these limits it can panic: a sum overflows, or an entry cannot hold the address).  It returns the direct-map address of the range or null.  No
  address that was mapped changes its translation.  When the result is not null, every
  byte of the range, however the range is aligned, is mapped, and one that was not mapped before translates to the physical byte it stands for.
  It is null only if fewer than three frames are left, a page of the range has no canonical address in the direct map, or the direct map does not start at a page.
\<close>

theorem uacpi_map_covers:
  assumes x: "x86_ok X" and inv: "vm_inv v s" and vmm: "VMM s = Some v" and h: "h = HHDM_OFFSET s" "h \<noteq> 0"
    and fit: "unat addr + unat len + 4096 \<le> 2 ^ 52" "unat addr + unat len + 4096 + unat h \<le> 2 ^ 64"
  shows "\<exists>p s'. uacpi_kernel_map X addr len s = Some (p, s') \<and> vm_inv v s' \<and> (p = 0 \<or> p = addr + h) \<and>
    (\<forall>w. is_canonical w \<and> Vmm_translate X v w s \<noteq> Some None \<longrightarrow> Vmm_translate X v w s' = Vmm_translate X v w s) \<and>
    (if p = 0 then card (pmm_avail s') < 3 \<or> \<not> 4096 dvd unat h \<or>
       (\<exists>w. \<not> is_canonical w \<and> unat h + unat addr div 4096 * 4096 \<le> unat w \<and> unat w < unat h + unat addr + unat len)
     else \<forall>k < unat len. \<exists>pa f. Vmm_translate X v (p + word_of_nat k) s' = Some (Some (pa, f)) \<and>
       (Vmm_translate X v (p + word_of_nat k) s = Some None \<longrightarrow> pa = addr + word_of_nat k))"
proof -
  have page: "BASE_PAGE_SIZE X = 2 ^ 12" by (rule x86_simps(1)[OF x])
  obtain phys where phys: "align_down addr (2 ^ 12) = Some phys" "unat phys = unat addr div 2 ^ 12 * 2 ^ 12"
    using align_down_eq[of 12 addr] by auto
  have sum: "add64 addr len = Some (addr + len)" "unat (addr + len) = unat addr + unat len"
    using fit(1) unat_add_lt[of addr len] by simp_all
  obtain lp where lp: "align_up (addr + len) (2 ^ 12) = Some lp"
      "unat lp = (unat addr + unat len + 2 ^ 12 - 1) div 2 ^ 12 * 2 ^ 12"
    using align_up_eq(1)[of 12 "addr + len"] fit(1) sum(2) by auto
  define n where "n = (unat addr + unat len + 4095) div 4096 - unat addr div 4096"
  have "unat addr div 4096 \<le> (unat addr + unat len + 4095) div 4096" by (intro div_le_mono) simp
  then have n: "unat lp = unat phys + n * 4096" using phys(2) lp(2) by (simp add: n_def diff_mult_distrib)
  have cover: "unat phys \<le> unat addr" "unat addr + unat len \<le> unat lp" "unat lp < unat addr + unat len + 4096"
    using phys(2) lp(2) by simp_all
  obtain ok s' where s': "uacpi_map_loop X h lp phys s = Some (ok, s')" "added X v h (unat phys) (unat lp) s s'"
      "if ok then \<forall>w. unat h + unat phys \<le> unat w \<and> unat w < unat h + unat lp \<longrightarrow> Vmm_translate X v w s' \<noteq> Some None
       else \<not> 4096 dvd unat phys \<or> \<not> 4096 dvd unat h \<or> card (pmm_avail s') < 3 \<or>
         (\<exists>w. \<not> is_canonical w \<and> unat h + unat phys \<le> unat w \<and> unat w + 4096 \<le> unat h + unat lp)"
    using uacpi_map_loop_ok[OF x vmm inv _ _ n, of h] fit cover by auto
  have ah: "add64 addr h = Some (addr + h)" "unat (addr + h) = unat addr + unat h" "addr + h \<noteq> 0"
    using fit(2) unat_add_lt[of addr h] h(2) by (auto simp: unat_eq_0 dest: arg_cong[of _ _ unat])
  have run: "uacpi_kernel_map X addr len s = Some (if ok then addr + h else 0, s')"
    by (simp add: uacpi_kernel_map_def Let_def page phys(1)[simplified] sum(1) lp(1)[simplified] h(1)[symmetric] s'(1) ah(1))
  have byte: "\<exists>pa f. Vmm_translate X v (addr + h + word_of_nat k) s' = Some (Some (pa, f)) \<and>
      (Vmm_translate X v (addr + h + word_of_nat k) s = Some None \<longrightarrow> pa = addr + word_of_nat k)"
    if k: "ok" "k < unat len" for k
  proof -
    let ?w = "addr + h + word_of_nat k"
    have "unat (word_of_nat k :: u64) = k" by (rule unat_of_nat64[OF less_trans[OF k(2) unat_lt64]])
    then have w: "unat ?w = unat addr + unat h + k" using unat_add_lt[of "addr + h" "word_of_nat k"] k(2) fit(2) ah(2) by simp
    then have "Vmm_translate X v ?w s' \<noteq> Some None" using s'(3) k cover by simp
    moreover have tr: "Vmm_translate X v ?w s' = Some (if is_canonical ?w then map_option (page_translation X ?w) (vm_walk v s' ?w) else None)"
      using translate_eq[OF x, of v s' ?w] s'(2) by (simp add: added_def vm_kept_def)
    ultimately obtain pa f where t: "Vmm_translate X v ?w s' = Some (Some (pa, f))" by (auto split: if_splits)
    moreover have "is_canonical ?w" using tr t by (auto split: if_splits)
    ultimately have "pa = ?w - h" if "Vmm_translate X v ?w s = Some None"
      using s'(2) that unfolding added_def by force
    then show ?thesis using t by (simp add: algebra_simps)
  qed
  have "vm_inv v s'" using s'(2) by (simp add: added_def vm_kept_def)
  moreover have "Vmm_translate X v w s' = Vmm_translate X v w s" if "is_canonical w" "Vmm_translate X v w s \<noteq> Some None" for w
    using s'(2) that by (auto simp: added_def)
  moreover have "card (pmm_avail s') < 3 \<or> \<not> 4096 dvd unat h \<or>
      (\<exists>w. \<not> is_canonical w \<and> unat h + unat addr div 4096 * 4096 \<le> unat w \<and> unat w < unat h + unat addr + unat len)" if no: "\<not> ok"
  proof -
    have "4096 dvd unat phys" using phys(2) by simp
    then consider "card (pmm_avail s') < 3 \<or> \<not> 4096 dvd unat h"
      | w where "\<not> is_canonical w" "unat h + unat phys \<le> unat w" "unat w + 4096 \<le> unat h + unat lp"
      using s'(3) no by auto
    then show ?thesis
    proof cases
      case 2
      then show ?thesis using phys(2) cover(3) by (intro disjI2 exI[of _ w]) simp
    qed blast
  qed
  ultimately show ?thesis using run byte ah(3) by (intro exI[of _ "if ok then addr + h else 0"] exI[of _ s']) auto
qed

lemma small_uacpi_map: "map_option fst (uacpi_kernel_map amd64 0x5ABC 0x10 small_kernel) = Some 0xffff800000005ABC"
proof -
  let ?virt = "0xffff800000005000 :: u64" and ?fl = "device_flags amd64"
  have g: "map_guard amd64 ?virt 0x5000 Base = None"
    using bytes_multiple[OF amd64_ok, of _ Base] by (simp add: map_guard_def is_canonical_def)
  have "unat (0x5000 :: u64) < 2 ^ 52" "?fl AND ADDRESS_MASK = 0" by (simp_all add: device_flags_def amd64_def ADDRESS_MASK_def)
  from Vmm_map_ok[OF amd64_ok small_kernel_inv(1) g this] obtain r s' where
    r: "Vmm_map amd64 small_vmm ?virt 0x5000 ?fl Base small_kernel = Some (r, s')"
      "pmm_tables.map_post ?virt (0x5000 OR leaf_bits amd64 ?fl Base) (page_level Base) 3 (top_level small_vmm) small_kernel r s'" .
  have "\<not> occupied (kmem small_kernel) (HHDM_OFFSET small_kernel) 0 ?virt 3 (top_level small_vmm)"
    using occupied_lookup[of "kmem small_kernel" "HHDM_OFFSET small_kernel" ?virt 3 "top_level small_vmm" ?virt] small_kernel_inv(4)[of ?virt]
    by (auto simp: vm_walk_def same_page_def)
  then have "r = Inr ()"
    using map_post_vm(10)[OF small_kernel_inv(1) r(2)] small_kernel_inv(3) missing_le[of "kmem small_kernel" "HHDM_OFFSET small_kernel" 0 ?virt 3 "top_level small_vmm"]
    by simp
  with r(1) have m: "Vmm_map amd64 small_vmm ?virt 0x5000 ?fl Base small_kernel = Some (Inr (), s')" by simp
  have "uacpi_map_loop amd64 0xffff800000000000 0x6000 0x5000 small_kernel = Some (True, s')"
    by (subst uacpi_map_loop.simps, simp add: add64_alt vmm_map_def small_kernel_inv(7) m x86_simps(1)[OF amd64_ok])
      (subst uacpi_map_loop.simps, simp)
  moreover have "align_down 0x5ABC 0x1000 = Some 0x5000" "align_up 0x5ACC 0x1000 = Some 0x6000" by code_simp+
  ultimately show ?thesis
    by (simp add: uacpi_kernel_map_def x86_simps(1)[OF amd64_ok] small_kernel_inv(5) add64_alt)
qed

theorem uacpi_map_covers_witness:
  "\<exists>s' f. uacpi_kernel_map amd64 0x5ABC 0x10 small_kernel = Some (0xffff800000005ABC, s') \<and> vm_inv small_vmm s' \<and>
     Vmm_translate amd64 small_vmm 0xffff800000005ACB s' = Some (Some (0x5ACB, f))"
proof -
  have none: "Vmm_translate amd64 small_vmm w small_kernel = Some None" for w
    using translate_eq[OF amd64_ok small_kernel_inv(1), of w] small_kernel_inv(4) by simp
  obtain s' where s': "uacpi_kernel_map amd64 0x5ABC 0x10 small_kernel = Some (0xffff800000005ABC, s')"
    using small_uacpi_map by auto
  then have inv: "vm_inv small_vmm s'" and byte: "\<forall>k < unat (0x10 :: u64).
      \<exists>pa f. Vmm_translate amd64 small_vmm (0xffff800000005ABC + word_of_nat k) s' = Some (Some (pa, f)) \<and> pa = 0x5ABC + word_of_nat k"
    using uacpi_map_covers[OF amd64_ok small_kernel_inv(1,7) refl, of "0x5ABC" "0x10"] by (simp_all add: small_kernel_inv(5) none)
  from byte[rule_format, of 15] show ?thesis using s' inv by auto
qed

section \<open>Events, locks and interrupts\<close>

text \<open>A signal before a wait is never lost, and the wait consumes exactly one.\<close>

lemma signal_then_wait:
  assumes "unat c + 1 < 2 ^ 64"
  shows "uacpi_kernel_wait_for_event D other timeout (uacpi_kernel_signal_event c) s = Some (True, c, s)"
proof -
  have "unat (c + 1) = unat c + 1" using unat_add_lt[of c 1] assms by simp
  then have "c + 1 \<noteq> 0" by auto
  then show ?thesis
    by (simp add: uacpi_kernel_wait_for_event_def uacpi_kernel_signal_event_def wait_remaining.simps wait_forever.simps)
qed

text \<open>Without a signal the wait gives up after the timeout rounded up to the next ten milliseconds of sleep.\<close>

lemma wait_gives_up:
  assumes "\<And>s. uacpi_kernel_sleep D 10 s = Some (slept s)"
  shows "wait_remaining D (\<lambda>c. c) (int n) 0 s = Some (False, 0, (slept ^^ ((n + 9) div 10)) s)"
proof (induction n arbitrary: s rule: less_induct)
  case (less n)
  show ?case
  proof (cases "n = 0")
    case True
    then show ?thesis by (simp add: wait_remaining.simps[of _ _ 0])
  next
    case False
    have *: "wait_remaining D (\<lambda>c. c) (int n) 0 s = wait_remaining D (\<lambda>c. c) (int n - 10) 0 (slept s)"
      using False assms by (subst wait_remaining.simps) simp
    show ?thesis
    proof (cases "n \<le> 10")
      case True
      then have "(n + 9) div 10 = 1" using False by simp
      then show ?thesis unfolding * using True by (subst wait_remaining.simps) simp
    next
      case big: False
      have "int n - 10 = int (n - 10)" "(n + 9) div 10 = Suc ((n - 10 + 9) div 10)" using big by simp_all
      then show ?thesis unfolding * using less[of "n - 10" "slept s"] big by (simp add: funpow_swap1)
    qed
  qed
qed

text \<open>The spinlock calls restore the interrupt flag, whatever it was, and free the lock.\<close>

lemma spinlock_roundtrip:
  assumes "irq_ok Q" "uacpi_kernel_lock_spinlock Q (Some l, f) = Some (state, handle, f')"
  shows "\<not> f' \<and> handle = Some True \<and> uacpi_kernel_unlock_spinlock Q state (handle, f') = (Some False, f)"
proof -
  note d = uacpi_kernel_lock_spinlock_def uacpi_kernel_unlock_spinlock_def uacpi_kernel_disable_interrupts_def
    uacpi_kernel_restore_interrupts_def SpinLock_unlock_def irq_simps[OF assms(1)]
  have "SpinLock_lock [] l \<noteq> None"
  proof
    assume "SpinLock_lock [] l = None"
    then show False using assms(2) by (simp add: d)
  qed
  then have lk: "SpinLock_lock [] l = Some True" using SpinLock_lock_returns[of "[]" l] by fastforce
  have "handle = Some True" "\<not> f'" "state = (if f then 1 else 0)" using assms(2) by (auto simp: d lk)
  then show ?thesis by (cases f) (simp_all add: d)
qed

text \<open>
  A handler for an interrupt line above 223 is installed, and reported as installed, at a vector below 32, where
  \<open>isr_handler\<close> never looks: the line 224 becomes vector 0, the divide error, which stops the kernel.
\<close>

lemma interrupt_line_truncated:
  "\<exists>s. uacpi_kernel_install_interrupt_handler 224 (Some h) ctx no_handlers = Some (STATUS_OK, Some 0, s) \<and>
     isr_handler (frame_at 0) s = None"
proof -
  have "handler_at no_handlers 0 = None" by (simp add: handler_at_def no_handlers_def HANDLERS_INIT_def)
  then show ?thesis
    by (simp add: uacpi_kernel_install_interrupt_handler_def rust_simps is_handler_installed_eq[OF no_handlers_ok]
        install_handler_eq[OF no_handlers_ok] isr_handler_def frame_at_def)
qed

text \<open>
  The time in nanoseconds is not strictly monotonic: with a counter faster than one tick per nanosecond, two successive
  reads of a moving counter can return the same time.
\<close>

lemma time_not_strict:
  "\<exists>s1 s2 t. uacpi_kernel_get_nanoseconds_since_boot tick_io \<lparr>TSC_FREQUENCY = 3000000000, BOOT_TSC = 0, dev = 3\<rparr> = Some (t, s1) \<and>
     uacpi_kernel_get_nanoseconds_since_boot tick_io s1 = Some (t, s2) \<and> dev s1 \<noteq> dev s2"
  by (simp add: uacpi_kernel_get_nanoseconds_since_boot_def current_time_ns_def tick_io_def)

end
