(* ===== verification/Isr.thy ===== *)
theory Isr
  imports Idt
begin

text \<open>
  The assembly entry points, kernel/src/isr.S: what the processor pushes when it delivers an
  interrupt, the stub of each vector, and the common stub that saves the registers, calls \<open>isr_handler\<close>
  and returns.
\<close>

datatype reg = RAX | RBX | RCX | RDX | RSI | RDI | RBP | R8 | R9 | R10 | R11 | R12 | R13 | R14 | R15

text \<open>The stack is accessed in 8-byte cells; \<open>cells\<close> is memory by cell address.\<close>

record cpu =
  gpr :: "reg \<Rightarrow> u64"
  RIP :: u64
  CS :: u64
  RFLAGS :: u64
  RSP :: u64
  SS :: u64
  cells :: "u64 \<Rightarrow> u64"

definition push :: "u64 \<Rightarrow> cpu \<Rightarrow> cpu" where
  "push v c = c\<lparr>RSP := RSP c - 8, cells := (cells c)(RSP c - 8 := v)\<rparr>"

definition pop :: "cpu \<Rightarrow> u64 \<times> cpu" where
  "pop c = (cells c (RSP c), c\<lparr>RSP := RSP c + 8\<rparr>)"

definition push_reg :: "cpu \<Rightarrow> reg \<Rightarrow> cpu" where
  "push_reg c r = push (gpr c r) c"

definition pop_reg :: "cpu \<Rightarrow> reg \<Rightarrow> cpu" where
  "pop_reg c r = (let (v, c) = pop c in c\<lparr>gpr := (gpr c)(r := v)\<rparr>)"

definition iretq :: "cpu \<Rightarrow> cpu" where
  "iretq c =
     (let (ip, c) = pop c; (seg, c) = pop c; (fl, c) = pop c; (sp, c) = pop c; (stk, c) = pop c
      in c\<lparr>RIP := ip, CS := seg, RFLAGS := fl, RSP := sp, SS := stk\<rparr>)"

text \<open>
  The compiled \<open>isr_handler\<close> is code of the compiler: a parameter that takes the processor and the
  kernel's state at the \<open>call\<close> to those after it.  \<open>None\<close> is a call that does not return.
\<close>

definition isr_common_stub :: "(cpu \<times> 's \<Rightarrow> (cpu \<times> 's) option) \<Rightarrow> cpu \<times> 's \<Rightarrow> (cpu \<times> 's) option" where
  "isr_common_stub handler = (\<lambda>(c, s). do {
     let c = c\<lparr>RFLAGS := RFLAGS c AND NOT 0x400\<rparr>;
     let c = foldl push_reg c [RAX, RBX, RCX, RDX, RSI, RDI, RBP, R8, R9, R10, R11, R12, R13, R14, R15];
     let c = c\<lparr>gpr := (gpr c)(RDI := RSP c)\<rparr>;
     (c, s) \<leftarrow> handler (c, s);
     let c = foldl pop_reg c [R15, R14, R13, R12, R11, R10, R9, R8, RBP, RDI, RSI, RDX, RCX, RBX, RAX];
     let c = c\<lparr>RSP := RSP c + 16\<rparr>;
     Some (iretq c, s) })"

definition isr :: "nat \<Rightarrow> (cpu \<times> 's \<Rightarrow> (cpu \<times> 's) option) \<Rightarrow> cpu \<times> 's \<Rightarrow> (cpu \<times> 's) option" where
  "isr number handler = (\<lambda>(c, s).
     let c = (if \<not> (number = 8 \<or> (10 \<le> number \<and> number \<le> 14) \<or> number = 17 \<or> number = 21 \<or> number = 29 \<or> number = 30)
              then push 0 c else c);
         c = push (word_of_nat number) c
     in isr_common_stub handler (c, s))"

text \<open>The table holds the address of each vector's stub; \<open>entry\<close> is where the assembler put them.\<close>

definition isr_table :: "(nat \<Rightarrow> u64) \<Rightarrow> u64 list" where
  "isr_table entry = map entry [0..<256]"

section \<open>Delivery by the processor\<close>

text \<open>
  Through an interrupt gate the processor aligns the stack it switches to (\<open>sp0\<close>, that of the interrupted code
  or one from the TSS), pushes the interrupted context, and for the exceptions the
  architecture defines an error code for also that, and clears IF, TF, NT, RF and VM.
\<close>

definition has_error_code :: "nat \<Rightarrow> bool" where
  "has_error_code v \<longleftrightarrow> v \<in> {8, 10, 11, 12, 13, 14, 17, 21, 29, 30}"

definition deliver :: "u64 \<Rightarrow> nat \<Rightarrow> u64 \<Rightarrow> cpu \<Rightarrow> cpu" where
  "deliver sp0 v err c =
     (let c' = push (RIP c) (push (CS c) (push (RFLAGS c) (push (RSP c) (push (SS c) (c\<lparr>RSP := sp0 AND NOT 0xF\<rparr>)))))
      in (if has_error_code v then push err c' else c')\<lparr>RFLAGS := RFLAGS c AND NOT 0x34300\<rparr>)"

definition interrupt :: "(cpu \<times> 's \<Rightarrow> (cpu \<times> 's) option) \<Rightarrow> u64 \<Rightarrow> nat \<Rightarrow> u64 \<Rightarrow> cpu \<times> 's \<Rightarrow> (cpu \<times> 's) option" where
  "interrupt handler sp0 v err = (\<lambda>(c, s). isr v handler (deliver sp0 v err c, s))"

section \<open>The frame\<close>

definition frame_cells :: "InterruptFrame \<Rightarrow> u64 list" where
  "frame_cells f = [r15 f, r14 f, r13 f, r12 f, r11 f, r10 f, r9 f, r8 f, rbp f, rdi f, rsi f, rdx f, rcx f, rbx f, rax f,
     vector f, error_code f, rip f, cs f, rflags f, rsp f, ss f]"

text \<open>\<open>n\<close> cells from address \<open>a\<close>, and the cells on top of the stack.\<close>

definition cells_at :: "(u64 \<Rightarrow> u64) \<Rightarrow> u64 \<Rightarrow> nat \<Rightarrow> u64 list" where
  "cells_at m a n = map (\<lambda>i. m (a + 8 * word_of_nat i)) [0..<n]"

definition stk :: "cpu \<Rightarrow> nat \<Rightarrow> u64 list" where
  "stk c n = cells_at (cells c) (RSP c) n"

text \<open>
  What the stubs rely on: the compiled handler follows the C calling convention.  Called
  with an aligned stack and, in \<open>rdi\<close>, the address of the frame, it does what \<open>isr_handler\<close> does to that frame and to the
  kernel's state, and returns with the same stack pointer; the registers may hold anything.
\<close>

definition abi_ok :: "(cpu \<times> 'w isr_state \<Rightarrow> (cpu \<times> 'w isr_state) option) \<Rightarrow> bool" where
  "abi_ok callee \<longleftrightarrow> (\<forall>c s f. RSP c AND 0xF = 0 \<and> cells_at (cells c) (gpr c RDI) 22 = frame_cells f \<longrightarrow>
     (case isr_handler f s of
        None \<Rightarrow> callee (c, s) = None
      | Some (f', s') \<Rightarrow> \<exists>c'. callee (c, s) = Some (c', s') \<and> RSP c' = RSP c \<and>
          cells_at (cells c') (gpr c RDI) 22 = frame_cells f'))"

definition saved_frame :: "nat \<Rightarrow> u64 \<Rightarrow> cpu \<Rightarrow> InterruptFrame" where
  "saved_frame v err c = \<lparr>r15 = gpr c R15, r14 = gpr c R14, r13 = gpr c R13, r12 = gpr c R12, r11 = gpr c R11,
     r10 = gpr c R10, r9 = gpr c R9, r8 = gpr c R8, rbp = gpr c RBP, rdi = gpr c RDI, rsi = gpr c RSI, rdx = gpr c RDX,
     rcx = gpr c RCX, rbx = gpr c RBX, rax = gpr c RAX, vector = word_of_nat v,
     error_code = (if has_error_code v then err else 0), rip = RIP c, cs = CS c, rflags = RFLAGS c, rsp = RSP c, ss = SS c\<rparr>"

definition resumes :: "cpu \<Rightarrow> InterruptFrame \<Rightarrow> bool" where
  "resumes c f \<longleftrightarrow> map (gpr c) [R15, R14, R13, R12, R11, R10, R9, R8, RBP, RDI, RSI, RDX, RCX, RBX, RAX] = take 15 (frame_cells f) \<and>
     RIP c = rip f \<and> CS c = cs f \<and> RFLAGS c = rflags f \<and> RSP c = rsp f \<and> SS c = ss f"

lemma stk_simps [simp]:
  "stk c 0 = []" "stk (c\<lparr>gpr := g\<rparr>) n = stk c n" "stk (c\<lparr>RFLAGS := fl\<rparr>) n = stk c n"
  by (simp_all add: stk_def cells_at_def)

lemma push_other [simp]:
  "gpr (push v c) = gpr c" "RSP (push v c) = RSP c - 8"
  by (simp_all add: push_def)

lemma stk_push:
  assumes "n < 30"
  shows "stk (push v c) (Suc n) = v # stk c n"
proof (rule nth_equalityI)
  fix i assume "i < length (stk (push v c) (Suc n))"
  then have i: "i < Suc n" by (simp add: stk_def cells_at_def)
  show "stk (push v c) (Suc n) ! i = (v # stk c n) ! i"
  proof (cases i)
    case 0
    then show ?thesis by (simp add: stk_def cells_at_def push_def nth_append del: upt_Suc)
  next
    case (Suc j)
    have "unat (8 * word_of_nat i :: u64) = 8 * i" using i assms by (simp add: unat_word_ariths unat_of_nat)
    then have "8 * word_of_nat i \<noteq> (0 :: u64)" using Suc by (metis mult_is_0 nat.simps(3) unat_0 zero_neq_numeral)
    then have "cells (push v c) (RSP c - 8 + 8 * word_of_nat i) = cells c (RSP c - 8 + 8 * word_of_nat i)"
      by (simp add: push_def)
    moreover have e: "RSP c - 8 + 8 * word_of_nat i = RSP c + 8 * word_of_nat j" using Suc by (simp add: algebra_simps)
    ultimately have "cells (push v c) (RSP c - 8 + 8 * word_of_nat i) = cells c (RSP c + 8 * word_of_nat j)" by (simp only: e)
    then show ?thesis using i Suc by (simp add: stk_def cells_at_def del: upt_Suc of_nat_Suc)
  qed
qed (simp add: stk_def cells_at_def)

lemma has_error_code_iff:
  "has_error_code v \<longleftrightarrow> v = 8 \<or> (10 \<le> v \<and> v \<le> 14) \<or> v = 17 \<or> v = 21 \<or> v = 29 \<or> v = 30"
  by (auto simp: has_error_code_def)

text \<open>The five words of the processor, the error code or the stub's zero, and the vector.\<close>

lemma stk_entry:
  "stk (push (word_of_nat v) (if \<not> has_error_code v then push 0 (deliver sp0 v err c) else deliver sp0 v err c)) 7 =
     drop 15 (frame_cells (saved_frame v err c))"
  by (simp add: deliver_def Let_def stk_push saved_frame_def frame_cells_def numeral_eq_Suc)

lemma frame_saved:
  assumes "stk c 7 = drop 15 (frame_cells f)" "take 15 (frame_cells f) = map (gpr c) [R15, R14, R13, R12, R11, R10, R9, R8, RBP, RDI, RSI, RDX, RCX, RBX, RAX]"
  shows "stk (foldl push_reg c [RAX, RBX, RCX, RDX, RSI, RDI, RBP, R8, R9, R10, R11, R12, R13, R14, R15]) 22 = frame_cells f"
  using assms by (simp add: push_reg_def stk_push frame_cells_def numeral_eq_Suc)

lemma frame_restored:
  assumes "stk c 22 = frame_cells f"
  shows "resumes (iretq ((foldl pop_reg c [R15, R14, R13, R12, R11, R10, R9, R8, RBP, RDI, RSI, RDX, RCX, RBX, RAX])\<lparr>RSP := RSP c + 136\<rparr>)) f"
  using assms by (simp add: stk_def cells_at_def upt_rec frame_cells_def resumes_def iretq_def pop_reg_def pop_def Let_def ac_simps)

lemma pop_regs_RSP: "RSP (foldl pop_reg c rs) = RSP c + 8 * word_of_nat (length rs)"
  by (induction rs arbitrary: c) (simp_all add: pop_reg_def pop_def algebra_simps)

lemma push_regs_RSP: "RSP (foldl push_reg c rs) = RSP c - 8 * word_of_nat (length rs)"
  by (induction rs arbitrary: c) (simp_all add: push_reg_def distrib_left diff_diff_eq)

lemma entry_aligned:
  "RSP (push (word_of_nat v) (if \<not> has_error_code v then push 0 (deliver sp0 v err c) else deliver sp0 v err c)) =
     (sp0 AND NOT 0xF) - 56"
  by (simp add: deliver_def Let_def)

lemma frame_aligned: "(sp0 AND NOT 0xF) - 176 AND (0xF :: u64) = 0"
proof -
  have m: "(0xF :: u64) = mask 4" by (simp add: mask_eq_exp_minus_1)
  have "sp0 AND NOT 0xF = push_bit 4 (drop_bit 4 sp0)"
    unfolding m by (rule bit_eqI) (auto simp: bit_simps)
  then have "(sp0 AND NOT 0xF) - 176 = push_bit 4 (drop_bit 4 sp0 - 11)"
    by (simp add: push_bit_eq_mult algebra_simps)
  then show ?thesis unfolding m by (simp only: take_bit_eq_mask[symmetric] take_bit_push_bit) simp
qed

lemma interrupt_runs:
  assumes abi: "abi_ok callee" and v: "v < 256"
  shows "case isr_handler (saved_frame v err c) s of
      None \<Rightarrow> interrupt callee sp0 v err (c, s) = None
    | Some (f', s') \<Rightarrow> \<exists>c'. interrupt callee sp0 v err (c, s) = Some (c', s') \<and> resumes c' f'"
proof -
  let ?f = "saved_frame v err c"
  define c1 where "c1 = push (word_of_nat v) (if \<not> has_error_code v then push 0 (deliver sp0 v err c) else deliver sp0 v err c)"
  define c2 where "c2 = foldl push_reg (c1\<lparr>RFLAGS := RFLAGS c1 AND NOT 0x400\<rparr>) [RAX, RBX, RCX, RDX, RSI, RDI, RBP, R8, R9, R10, R11, R12, R13, R14, R15]"
  define c3 where "c3 = c2\<lparr>gpr := (gpr c2)(RDI := RSP c2)\<rparr>"
  have g: "gpr c1 = gpr c" by (simp add: c1_def deliver_def Let_def)
  have "stk c2 22 = frame_cells ?f" unfolding c2_def
    by (rule frame_saved) (simp_all add: stk_entry[of v sp0 err c, folded c1_def] g, simp add: frame_cells_def saved_frame_def)
  then have frame: "cells_at (cells c3) (gpr c3 RDI) 22 = frame_cells ?f" by (simp add: c3_def stk_def)
  have "RSP c3 AND 0xF = 0"
    using entry_aligned[of v sp0 err c] frame_aligned[of sp0] by (simp add: c3_def c2_def push_regs_RSP c1_def[symmetric] del: foldl.simps)
  note callee = abi[unfolded abi_ok_def, rule_format, OF conjI[OF this frame], of s]
  have enter: "interrupt callee sp0 v err (c, s) = isr_common_stub callee (c1, s)"
    by (simp only: interrupt_def isr_def c1_def has_error_code_iff Let_def prod.case)
  have run: "interrupt callee sp0 v err (c, s) = do { (c, s) \<leftarrow> callee (c3, s);
      Some (iretq ((foldl pop_reg c [R15, R14, R13, R12, R11, R10, R9, R8, RBP, RDI, RSI, RDX, RCX, RBX, RAX])\<lparr>RSP := RSP c + 136\<rparr>), s) }"
    unfolding enter isr_common_stub_def
    by (simp add: c3_def c2_def pop_regs_RSP add.commute Let_def del: foldl.simps)
  show ?thesis
  proof (cases "isr_handler ?f s")
    case None
    then show ?thesis using callee run by simp
  next
    case (Some fs)
    then obtain f' s' where fs: "isr_handler ?f s = Some (f', s')" by (cases fs) simp
    then obtain c4 where c4: "callee (c3, s) = Some (c4, s')" "RSP c4 = RSP c3" "cells_at (cells c4) (gpr c3 RDI) 22 = frame_cells f'"
      using callee by auto
    then have "stk c4 22 = frame_cells f'" by (simp add: stk_def c3_def)
    then show ?thesis using fs c4(1) run frame_restored[of c4 f'] by simp
  qed
qed

text \<open>
  C23. An interrupt end to end.  The handler is called with a frame that holds exactly the
  interrupted registers, instruction pointer, flags and stack, the vector, and the error code or zero; when it returns, the
  processor continues with exactly the registers and context the frame then holds, so a handler that leaves the frame
  alone is invisible to the interrupted code.  The state of the kernel changes as \<open>isr_handler\<close> says.
\<close>

theorem interrupt_resumes:
  assumes abi: "abi_ok callee" and v: "v < 256"
  shows "case isr_handler (saved_frame v err c) s of
      None \<Rightarrow> interrupt callee sp0 v err (c, s) = None
    | Some (f', s') \<Rightarrow> \<exists>c'. interrupt callee sp0 v err (c, s) = Some (c', s') \<and> resumes c' f'"
  using interrupt_runs[OF assms] .

text \<open>The frame determines the context: two processors that resume the same frame are in the same one.\<close>

lemma resumes_saved:
  assumes "resumes c' (saved_frame v err c)"
  shows "gpr c' = gpr c" "RIP c' = RIP c" "CS c' = CS c" "RFLAGS c' = RFLAGS c" "RSP c' = RSP c" "SS c' = SS c"
proof -
  show "gpr c' = gpr c"
  proof
    fix r show "gpr c' r = gpr c r" using assms by (cases r) (simp_all add: resumes_def frame_cells_def saved_frame_def)
  qed
qed (use assms in \<open>simp_all add: resumes_def saved_frame_def\<close>)

lemma isr_handler_keeps:
  assumes "handlers_ok s" "vector f = word_of_nat v" "v < 256"
    and "\<And>h. handler_at s v = Some h \<Longrightarrow> \<exists>w. h f (world s) = Some (f, w)"
  shows "if v = 0 \<or> 4 \<le> v \<and> v < 32 then isr_handler f s = None
    else \<exists>s'. isr_handler f s = Some (f, s') \<and> HANDLERS s' = HANDLERS s"
proof -
  have u: "unat (vector f) = v" using assms(2,3) by (simp add: unat_of_nat)
  consider "v < 32" | "v = 0x80" | "32 \<le> v" "v \<noteq> 0x80" by linarith
  then show ?thesis
  proof cases
    case 3
    then show ?thesis using isr_handler_irq[OF assms(1), of f] assms(3,4)
      by (cases "handler_at s v") (auto simp: u emit_def)
  qed (auto simp: isr_handler_def u emit_def)
qed

text \<open>
  C32. Interrupts are transparent.  Take any vector below 256 and handlers that return and leave the frame alone.  A debug
  exception, an NMI, a breakpoint, a system call or an interrupt from a device, with or without a handler, returns to the interrupted code with every
  register, the instruction pointer, the flags and the stack exactly as they were, and with the same handlers installed;
  on every other exception the kernel stops and never returns to the code that caused it.
\<close>

theorem interrupt_transparent:
  assumes "abi_ok callee" "v < 256" "handlers_ok s"
    and "\<And>h f w. handler_at s v = Some h \<Longrightarrow> \<exists>w'. h f w = Some (f, w')"
  shows "if v = 0 \<or> 4 \<le> v \<and> v < 32 then interrupt callee sp0 v err (c, s) = None
    else \<exists>c' s'. interrupt callee sp0 v err (c, s) = Some (c', s') \<and> HANDLERS s' = HANDLERS s \<and>
      gpr c' = gpr c \<and> RIP c' = RIP c \<and> CS c' = CS c \<and> RFLAGS c' = RFLAGS c \<and> RSP c' = RSP c \<and> SS c' = SS c"
proof -
  have "vector (saved_frame v err c) = word_of_nat v" by (simp add: saved_frame_def)
  note k = isr_handler_keeps[OF assms(3) this assms(2)] and r = interrupt_runs[OF assms(1,2), where err = err and c = c and s = s and ?sp0.0 = sp0]
  show ?thesis using k r assms(4) resumes_saved[of _ v err c] by (auto split: option.splits if_splits)
qed

section \<open>An instance\<close>

text \<open>A handler that runs \<open>isr_handler\<close> on the frame in memory and clears every register.\<close>

definition cells_frame :: "u64 list \<Rightarrow> InterruptFrame" where
  "cells_frame w = \<lparr>r15 = w ! 0, r14 = w ! 1, r13 = w ! 2, r12 = w ! 3, r11 = w ! 4, r10 = w ! 5, r9 = w ! 6, r8 = w ! 7,
     rbp = w ! 8, rdi = w ! 9, rsi = w ! 10, rdx = w ! 11, rcx = w ! 12, rbx = w ! 13, rax = w ! 14, vector = w ! 15,
     error_code = w ! 16, rip = w ! 17, cs = w ! 18, rflags = w ! 19, rsp = w ! 20, ss = w ! 21\<rparr>"

definition plain_call :: "cpu \<times> 'w isr_state \<Rightarrow> (cpu \<times> 'w isr_state) option" where
  "plain_call = (\<lambda>(c, s). do {
     let base = gpr c RDI;
     (f, s) \<leftarrow> isr_handler (cells_frame (cells_at (cells c) base 22)) s;
     let m = (\<lambda>a. if unat (a - base) div 8 < 22 then frame_cells f ! (unat (a - base) div 8) else cells c a);
     Some (c\<lparr>gpr := \<lambda>_. 0, cells := m\<rparr>, s) })"

lemma cells_frame_cells: "cells_frame (frame_cells f) = f"
  by (simp add: cells_frame_def frame_cells_def)

lemma cells_written:
  "cells_at (\<lambda>a. if unat (a - base) div 8 < 22 then frame_cells f ! (unat (a - base) div 8) else m a) base 22 = frame_cells f"
proof (rule nth_equalityI)
  fix i assume "i < length (cells_at (\<lambda>a. if unat (a - base) div 8 < 22 then frame_cells f ! (unat (a - base) div 8) else m a) base 22)"
  then have i: "i < 22" by (simp add: cells_at_def)
  then have "unat (8 * word_of_nat i :: u64) = 8 * i" by (simp add: unat_word_ariths unat_of_nat)
  then show "cells_at (\<lambda>a. if unat (a - base) div 8 < 22 then frame_cells f ! (unat (a - base) div 8) else m a) base 22 ! i = frame_cells f ! i"
    using i by (simp add: cells_at_def)
qed (simp add: cells_at_def frame_cells_def)

lemma plain_call_ok: "abi_ok plain_call"
  unfolding abi_ok_def plain_call_def
  by (auto simp: cells_frame_cells cells_written Let_def split: option.splits)

definition sample_cpu :: cpu where
  "sample_cpu = \<lparr>gpr = (\<lambda>_. 7), RIP = 0x1000, CS = 8, RFLAGS = 0x202, RSP = 0x8123, SS = 16, cells = (\<lambda>_. 0)\<rparr>"

theorem interrupt_resumes_witness:
  "\<exists>c' s'. interrupt plain_call 0x9000 0x21 0 (sample_cpu, no_handlers) = Some (c', s') \<and>
     resumes c' (saved_frame 0x21 0 sample_cpu)"
proof -
  let ?f = "saved_frame 0x21 0 sample_cpu"
  have "isr_handler ?f no_handlers = Some (?f, emit (Unhandled ?f) no_handlers)"
    by (subst isr_handler_irq[OF no_handlers_ok])
      (simp_all add: saved_frame_def handler_at_def no_handlers_def HANDLERS_INIT_def)
  then show ?thesis
    using interrupt_resumes[OF plain_call_ok, where v = "0x21" and err = 0 and c = sample_cpu and s = no_handlers and ?sp0.0 = "0x9000"]
    by auto
qed

theorem interrupt_transparent_witness:
  "interrupt plain_call 0x9000 13 0x18 (sample_cpu, no_handlers) = None \<and>
   (\<exists>c' s'. interrupt plain_call 0x9000 0x80 0 (sample_cpu, no_handlers) = Some (c', s') \<and> gpr c' = gpr sample_cpu \<and> RSP c' = 0x8123)"
proof -
  have "handler_at no_handlers v \<noteq> Some h" if "v < 256" for v h
    using that by (simp add: handler_at_def no_handlers_def HANDLERS_INIT_def)
  then show ?thesis
    using interrupt_transparent[OF plain_call_ok _ no_handlers_ok, of 13 "0x9000" "0x18" sample_cpu]
      interrupt_transparent[OF plain_call_ok _ no_handlers_ok, of "0x80" "0x9000" 0 sample_cpu]
    by (auto simp: sample_cpu_def)
qed

end
