(* ===== verification/Boot.thy ===== *)
theory Boot
  imports Isr
begin

text \<open>
  The remaining steps of the boot sequence: the segments of kernel/src/gdt.rs, the start of the ACPI library in
  kernel/src/acpi/mod.rs, and the mark that \<open>kmain\<close> of kernel/src/main.rs draws on the screen.
\<close>

section \<open>Segments\<close>

text \<open>The last field takes two 8-byte slots, the others one.\<close>

record 'g GlobalDescriptorTable =
  gdt_null :: 'g
  kernel_code :: 'g
  kernel_data :: 'g
  user_code_32bit :: 'g
  user_data :: 'g
  user_code :: 'g
  gdt_tss :: "'g \<times> 'g"

definition IST_STACK_SIZE :: u64 where "IST_STACK_SIZE = 4096 * 4"

text \<open>
  The \<open>x86\<close> crate builds descriptors and the task state: a code segment by ring and mode (64-bit,
  32-bit), a data segment by ring, the descriptor of the task state by address and limit, and a task state
  with a stack for double faults and an I/O map base.
\<close>

record ('g, 't) segments =
  NULL_descriptor :: 'g
  code_descriptor :: "nat \<Rightarrow> bool \<Rightarrow> bool \<Rightarrow> 'g"
  data_descriptor :: "nat \<Rightarrow> 'g"
  tss_descriptor :: "u64 \<Rightarrow> u64 \<Rightarrow> 'g \<times> 'g"
  tss_new :: "u64 \<Rightarrow> u16 \<Rightarrow> 't"
  tss_size :: u64

text \<open>What the segment registers and the task register are loaded with, by index into the table.\<close>

record selectors =
  sel_cs :: nat
  sel_ss :: nat
  sel_data :: nat
  sel_tr :: nat

text \<open>\<open>stack_bottom\<close> and \<open>tss_address\<close> are where the linker put the two statics.\<close>

definition gdt_init ::
    "irq \<Rightarrow> ('g, 't) segments \<Rightarrow> u64 \<Rightarrow> u64 \<Rightarrow> 't Singleton \<times> 'g GlobalDescriptorTable Singleton \<times> bool \<Rightarrow>
     ('g GlobalDescriptorTable \<times> selectors \<times> 't Singleton \<times> 'g GlobalDescriptorTable Singleton \<times> bool) option" where
  "gdt_init Q B stack_bottom tss_address = (\<lambda>(TSS, GDT, f). do {
     stack_top \<leftarrow> add64 stack_bottom IST_STACK_SIZE;
     let tss = tss_new B stack_top (ucast (tss_size B));
     (TSS, f) \<leftarrow> Singleton_install Q tss (TSS, f);
     limit \<leftarrow> sub64 (tss_size B) 1;
     (tssd, TSS, f) \<leftarrow> Singleton_with Q (\<lambda>tss. (tss_descriptor B tss_address limit, tss)) (TSS, f);
     let gdt = \<lparr>gdt_null = NULL_descriptor B, kernel_code = code_descriptor B 0 True False, kernel_data = data_descriptor B 0,
                user_code_32bit = code_descriptor B 3 False True, user_data = data_descriptor B 3,
                user_code = code_descriptor B 3 True False, gdt_tss = tssd\<rparr>;
     (GDT, f) \<leftarrow> Singleton_install Q gdt (GDT, f);
     (gdt_ptr, GDT, f) \<leftarrow> Singleton_with Q (\<lambda>gdt. (gdt, gdt)) (GDT, f);
     Some (gdt_ptr, \<lparr>sel_cs = 1, sel_ss = 2, sel_data = 0, sel_tr = 6\<rparr>, TSS, GDT, f) })"

text \<open>The 8-byte slots of the packed table, which the selectors index.\<close>

definition gdt_slots :: "'g GlobalDescriptorTable \<Rightarrow> 'g list" where
  "gdt_slots g = [gdt_null g, kernel_code g, kernel_data g, user_code_32bit g, user_data g, user_code g, fst (gdt_tss g), snd (gdt_tss g)]"

section \<open>The ACPI library\<close>

text \<open>A status is zero or an error; \<open>describe\<close> is the library's text for it, when that is valid UTF-8.\<close>

definition uacpi_status_to_result :: "(nat \<Rightarrow> string option) \<Rightarrow> nat \<Rightarrow> string + unit" where
  "uacpi_status_to_result describe status =
     (if status = 0 then Inr () else Inl (case describe status of Some m \<Rightarrow> m | None \<Rightarrow> ''Unknown error''))"

text \<open>The four stages of the library act on a state of their own.\<close>

definition acpi_init :: "(nat \<Rightarrow> string option) \<Rightarrow> ('s \<Rightarrow> nat \<times> 's) \<Rightarrow> ('s \<Rightarrow> nat \<times> 's) \<Rightarrow> ('s \<Rightarrow> nat \<times> 's) \<Rightarrow> ('s \<Rightarrow> nat \<times> 's) \<Rightarrow>
    's \<Rightarrow> (string + unit) \<times> 's" where
  "acpi_init describe initialize namespace_load namespace_initialize finalize_gpe s =
     (case initialize s of (st, s) \<Rightarrow> (case uacpi_status_to_result describe st of Inl e \<Rightarrow> (Inl e, s) | Inr _ \<Rightarrow>
      (case namespace_load s of (st, s) \<Rightarrow> (case uacpi_status_to_result describe st of Inl e \<Rightarrow> (Inl e, s) | Inr _ \<Rightarrow>
       (case namespace_initialize s of (st, s) \<Rightarrow> (case uacpi_status_to_result describe st of Inl e \<Rightarrow> (Inl e, s) | Inr _ \<Rightarrow>
        (case finalize_gpe s of (st, s) \<Rightarrow> (uacpi_status_to_result describe st, s))))))))"

section \<open>The mark on the screen\<close>

text \<open>The loop of \<open>kmain\<close> over the pixels of the diagonal, on the frame buffer as a slice.\<close>

primrec diagonal :: "nat \<Rightarrow> nat list \<Rightarrow> u32 list \<Rightarrow> u32 list option" where
  "diagonal pitch_pixels [] fb = Some fb"
| "diagonal pitch_pixels (i # is) fb = do {
     let pixel_offset = i * pitch_pixels + i;
     fb \<leftarrow> idx_set fb pixel_offset 0xFFFFFFFF;
     diagonal pitch_pixels is fb }"

text \<open>\<open>fb\<close> is the memory of the frame buffer, whose length is the product the source computes.\<close>

definition kmain_framebuffer :: "nat \<Rightarrow> u32 list \<Rightarrow> u32 list option" where
  "kmain_framebuffer pitch fb = (let pitch_pixels = pitch div 4 in diagonal pitch_pixels [0..<100] fb)"

section \<open>What they do\<close>

text \<open>A singleton whose lock is free: installed once, used after that, with the interrupt flag as it was.\<close>

definition singleton_at :: "'a option \<Rightarrow> 'a Singleton \<Rightarrow> bool" where
  "singleton_at v g \<longleftrightarrow> inner_value g = v \<and> \<not> locked (inner_lock g)"

lemma singleton_steps:
  assumes "irq_ok Q"
  shows "singleton_at None g \<Longrightarrow> \<exists>g'. Singleton_install Q x (g, f) = Some (g', f) \<and> singleton_at (Some x) g'"
    "singleton_at (Some v) g \<Longrightarrow> \<exists>g'. Singleton_with Q fn (g, f) = Some (fst (fn v), g', f) \<and> singleton_at (Some (snd (fn v))) g'"
  using assms by (auto simp: singleton_at_def Singleton_install_def Singleton_with_def IntLock_lock_eq IntLock_unlock_def irq_simps split_beta)

text \<open>
  The code segment register, the stack segment register and the task register select the kernel's 64-bit code, the
  kernel's data and the task state with the double fault stack; the flag is left as it was.
\<close>

lemma gdt_init_selects:
  assumes Q: "irq_ok Q" and new: "singleton_at None TSS" "singleton_at None GDT"
    and fit: "unat stack_bottom + 16384 < 2 ^ 64" "tss_size B \<noteq> 0"
  shows "\<exists>g sel TSS' GDT'. gdt_init Q B stack_bottom tss_address (TSS, GDT, f) = Some (g, sel, TSS', GDT', f) \<and>
    gdt_slots g ! sel_cs sel = code_descriptor B 0 True False \<and> gdt_slots g ! sel_ss sel = data_descriptor B 0 \<and>
    (gdt_slots g ! sel_tr sel, gdt_slots g ! (sel_tr sel + 1)) = tss_descriptor B tss_address (tss_size B - 1) \<and>
    singleton_at (Some (tss_new B (stack_bottom + 16384) (ucast (tss_size B)))) TSS' \<and> singleton_at (Some g) GDT'"
proof -
  have st: "add64 stack_bottom IST_STACK_SIZE = Some (stack_bottom + 16384)" using fit(1) by (simp add: IST_STACK_SIZE_def)
  have sz: "sub64 (tss_size B) 1 = Some (tss_size B - 1)" using fit(2) by (intro sub64_Some) (simp add: word_le_nat_alt unat_gt_0 Suc_le_eq)
  let ?t = "tss_new B (stack_bottom + 16384) (ucast (tss_size B))"
  let ?d = "tss_descriptor B tss_address (tss_size B - 1)"
  let ?g = "\<lparr>gdt_null = NULL_descriptor B, kernel_code = code_descriptor B 0 True False, kernel_data = data_descriptor B 0,
      user_code_32bit = code_descriptor B 3 False True, user_data = data_descriptor B 3,
      user_code = code_descriptor B 3 True False, gdt_tss = ?d\<rparr>"
  obtain T1 where T1: "Singleton_install Q ?t (TSS, f) = Some (T1, f)" "singleton_at (Some ?t) T1"
    using singleton_steps(1)[OF Q new(1)] by blast
  obtain T2 where T2: "Singleton_with Q (\<lambda>t. (?d, t)) (T1, f) = Some (?d, T2, f)" "singleton_at (Some ?t) T2"
    using singleton_steps(2)[OF Q T1(2), of "\<lambda>t. (?d, t)" f] by auto
  obtain G1 where G1: "Singleton_install Q ?g (GDT, f) = Some (G1, f)" "singleton_at (Some ?g) G1"
    using singleton_steps(1)[OF Q new(2)] by blast
  obtain G2 where G2: "Singleton_with Q (\<lambda>g. (g, g)) (G1, f) = Some (?g, G2, f)" "singleton_at (Some ?g) G2"
    using singleton_steps(2)[OF Q G1(2), of "\<lambda>g. (g, g)" f] by auto
  have "gdt_init Q B stack_bottom tss_address (TSS, GDT, f) =
      Some (?g, \<lparr>sel_cs = 1, sel_ss = 2, sel_data = 0, sel_tr = 6\<rparr>, T2, G2, f)"
    by (simp add: gdt_init_def st sz T1(1) T2(1) G1(1) G2(1))
  then show ?thesis using T2(2) G2(2) by (auto simp: gdt_slots_def)
qed

text \<open>
  Every vector has a gate to its own stub through the kernel's code segment; only the system call may be raised from user
  code, and only the double fault switches to the stack of the task state.
\<close>

lemma idt_init_gates:
  assumes "irq_ok Q" "singleton_at None IDT"
  shows "\<exists>idt IDT'. idt_init Q gate pointer (isr_table entry) (IDT, f) = Some (pointer idt, IDT', f) \<and> singleton_at (Some idt) IDT' \<and>
    length idt = 256 \<and> (\<forall>v<256. idt ! v = gate 1 (entry v) (if v = 0x80 then 3 else 0) (if v = 8 then 1 else 0))"
proof -
  let ?idt = "map (\<lambda>i. gate 1 (isr_table entry ! i) (if i = 0x80 then 3 else 0) (if i = 8 then DOUBLE_FAULT_IST else 0)) [0..<256]"
  obtain I1 where I1: "Singleton_install Q ?idt (IDT, f) = Some (I1, f)" "singleton_at (Some ?idt) I1"
    using singleton_steps(1)[OF assms] by blast
  obtain I2 where "Singleton_with Q (\<lambda>idt. (pointer idt, idt)) (I1, f) = Some (pointer ?idt, I2, f)" "singleton_at (Some ?idt) I2"
    using singleton_steps(2)[OF assms(1) I1(2), of "\<lambda>idt. (pointer idt, idt)" f] by auto
  then show ?thesis using I1(1)
    by (intro exI[of _ ?idt] exI[of _ I2]) (simp add: idt_init_def Let_def isr_table_def DOUBLE_FAULT_IST_def)
qed

text \<open>The stages run in order and the first that fails ends the start with its message.\<close>

lemma acpi_init_ok:
  "fst (acpi_init describe i1 i2 i3 i4 s) = Inr () \<longleftrightarrow>
     fst (i1 s) = 0 \<and> fst (i2 (snd (i1 s))) = 0 \<and> fst (i3 (snd (i2 (snd (i1 s))))) = 0 \<and>
     fst (i4 (snd (i3 (snd (i2 (snd (i1 s))))))) = 0"
  by (auto simp: acpi_init_def uacpi_status_to_result_def split: prod.splits)

text \<open>The mark needs a screen of more than 99 lines that is wide enough: on a smaller one the kernel panics.\<close>

lemma diagonal_fits:
  "diagonal p is fb \<noteq> None \<longleftrightarrow> (\<forall>i \<in> set is. i * p + i < length fb)"
  by (induction "is" arbitrary: fb) (simp_all add: rust_simps)

lemma kmain_framebuffer_panics: "kmain_framebuffer pitch fb = None \<longleftrightarrow> length fb \<le> 99 * (pitch div 4) + 99"
proof -
  have "kmain_framebuffer pitch fb \<noteq> None \<longleftrightarrow> (\<forall>i<100. i * (pitch div 4) + i < length fb)"
    by (simp only: kmain_framebuffer_def Let_def diagonal_fits) auto
  also have "\<dots> \<longleftrightarrow> 99 * (pitch div 4) + 99 < length fb"
  proof
    assume "99 * (pitch div 4) + 99 < length fb"
    then show "\<forall>i<100. i * (pitch div 4) + i < length fb"
    proof (intro allI impI)
      fix i :: nat assume "i < 100"
      then have "i * (pitch div 4) \<le> 99 * (pitch div 4)" by (intro mult_right_mono) simp_all
      then show "i * (pitch div 4) + i < length fb" using \<open>i < 100\<close> \<open>99 * (pitch div 4) + 99 < length fb\<close> by linarith
    qed
  qed auto
  finally show ?thesis by auto
qed

end
