(* ===== verification/Spec2Isabelle.thy ===== *)
theory Spec2Isabelle
  imports Heap_Theorems Vmm_Ownership Vmm_Range Mm_Boot Lock_Theorems Serial Tsc Pci_Theorems Apic Uacpi_Theorems Boot
begin

text \<open>
  A verification library for the prometheos kernel (kernel/src), an x86-64 kernel in Rust.

  \<^bold>\<open>The program.\<close>  The boot loader hands over a memory map and page tables.  \<open>mm::init\<close> (mm/mod.rs) builds the
  physical memory manager (mm/pmm.rs, a buddy allocator whose free lists live in the free frames), copies the loader's page tables
  (mm/vmm.rs) and makes the heap available (mm/heap.rs, slabs over the frame allocator).  gdt.rs, idt.rs and isr.S
  set up segments and interrupts, tsc.rs the clock, acpi/mod.rs the ACPI library with acpi/uacpi.rs as its host
  interface, apic.rs the interrupt controllers, pci.rs the PCI bus.  utils.rs has the locks all of them share and serial.rs the console.

  \<^bold>\<open>How it is modelled.\<close>  Functions of the source are functions here, with the source's names where they do not clash; a
  module's prefix is kept (\<open>tsc_init\<close>, \<open>pci_init\<close>).  Machine integers are words; the kernel is built with overflow checks,
  so arithmetic is checked and a panic is \<open>None\<close> (Prelude).  Structs are records, enums are datatypes, a \<open>Result\<close> is a sum.
  The kernel's state is a record that grows with the components: memory and \<open>PMM\<close> (Memory, Pmm),
  then \<open>HHDM_OFFSET\<close>, \<open>VMM\<close>, \<open>CR3\<close> and the look-aside buffer (Vmm), then \<open>ALLOCATOR\<close> (Heap).  Code that is not in
  the repository is a parameter: paging in the record \<open>x86\<close> with the law \<open>x86_ok\<close>, the interrupt flag in \<open>irq\<close> with
  \<open>irq_ok\<close>, ports, device memory and the time stamp counter in \<open>io\<close> with one law per device, written with the device's
  own ports and registers and not with the driver's functions (\<open>uart_ok\<close>, \<open>pit_device\<close>, \<open>port_config_ok\<close>, \<open>window_config_ok\<close>).  Every law has an instance
  (\<open>amd64\<close>, \<open>amd64_irq\<close>, the small devices next to the theorems), so it can hold.

  \<^bold>\<open>Physical memory\<close> (mm/pmm.rs).  Pmm holds the operations; Buddy and Free_List the structure of blocks and lists;
  Pmm_Inv the invariant \<open>pmm_inv\<close>; Pmm_Correct its preservation; Frame_Interface the locales \<open>page_allocator\<close> and
  \<open>page_memory\<close> with what their clients rely on; Pmm_Props their interpretation on the allocator and the properties: an allocation is a free aligned block and succeeds exactly when there is one, a
  release is accepted exactly when it is legal, the two undo each other, clients never share a frame, and the block structure depends only on the
  frames that are held and not on the order of the operations.

  \<^bold>\<open>Virtual memory\<close> (mm/vmm.rs).  Vmm holds the operations, X86 the parameter; Page_Tables the tree
  of tables and the abstract walk \<open>lookup\<close>; Vmm_Walk, Vmm_Correct and Vmm_Unmap the levels of \<open>map\<close> and \<open>unmap\<close> in the locale
  \<open>table_memory\<close>, an extension of \<open>page_memory\<close>; Vmm_Props and Vmm_Theorems the properties of single pages: the exact result of \<open>map\<close>, its panic on an
  address of more than 52 bits included, what it maps, that a failure leaves no trace, and exactly which tables \<open>unmap\<close> gives back; Vmm_Clone and Vmm_Ownership the
  copy of the loader's tables; Vmm_Range the all-or-nothing property of \<open>map_range\<close>.

  \<^bold>\<open>Heap\<close> (mm/heap.rs).  Heap holds the operations; Heap_Sizes the size classes; Heap_Lists and Heap_Correct slabs and their
  invariant; Heap_Props the locale \<open>block_allocator\<close>; Heap_Theorems the properties, up to sessions of clients that
  write to their blocks.

  \<^bold>\<open>Start of memory\<close> (mm/mod.rs).  Mm holds \<open>mm_init\<close> and the alignment functions; Mm_Boot shows that from
  any well-formed memory map the three managers start in their invariants, with exactly the right frames free.

  \<^bold>\<open>Locks\<close> (utils.rs).  Utils has the locks, singletons and critical sections as functions and the locale \<open>raw_mutex\<close>;
  Lock_Protocol has the atomic steps of several processors and their interrupt handlers as step relations and the locale
  \<open>lock_refinement\<close>; Lock_Theorems shows mutual exclusion, the refinement of an abstract lock, and the deadlock of
  \<open>try_lock\<close> when an interrupt comes between its exchange and its disabling of interrupts.

  \<^bold>\<open>Interrupts\<close> (idt.rs, isr.S, gdt.rs).  Idt has the dispatcher and the table of handlers under any sequence of
  installations and removals; Isr the stubs on registers and
  stack, that the processor resumes with what the handler leaves in the frame, and that an interrupt is transparent to the code it interrupts; Boot the gates and the segments.

  \<^bold>\<open>Devices.\<close>  Devices has the parameter; Serial (serial.rs) shows what reaches the line; Tsc (tsc.rs) has the interval timer as an
  automaton driven by writes to its ports, the error of the frequency measured with it, and the time; Pci (pci.rs) has access, which through the window panics when it is
  not aligned, enumeration and initialisation, Pci_Enum the graph
  of buses and the walk that the enumeration computes, Pci_Theorems the properties; Apic (apic.rs) the searches of the ACPI table
  and the routing of the keyboard.

  \<^bold>\<open>ACPI\<close> (acpi/mod.rs, acpi/uacpi.rs).  Boot has the start of the library, Uacpi the host interface, Uacpi_Theorems its
  properties: the mappings it hands out and the time it waits.

  \<^bold>\<open>Loops and bounds.\<close>  Loops are structural recursion or functions with a measure.  Loops that wait for hardware or for a
  lock are partial functions whose value \<open>None\<close> is waiting for ever, and the properties show that they return.  The enumeration of
  PCI buses counts its nesting; 256 is enough because every bridge leads to a bus with a higher number and there are 256.

  \<^bold>\<open>Not modelled.\<close>  The text of messages and the formatting of the core library.  Functions of the host interface that only allocate
  or free an object through \<open>Box\<close>, and its log output.  The bit patterns of descriptors, the registers of the interrupt controllers and
  the ACPI library itself, which belong to third-party packages.  In \<open>kmain\<close> (main.rs), the writes to control registers and the sequence
  of calls, whose parts are modelled one by one; the panic handler, which prints and halts.  The memory model is sequentially
  consistent: the orderings of the atomics are not modelled.
\<close>

end
